(* ===== verification/Eos_Prelude.thy ===== *)
theory Eos_Prelude
  imports Main "HOL-Library.Word"
begin

unbundle bit_operations_syntax

text \<open>
  Shared vocabulary of the development.

  Go's fixed-width integers are words of the same width, so every wrap-around of the
  source is a wrap-around of the model; signed integers are words read with \<open>sint\<close>.
  \<open>EosAssert\<close>, \<open>Throw\<close> and Go run-time panics abandon the current call; they are the
  \<open>Inl\<close> branch of \<open>'a result\<close>, tagged with the name of the exception type of
  \<open>src/exception\<close>, or with \<open>GoPanic\<close> for a panic raised by the Go run time (a slice
  index out of range, an integer division by zero, a nil dereference). The names starting
  with \<open>Err\<close> are Go \<open>error\<close> values that a function returns.
  The remaining lemmas are the generic facts on words and lists that the component
  theories share.
\<close>

section \<open>Machine integers\<close>

type_synonym u8 = "8 word"
type_synonym u16 = "16 word"
type_synonym u32 = "32 word"
type_synonym u64 = "64 word"
type_synonym i64 = "64 word"

text \<open>Names (\<open>common.Name\<close>) and object ids are plain 64-bit values.\<close>

type_synonym eos_name = u64

section \<open>Errors\<close>

datatype exn =
    GoPanic
  | NoReturn
  | StdException
  | AssertException
  | NameTypeException
  | AssetTypeException
  | SymbolTypeException
  | OverflowException
  | UnderflowException
  | ParseErrorException
  | BlockValidateException
  | UnlinkableBlockException
  | WrongProducer
  | ProducerScheduleException
  | ProducerDoubleConfirm
  | ProducerNotInSchedule
  | WrongSigningKey
  | ResourceLimitException
  | TransactionException
  | RamUsageExceeded
  | TxCpuUsageExceeded
  | TxNetUsageExceeded
  | BlockResourceExhausted
  | RateLimitingStateInconsistent
  | PermissionQueryException
  | ForkDatabaseException
  | ForkDbBlockNotFound
  | InvalidTableIterator
  | TableNotInCache
  | TableOperationNotPermitted
  | InvalidTablePayer
  | TableAccessViolation
  | ActionValidateException
  | SubjectiveBlockProductionException
  | MissingAuthException
  | ErrVarIntBufferSize
  | ErrValueTooLarge
  | ErrRemaining
  | ErrUnsupportedType
  | ErrKeyLength
  | ErrCurve
  | ErrNotFound
  | InvalidPermission
  | IrrelevantAuthException
  | UnsatisfiedAuthorization
  | TxIrrelevantSig
  | UnlinkableMinPermissionAction
  | TxNotFound
  | AccountNameExistsException
  | SetExactCode
  | InvalidContractVmType
  | InvalidContractVmVersion
  | ErrPermissionLevel

type_synonym 'a result = "exn + 'a"

definition rbind :: "'a result \<Rightarrow> ('a \<Rightarrow> 'b result) \<Rightarrow> 'b result" where
  "rbind m f = (case m of Inl e \<Rightarrow> Inl e | Inr x \<Rightarrow> f x)"

text \<open>A call of a loop that may not return: \<open>None\<close> is not returning.\<close>

definition returned :: "'a result option \<Rightarrow> 'a result" where
  "returned m = (case m of None \<Rightarrow> Inl NoReturn | Some r \<Rightarrow> r)"

definition eos_assert :: "bool \<Rightarrow> exn \<Rightarrow> 'a result \<Rightarrow> 'a result" where
  "eos_assert b e k = (if b then k else Inl e)"

lemma rbind_simps [simp]:
  "rbind (Inl e) f = Inl e"
  "rbind (Inr x) f = f x"
  by (simp_all add: rbind_def)

lemma rbind_Inr_iff: "rbind m f = Inr y \<longleftrightarrow> (\<exists>x. m = Inr x \<and> f x = Inr y)"
  by (cases m) auto

lemma rbind_assoc: "rbind (rbind m f) g = rbind m (\<lambda>x. rbind (f x) g)"
  by (cases m) simp_all

lemma rbind_cong [fundef_cong]:
  "m = m' \<Longrightarrow> (\<And>x. m' = Inr x \<Longrightarrow> f x = g x) \<Longrightarrow> rbind m f = rbind m' g"
  by (cases m') auto

lemma returned_Some [simp]: "returned (Some r) = r"
  by (simp add: returned_def)

lemma eos_assert_simps [simp]:
  "eos_assert True e k = k"
  "eos_assert False e k = Inl e"
  by (simp_all add: eos_assert_def)

lemma eos_assert_Inr_iff: "eos_assert b e k = Inr y \<longleftrightarrow> b \<and> k = Inr y"
  by (simp add: eos_assert_def)

lemma eos_assert_cong [fundef_cong]:
  "b = b' \<Longrightarrow> e = e' \<Longrightarrow> (b' \<Longrightarrow> k = k') \<Longrightarrow> eos_assert b e k = eos_assert b' e' k'"
  by (simp add: eos_assert_def)

lemmas result_iffs = rbind_Inr_iff eos_assert_Inr_iff

section \<open>Generic facts\<close>

named_theorems word_nat \<open>word operations read as natural numbers\<close>

lemma unat_bound64 [simp]: "unat (x :: u64) < 18446744073709551616"
  using unsigned_less [of x] by simp

lemma unat_of_nat64: "m < 2 ^ 64 \<Longrightarrow> unat (of_nat m :: u64) = m"
  by (simp add: unsigned_of_nat take_bit_nat_eq_self_iff)

lemma unat_add_mod [word_nat]:
  "unat (x + y :: 'a::len word) = (unat x + unat y) mod 2 ^ LENGTH('a)"
  by (simp add: unat_word_ariths)

lemma unat_mult_mod [word_nat]:
  "unat (x * y :: 'a::len word) = (unat x * unat y) mod 2 ^ LENGTH('a)"
  by (simp add: unat_word_ariths)

lemma unat_sub_le: "y \<le> x \<Longrightarrow> unat (x - y :: 'a::len word) = unat x - unat y"
  by (rule unat_sub)

lemma word_and_push_bit_one:
  "(x AND push_bit i 1 \<noteq> 0) \<longleftrightarrow> bit (x :: 'a::len word) i"
  by (simp add: and_exp_eq_0_iff_not_bit)

lemma concat_less:
  fixes h h' l l' m :: nat
  assumes "h < h'" "l < m"
  shows "h * m + l < h' * m + l'"
proof -
  have "h * m + l < Suc h * m" using assms by simp
  also have "\<dots> \<le> h' * m" using assms by (intro mult_right_mono) auto
  finally show ?thesis by simp
qed

lemma concat_eq_iff:
  fixes h h' l l' m :: nat
  assumes "l < m" "l' < m"
  shows "h * m + l = h' * m + l' \<longleftrightarrow> h = h' \<and> l = l'"
  using assms concat_less [of h h' l m l'] concat_less [of h' h l' m l]
  by (cases h h' rule: linorder_cases) auto

lemma concat_less_iff:
  fixes h h' l l' m :: nat
  assumes "l < m" "l' < m"
  shows "h * m + l < h' * m + l' \<longleftrightarrow> h < h' \<or> h = h' \<and> l < l'"
  using assms concat_less [of h h' l m l'] concat_less [of h' h l' m l]
  by (cases h h' rule: linorder_cases) auto

lemma concat_mod: "l < m \<Longrightarrow> (h * m + l) mod (m * m) = h mod m * m + (l :: nat)"
  by (simp add: mod_mult2_eq)

lemma unat_less_exp: "unat (x :: 'a::len word) < 2 ^ LENGTH('a)"
  by (simp add: unsigned_less)

lemma add_carry_iff: "(x + y < (x :: 'a::len word)) \<longleftrightarrow> unat x + unat y \<ge> 2 ^ LENGTH('a)"
proof (cases "unat x + unat y < 2 ^ LENGTH('a)")
  case True
  then show ?thesis by (simp add: word_less_nat_alt unat_add_mod)
next
  case False
  have lt: "unat x < 2 ^ LENGTH('a)" "unat y < 2 ^ LENGTH('a)"
    by (rule unat_less_exp)+
  with False have ge: "2 ^ LENGTH('a) \<le> unat x + unat y"
    and small: "unat x + unat y - 2 ^ LENGTH('a) < 2 ^ LENGTH('a)" by linarith+
  have "(unat x + unat y) mod 2 ^ LENGTH('a) = unat x + unat y - 2 ^ LENGTH('a)"
    using le_mod_geq [OF ge] mod_less [OF small] by (rule trans)
  then have "unat (x + y) < unat x"
    using False lt unat_add_mod [of x y] by linarith
  with False show ?thesis by (simp add: word_less_nat_alt)
qed

lemma add_carry_div:
  "(unat x + unat y) div 2 ^ LENGTH('a) = of_bool (x + y < (x :: 'a::len word))"
proof -
  have lt: "unat x < 2 ^ LENGTH('a)" "unat y < 2 ^ LENGTH('a)"
    by (rule unat_less_exp)+
  show ?thesis
  proof (cases "x + y < x")
    case True
    then have "2 ^ LENGTH('a) \<le> unat x + unat y" by (simp add: add_carry_iff)
    moreover have "unat x + unat y < 2 * 2 ^ LENGTH('a)" using lt by linarith
    ultimately show ?thesis using True by (simp add: div_nat_eqI)
  next
    case False
    then show ?thesis by (simp add: add_carry_iff)
  qed
qed

lemma minus_one_minus: "- 1 - x = NOT (x :: 'a::len word)"
  by (simp add: not_eq_complement)

lemma uint_lt64: "uint (x :: u64) < 18446744073709551616"
  using unsigned_less [of x] by simp

lemma half_cases:
  assumes "n < 2 * w"
  obtains "n < w" | m where "n = w + m" "m < (w :: nat)"
  using assms that(2) [of "n - w"] by (cases "n < w") auto

lemma carry_split: "l div m = c \<Longrightarrow> h * m + l = (h + c) * m + l mod (m :: nat)"
  using div_mult_mod_eq [of l m] by (simp add: distrib_right)

lemma sub_borrow_iff: "(x < x - y) \<longleftrightarrow> (x < (y :: 'a::len word))"
proof
  assume "x < y"
  show "x < x - y"
  proof (rule ccontr)
    assume "\<not> x < x - y"
    then have "unat (x - y) + unat y < 2 ^ LENGTH('a)"
      using add_carry_iff [of "x - y" y] by simp
    then have "unat x = unat (x - y) + unat y"
      using unat_add_mod [of "x - y" y] by simp
    with \<open>x < y\<close> show False by (simp add: word_less_nat_alt)
  qed
next
  assume "x < x - y"
  then show "x < y" using word_sub_le [of y x] by (meson leD not_le)
qed

lemma unat_drop_bit: "unat (drop_bit n (x :: 'a::len word)) = unat x div 2 ^ n"
  by (subst unat_drop_bit_eq) (simp only: drop_bit_eq_div)

lemma unat_no_wrap:
  fixes x y :: "'a::len word"
  shows "unat x + unat y < 2 ^ LENGTH('a) \<Longrightarrow> unat (x + y) = unat x + unat y"
    and "unat x * unat y < 2 ^ LENGTH('a) \<Longrightarrow> unat (x * y) = unat x * unat y"
  by (simp_all add: unat_add_mod unat_mult_mod)

lemma mult_lt_exp: "a < 2 ^ m \<Longrightarrow> b < 2 ^ n \<Longrightarrow> a * b < (2 :: nat) ^ (m + n)"
  by (simp add: power_add mult_strict_mono)

lemma half_mult_less: "a * b < 2 * m \<Longrightarrow> a div 2 * b < (m :: nat)"
  using mult_le_mono1 [OF times_div_less_eq_dividend, of 2 a b] by (simp only: mult.assoc)

lemma unat_ucast_up:
  assumes "LENGTH('a) \<le> LENGTH('b)"
  shows "unat (ucast (w :: 'a::len word) :: 'b::len word) = unat w"
proof -
  have "unat w < 2 ^ LENGTH('b)"
    using assms by (intro less_le_trans [OF unat_less_exp]) (simp add: power_increasing)
  then show ?thesis by (simp add: unsigned_ucast_eq take_bit_nat_eq_self_iff)
qed

section \<open>Signed integers\<close>

text \<open>Go's integer division truncates towards zero.\<close>

definition go_quot :: "int \<Rightarrow> int \<Rightarrow> int" where
  "go_quot a b = sgn a * sgn b * (\<bar>a\<bar> div \<bar>b\<bar>)"

definition go_sdiv :: "'a::len word \<Rightarrow> 'a word \<Rightarrow> 'a word" where
  "go_sdiv a b = word_of_int (go_quot (sint a) (sint b))"

lemma go_quot_pos: "0 \<le> a \<Longrightarrow> 0 < b \<Longrightarrow> go_quot a b = a div b"
  by (cases "a = 0") (simp_all add: go_quot_def)

lemma double_mod: "0 \<le> a \<Longrightarrow> a < m \<Longrightarrow> (a + a) mod m = (if a + a < m then a + a else a + a - m)" for a m :: int
  using mod_pos_pos_trivial [of "a + a - m" m] mod_add_self2 [of "a + a - m" m] by auto

lemma sint_word_of_int_range:
  assumes "- (2 ^ (LENGTH('a) - 1)) \<le> k" "k < 2 ^ (LENGTH('a) - 1)"
  shows "sint (word_of_int k :: 'a::len word) = k"
  using assms by (simp add: signed_of_int signed_take_bit_int_eq_self)

lemma go_sdiv_of_int:
  assumes "0 \<le> a" "a < 2 ^ (LENGTH('a) - 1)" "0 < b" "b < 2 ^ (LENGTH('a) - 1)"
  shows "go_sdiv (word_of_int a :: 'a::len word) (word_of_int b) = word_of_int (a div b)"
proof -
  have "- (2 ^ (LENGTH('a) - 1)) \<le> a" "- (2 ^ (LENGTH('a) - 1)) \<le> b"
    using assms by (meson neg_le_0_iff_le order_trans less_imp_le zero_le_numeral zero_le_power)+
  with assms show ?thesis
    by (simp add: go_sdiv_def sint_word_of_int_range go_quot_pos)
qed

section \<open>Lists updated in place\<close>

lemma length_fold_update [simp]:
  "length (fold (\<lambda>i xs. xs[i := f i xs]) is xs) = length xs"
  by (induction "is" arbitrary: xs) auto

lemma drop_eq_ConsD:
  assumes "drop n xs = y # ys"
  shows "n < length xs" "xs ! n = y" "drop (Suc n) xs = ys"
proof -
  show n: "n < length xs" using assms by (cases "length xs \<le> n") auto
  show "xs ! n = y" "drop (Suc n) xs = ys"
    using assms Cons_nth_drop_Suc [OF n] by simp_all
qed

end
