(* ===== verification/Eos_RBTree.thy ===== *)
theory Eos_RBTree
  imports Eos_Prelude
begin

text \<open>
  The red-black tree of \<open>src/libraries/container/redblacktree/redblacktree.go\<close> that backs the
  node's tree maps and tree sets. The code links nodes by \<open>Left\<close>, \<open>Right\<close> and \<open>Parent\<close> pointers;
  a pointer to a node is modelled as a location: the subtree at the node and the path of
  parent frames above it, so that \<open>node.Parent\<close> is the head of the path and a rotation
  rewrites the path. A nil dereference is the error \<open>GoPanic\<close>. Shown: no operation panics
  on a tree that satisfies the invariant, every operation keeps the colour and height
  invariant, and on the in-order sequence of entries the operations are insertion,
  deletion and search in a sorted list, for every comparator that is a total order.
\<close>

section \<open>Model\<close>

datatype color = black | red

datatype ('k, 'v) Node =
  NilNode
| Node (Key: 'k) (Value: 'v) (node_color: color) (Left: "('k, 'v) Node") (Right: "('k, 'v) Node")

text \<open>A frame is a parent seen from its left or its right child: its key, value, colour and other child.\<close>

datatype ('k, 'v) frame =
  LeftOf 'k 'v color "('k, 'v) Node"
| RightOf 'k 'v color "('k, 'v) Node"

type_synonym ('k, 'v) path = "('k, 'v) frame list"
type_synonym ('k, 'v) location = "('k, 'v) Node \<times> ('k, 'v) path"
type_synonym 'k comparator = "'k \<Rightarrow> 'k \<Rightarrow> int"

record ('k, 'v) Tree =
  isMulti :: bool
  Root :: "('k, 'v) Node"
  size_field :: int

definition nodeColor :: "('k, 'v) Node \<Rightarrow> color" where
  "nodeColor n = (case n of NilNode \<Rightarrow> black | Node k v c l r \<Rightarrow> c)"

fun paint :: "color \<Rightarrow> ('k, 'v) Node \<Rightarrow> ('k, 'v) Node" where
  "paint c NilNode = NilNode"
| "paint c (Node k v _ l r) = Node k v c l r"

fun sibling :: "('k, 'v) frame \<Rightarrow> ('k, 'v) Node" where
  "sibling (LeftOf k v c r) = r"
| "sibling (RightOf k v c l) = l"

fun frame_color :: "('k, 'v) frame \<Rightarrow> color" where
  "frame_color (LeftOf k v c r) = c"
| "frame_color (RightOf k v c l) = c"

fun paint_frame :: "color \<Rightarrow> ('k, 'v) frame \<Rightarrow> ('k, 'v) frame" where
  "paint_frame c (LeftOf k v _ r) = LeftOf k v c r"
| "paint_frame c (RightOf k v _ l) = RightOf k v c l"

fun set_sibling :: "('k, 'v) Node \<Rightarrow> ('k, 'v) frame \<Rightarrow> ('k, 'v) frame" where
  "set_sibling s (LeftOf k v c r) = LeftOf k v c s"
| "set_sibling s (RightOf k v c l) = RightOf k v c s"

fun up :: "('k, 'v) Node \<Rightarrow> ('k, 'v) frame \<Rightarrow> ('k, 'v) Node" where
  "up t (LeftOf k v c r) = Node k v c t r"
| "up t (RightOf k v c l) = Node k v c l t"

fun plug :: "('k, 'v) Node \<Rightarrow> ('k, 'v) path \<Rightarrow> ('k, 'v) Node" where
  "plug t [] = t"
| "plug t (f # p) = plug (up t f) p"

fun rotateLeft :: "('k, 'v) Node \<Rightarrow> ('k, 'v) Node result" where
  "rotateLeft (Node k v c l (Node rk rv rc rl rr)) = Inr (Node rk rv rc (Node k v c l rl) rr)"
| "rotateLeft _ = Inl GoPanic"

fun rotateRight :: "('k, 'v) Node \<Rightarrow> ('k, 'v) Node result" where
  "rotateRight (Node k v c (Node lk lv lc ll lr) r) = Inr (Node lk lv lc ll (Node k v c lr r))"
| "rotateRight _ = Inl GoPanic"

subsection \<open>Insertion\<close>

text \<open>
  Case 5: the parent becomes black and the grandparent red; an outer grandchild rotates the
  grandparent. The location is the node, its parent frame, its grandparent frame and the rest.
\<close>

definition insertCase5 ::
  "('k, 'v) Node \<Rightarrow> ('k, 'v) frame \<Rightarrow> ('k, 'v) frame \<Rightarrow> ('k, 'v) path \<Rightarrow> ('k, 'v) Node result" where
  "insertCase5 node parent grandparent p =
     (let gp = up (up node (paint_frame black parent)) (paint_frame red grandparent)
      in case (parent, grandparent) of
           (LeftOf _ _ _ _, LeftOf _ _ _ _) \<Rightarrow> rbind (rotateRight gp) (\<lambda>t. Inr (plug t p))
         | (RightOf _ _ _ _, RightOf _ _ _ _) \<Rightarrow> rbind (rotateLeft gp) (\<lambda>t. Inr (plug t p))
         | _ \<Rightarrow> Inr (plug gp p))"

text \<open>Case 4: an inner grandchild is first rotated to the outside; a nil grandparent panics.\<close>

definition insertCase4 ::
  "('k, 'v) Node \<Rightarrow> ('k, 'v) frame \<Rightarrow> ('k, 'v) path \<Rightarrow> ('k, 'v) Node result" where
  "insertCase4 node parent p =
     (case p of
        [] \<Rightarrow> Inl GoPanic
      | grandparent # p' \<Rightarrow>
          (case (parent, grandparent) of
             (RightOf _ _ _ _, LeftOf _ _ _ _) \<Rightarrow>
               rbind (rotateLeft (up node parent)) (\<lambda>t.
                 insertCase5 (Left t) (LeftOf (Key t) (Value t) (node_color t) (Right t)) grandparent p')
           | (LeftOf _ _ _ _, RightOf _ _ _ _) \<Rightarrow>
               rbind (rotateRight (up node parent)) (\<lambda>t.
                 insertCase5 (Right t) (RightOf (Key t) (Value t) (node_color t) (Left t)) grandparent p')
           | _ \<Rightarrow> insertCase5 node parent grandparent p'))"

definition uncle :: "('k, 'v) path \<Rightarrow> ('k, 'v) Node" where
  "uncle p = (case p of [] \<Rightarrow> NilNode | grandparent # _ \<Rightarrow> sibling grandparent)"

function insertCase1 :: "('k, 'v) Node \<Rightarrow> ('k, 'v) path \<Rightarrow> ('k, 'v) Node result"
  and insertCase2 :: "('k, 'v) Node \<Rightarrow> ('k, 'v) frame \<Rightarrow> ('k, 'v) path \<Rightarrow> ('k, 'v) Node result"
  and insertCase3 :: "('k, 'v) Node \<Rightarrow> ('k, 'v) frame \<Rightarrow> ('k, 'v) path \<Rightarrow> ('k, 'v) Node result" where
  "insertCase1 node p =
     (case p of [] \<Rightarrow> Inr (paint black node) | parent # p' \<Rightarrow> insertCase2 node parent p')"
| "insertCase2 node parent p =
     (if frame_color parent = black then Inr (plug node (parent # p)) else insertCase3 node parent p)"
| "insertCase3 node parent p =
     (if nodeColor (uncle p) = red then
        (case p of
           [] \<Rightarrow> Inl GoPanic
         | grandparent # p' \<Rightarrow>
             insertCase1
               (up (up node (paint_frame black parent))
                   (paint_frame red (set_sibling (paint black (sibling grandparent)) grandparent))) p')
      else insertCase4 node parent p)"
  by pat_completeness auto
termination
  by (relation "measure (\<lambda>x. case x of
        Inl (node, p) \<Rightarrow> 3 * length p
      | Inr (Inl (node, f, p)) \<Rightarrow> 3 * length p + 2
      | Inr (Inr (node, f, p)) \<Rightarrow> 3 * length p + 1)") auto

declare insertCase1.simps [simp del] insertCase2.simps [simp del] insertCase3.simps [simp del]

text \<open>
  The search for the place of a key. At a nil link a new red node is placed; in a tree with
  unique keys the entry of an equal key is overwritten instead and \<open>put\<close> ends there.
\<close>

fun put_descend ::
  "'k comparator \<Rightarrow> bool \<Rightarrow> 'k \<Rightarrow> 'v \<Rightarrow> ('k, 'v) Node \<Rightarrow> ('k, 'v) path \<Rightarrow> ('k, 'v) location \<times> bool" where
  "put_descend cmp multi key value NilNode p = ((Node key value red NilNode NilNode, p), True)"
| "put_descend cmp multi key value (Node k v c l r) p =
     (let compare = cmp key k in
      if multi then
        (if compare < 0 then put_descend cmp multi key value l (LeftOf k v c r # p)
         else put_descend cmp multi key value r (RightOf k v c l # p))
      else
        (if compare = 0 then ((Node key value c l r, p), False)
         else if compare < 0 then put_descend cmp multi key value l (LeftOf k v c r # p)
         else put_descend cmp multi key value r (RightOf k v c l # p)))"

definition put ::
  "'k comparator \<Rightarrow> ('k, 'v) Tree \<Rightarrow> 'k \<Rightarrow> 'v \<Rightarrow> (('k, 'v) Tree \<times> bool) result" where
  "put cmp tree key value =
     (let (loc, inserted) = put_descend cmp (isMulti tree) key value (Root tree) [] in
      if inserted
      then rbind (insertCase1 (fst loc) (snd loc))
             (\<lambda>root. Inr (tree\<lparr>Root := root, size_field := size_field tree + 1\<rparr>, True))
      else Inr (tree\<lparr>Root := plug (fst loc) (snd loc)\<rparr>, False))"

subsection \<open>Search\<close>

fun lookup_loop :: "'k comparator \<Rightarrow> 'k \<Rightarrow> ('k, 'v) Node \<Rightarrow> ('k, 'v) path \<Rightarrow> ('k, 'v) location option" where
  "lookup_loop cmp key NilNode p = None"
| "lookup_loop cmp key (Node k v c l r) p =
     (let compare = cmp key k in
      if compare = 0 then Some (Node k v c l r, p)
      else if compare < 0 then lookup_loop cmp key l (LeftOf k v c r # p)
      else lookup_loop cmp key r (RightOf k v c l # p))"

definition lookup :: "'k comparator \<Rightarrow> ('k, 'v) Tree \<Rightarrow> 'k \<Rightarrow> ('k, 'v) location option" where
  "lookup cmp tree key = lookup_loop cmp key (Root tree) []"

fun LowerBound_loop :: "'k comparator \<Rightarrow> 'k \<Rightarrow> ('k, 'v) location option \<Rightarrow> ('k, 'v) Node \<Rightarrow> ('k, 'v) path
    \<Rightarrow> ('k, 'v) location option" where
  "LowerBound_loop cmp key result NilNode p = result"
| "LowerBound_loop cmp key result (Node k v c l r) p =
     (if cmp key k > 0 then LowerBound_loop cmp key result r (RightOf k v c l # p)
      else LowerBound_loop cmp key (Some (Node k v c l r, p)) l (LeftOf k v c r # p))"

definition LowerBound :: "'k comparator \<Rightarrow> ('k, 'v) Tree \<Rightarrow> 'k \<Rightarrow> ('k, 'v) location option" where
  "LowerBound cmp tree key = LowerBound_loop cmp key None (Root tree) []"

fun UpperBound_loop :: "'k comparator \<Rightarrow> 'k \<Rightarrow> ('k, 'v) location option \<Rightarrow> ('k, 'v) Node \<Rightarrow> ('k, 'v) path
    \<Rightarrow> ('k, 'v) location option" where
  "UpperBound_loop cmp key result NilNode p = result"
| "UpperBound_loop cmp key result (Node k v c l r) p =
     (if cmp key k \<ge> 0 then UpperBound_loop cmp key result r (RightOf k v c l # p)
      else UpperBound_loop cmp key (Some (Node k v c l r, p)) l (LeftOf k v c r # p))"

definition UpperBound :: "'k comparator \<Rightarrow> ('k, 'v) Tree \<Rightarrow> 'k \<Rightarrow> ('k, 'v) location option" where
  "UpperBound cmp tree key = UpperBound_loop cmp key None (Root tree) []"

definition Get :: "'k comparator \<Rightarrow> ('k, 'v) Tree \<Rightarrow> 'k \<Rightarrow> ('k, 'v) location option" where
  "Get cmp tree key =
     (if isMulti tree then
        (case LowerBound cmp tree key of
           None \<Rightarrow> None
         | Some lower \<Rightarrow> if cmp key (Key (fst lower)) = 0 then Some lower else None)
      else lookup cmp tree key)"

subsection \<open>Deletion\<close>

text \<open>
  The repair after a black node left the tree rewrites the path above the node. In case 6 a
  left node whose sibling has no red right child would rotate the node itself; the
  branch returns an error and is shown to be unreachable.
\<close>

definition deleteCase6 :: "('k, 'v) frame \<Rightarrow> ('k, 'v) path \<Rightarrow> ('k, 'v) path result" where
  "deleteCase6 parent p =
     (case parent of
        LeftOf k v c s \<Rightarrow>
          (case s of
             NilNode \<Rightarrow> Inl GoPanic
           | Node sk sv sc sl sr \<Rightarrow>
               if nodeColor sr = red
               then Inr (LeftOf k v black sl # LeftOf sk sv c (paint black sr) # p)
               else if nodeColor sl = red then Inl GoPanic
               else Inr (LeftOf k v black (Node sk sv c sl sr) # p))
      | RightOf k v c s \<Rightarrow>
          (case s of
             NilNode \<Rightarrow> Inl GoPanic
           | Node sk sv sc sl sr \<Rightarrow>
               if nodeColor sl = red
               then Inr (RightOf k v black sr # RightOf sk sv c (paint black sl) # p)
               else Inr (RightOf k v black (Node sk sv c sl sr) # p)))"

definition deleteCase5 :: "('k, 'v) frame \<Rightarrow> ('k, 'v) path \<Rightarrow> ('k, 'v) path result" where
  "deleteCase5 parent p =
     (case sibling parent of
        NilNode \<Rightarrow> Inl GoPanic
      | Node sk sv sc sl sr \<Rightarrow>
          (case parent of
             LeftOf k v c _ \<Rightarrow>
               if sc = black \<and> nodeColor sl = red \<and> nodeColor sr = black
               then rbind (rotateRight (Node sk sv red (paint black sl) sr))
                      (\<lambda>s. deleteCase6 (LeftOf k v c s) p)
               else deleteCase6 parent p
           | RightOf k v c _ \<Rightarrow>
               if sc = black \<and> nodeColor sr = red \<and> nodeColor sl = black
               then rbind (rotateLeft (Node sk sv red sl (paint black sr)))
                      (\<lambda>s. deleteCase6 (RightOf k v c s) p)
               else deleteCase6 parent p))"

definition deleteCase4 :: "('k, 'v) frame \<Rightarrow> ('k, 'v) path \<Rightarrow> ('k, 'v) path result" where
  "deleteCase4 parent p =
     (case sibling parent of
        NilNode \<Rightarrow> Inl GoPanic
      | Node sk sv sc sl sr \<Rightarrow>
          if frame_color parent = red \<and> sc = black \<and> nodeColor sl = black \<and> nodeColor sr = black
          then Inr (paint_frame black (set_sibling (Node sk sv red sl sr) parent) # p)
          else deleteCase5 parent p)"

text \<open>Case 2: a red sibling is rotated above the parent, which lengthens the path.\<close>

fun deleteCase2_rotate :: "('k, 'v) frame \<Rightarrow> ('k, 'v) path \<Rightarrow> ('k, 'v) path" where
  "deleteCase2_rotate (LeftOf k v c (Node sk sv red sl sr)) p =
     LeftOf k v red sl # LeftOf sk sv black sr # p"
| "deleteCase2_rotate (RightOf k v c (Node sk sv red sl sr)) p =
     RightOf k v red sr # RightOf sk sv black sl # p"
| "deleteCase2_rotate parent p = parent # p"

definition deleteCase3_recurses :: "('k, 'v) frame \<Rightarrow> bool" where
  "deleteCase3_recurses parent \<longleftrightarrow>
     frame_color parent = black \<and> nodeColor (sibling parent) = black \<and>
     nodeColor (Left (sibling parent)) = black \<and> nodeColor (Right (sibling parent)) = black"

function deleteCase1 :: "('k, 'v) path \<Rightarrow> ('k, 'v) path result" where
  "deleteCase1 [] = Inr []"
| "deleteCase1 (parent # p) =
     (case deleteCase2_rotate parent p of
        [] \<Rightarrow> Inl GoPanic
      | parent' # p' \<Rightarrow>
          if frame_color parent' = black \<and> sibling parent' = NilNode then Inl GoPanic
          else if deleteCase3_recurses parent'
          then rbind (deleteCase1 p')
                 (\<lambda>q. Inr (set_sibling (paint red (sibling parent')) parent' # q))
          else deleteCase4 parent' p')"
  by pat_completeness auto
termination
proof (relation "measure length")
  show "(p', parent # p) \<in> measure length"
    if "deleteCase2_rotate parent p = parent' # p'" "deleteCase3_recurses parent'" for parent p parent' p'
    using that by (cases "(parent, p)" rule: deleteCase2_rotate.cases) (auto simp: deleteCase3_recurses_def)
qed simp

fun maximumNode :: "('k, 'v) Node \<Rightarrow> ('k, 'v) path \<Rightarrow> ('k, 'v) location" where
  "maximumNode (Node k v c l r) p =
     (if r = NilNode then (Node k v c l r, p) else maximumNode r (RightOf k v c l # p))"
| "maximumNode NilNode p = (NilNode, p)"

text \<open>
  \<open>swapNode\<close> exchanges a node with its predecessor, colours included: the predecessor's entry
  moves up into the path, and the node hangs where the predecessor was.
\<close>

definition swapNode :: "('k, 'v) location \<Rightarrow> ('k, 'v) location" where
  "swapNode loc =
     (let node = fst loc; p = snd loc;
          (pred, q) = maximumNode (Left node) []
      in (Node (Key node) (Value node) (node_color pred) (Left pred) (Right pred),
          q @ LeftOf (Key pred) (Value pred) (node_color node) (Right node) # p))"

text \<open>The second half of \<open>remove\<close>: the node has at most one child, which takes its place.\<close>

definition splice :: "('k, 'v) location \<Rightarrow> ('k, 'v) Node result" where
  "splice loc =
     (let node = fst loc; p = snd loc;
          child = (if Right node = NilNode then Left node else Right node)
      in rbind (if node_color node = black then deleteCase1 p else Inr p)
           (\<lambda>p. Inr (plug (if p = [] \<and> child \<noteq> NilNode then paint black child else child) p)))"

definition remove_root :: "('k, 'v) location \<Rightarrow> ('k, 'v) Node result" where
  "remove_root loc =
     splice (if Left (fst loc) \<noteq> NilNode \<and> Right (fst loc) \<noteq> NilNode then swapNode loc else loc)"

definition remove :: "('k, 'v) Tree \<Rightarrow> ('k, 'v) location option \<Rightarrow> ('k, 'v) Tree result" where
  "remove tree node =
     (case node of
        None \<Rightarrow> Inr tree
      | Some loc \<Rightarrow>
          rbind (remove_root loc)
            (\<lambda>root. Inr (tree\<lparr>Root := root, size_field := size_field tree - 1\<rparr>)))"

subsection \<open>Iterators\<close>

text \<open>An iterator is before the first entry, at a location, or past the last entry.\<close>

datatype ('k, 'v) Iterator = AtBegin | Between "('k, 'v) location" | AtEnd

fun leftmost :: "('k, 'v) Node \<Rightarrow> ('k, 'v) path \<Rightarrow> ('k, 'v) location option" where
  "leftmost NilNode p = None"
| "leftmost (Node k v c l r) p =
     (if l = NilNode then Some (Node k v c l r, p) else leftmost l (LeftOf k v c r # p))"

fun rightmost :: "('k, 'v) Node \<Rightarrow> ('k, 'v) path \<Rightarrow> ('k, 'v) location option" where
  "rightmost NilNode p = None"
| "rightmost (Node k v c l r) p =
     (if r = NilNode then Some (Node k v c l r, p) else rightmost r (RightOf k v c l # p))"

fun climb_next :: "('k, 'v) Node \<Rightarrow> ('k, 'v) path \<Rightarrow> ('k, 'v) location option" where
  "climb_next t [] = None"
| "climb_next t (LeftOf k v c r # p) = Some (Node k v c t r, p)"
| "climb_next t (RightOf k v c l # p) = climb_next (Node k v c l t) p"

fun climb_prev :: "('k, 'v) Node \<Rightarrow> ('k, 'v) path \<Rightarrow> ('k, 'v) location option" where
  "climb_prev t [] = None"
| "climb_prev t (RightOf k v c l # p) = Some (Node k v c l t, p)"
| "climb_prev t (LeftOf k v c r # p) = climb_prev (Node k v c t r) p"

definition Next :: "('k, 'v) Tree \<Rightarrow> ('k, 'v) Iterator \<Rightarrow> ('k, 'v) Iterator" where
  "Next tree iterator =
     (let target = (case iterator of
            AtEnd \<Rightarrow> None
          | AtBegin \<Rightarrow> leftmost (Root tree) []
          | Between (n, p) \<Rightarrow>
              if Right n \<noteq> NilNode
              then leftmost (Right n) (RightOf (Key n) (Value n) (node_color n) (Left n) # p)
              else climb_next n p)
      in case target of None \<Rightarrow> AtEnd | Some loc \<Rightarrow> Between loc)"

definition Prev :: "('k, 'v) Tree \<Rightarrow> ('k, 'v) Iterator \<Rightarrow> ('k, 'v) Iterator" where
  "Prev tree iterator =
     (let target = (case iterator of
            AtBegin \<Rightarrow> None
          | AtEnd \<Rightarrow> rightmost (Root tree) []
          | Between (n, p) \<Rightarrow>
              if Left n \<noteq> NilNode
              then rightmost (Left n) (LeftOf (Key n) (Value n) (node_color n) (Right n) # p)
              else climb_prev n p)
      in case target of None \<Rightarrow> AtBegin | Some loc \<Rightarrow> Between loc)"

text \<open>
  \<open>Keys\<close> and \<open>Values\<close> fill a slice of the tree's size while the iterator advances; a write past
  its end panics. The loop is partial: \<open>None\<close> if it does not return.
\<close>

partial_function (option) fill_loop ::
  "(('k, 'v) location \<Rightarrow> 'a) \<Rightarrow> ('k, 'v) Tree \<Rightarrow> ('k, 'v) Iterator \<Rightarrow> nat \<Rightarrow> 'a list \<Rightarrow> 'a list result option" where
  "fill_loop get tree it i slots =
     (case Next tree it of
        Between loc \<Rightarrow>
          if i < length slots then fill_loop get tree (Between loc) (i + 1) (slots[i := get loc])
          else Some (Inl GoPanic)
      | _ \<Rightarrow> Some (Inr slots))"

definition Keys :: "'k \<Rightarrow> ('k, 'v) Tree \<Rightarrow> 'k list result option" where
  "Keys zero tree =
     fill_loop (\<lambda>loc. Key (fst loc)) tree AtBegin 0 (replicate (nat (size_field tree)) zero)"

definition Values :: "'v \<Rightarrow> ('k, 'v) Tree \<Rightarrow> 'v list result option" where
  "Values zero tree =
     fill_loop (\<lambda>loc. Value (fst loc)) tree AtBegin 0 (replicate (nat (size_field tree)) zero)"

text \<open>The operations of the map templates over a tree with unique keys.\<close>

definition NewWith :: "bool \<Rightarrow> ('k, 'v) Tree" where
  "NewWith multi = \<lparr>isMulti = multi, Root = NilNode, size_field = 0\<rparr>"

fun copyNode :: "('k, 'v) Node \<Rightarrow> ('k, 'v) Node" where
  "copyNode NilNode = NilNode"
| "copyNode (Node k v c l r) = Node k v c (copyNode l) (copyNode r)"

definition CopyFrom :: "('k, 'v) Tree \<Rightarrow> ('k, 'v) Tree" where
  "CopyFrom rbt = \<lparr>isMulti = isMulti rbt, Root = copyNode (Root rbt), size_field = size_field rbt\<rparr>"

definition Put :: "'k comparator \<Rightarrow> ('k, 'v) Tree \<Rightarrow> 'k \<Rightarrow> 'v \<Rightarrow> ('k, 'v) Tree result" where
  "Put cmp tree key value = rbind (put cmp tree key value) (\<lambda>(t, _). Inr t)"

definition Remove_unique :: "'k comparator \<Rightarrow> ('k, 'v) Tree \<Rightarrow> 'k \<Rightarrow> ('k, 'v) Tree result" where
  "Remove_unique cmp tree key = remove tree (lookup cmp tree key)"

definition Size :: "('k, 'v) Tree \<Rightarrow> int" where
  "Size tree = size_field tree"

definition Empty :: "('k, 'v) Tree \<Rightarrow> bool" where
  "Empty tree \<longleftrightarrow> size_field tree = 0"

definition Clear :: "('k, 'v) Tree \<Rightarrow> ('k, 'v) Tree" where
  "Clear tree = tree\<lparr>Root := NilNode, size_field := 0\<rparr>"

section \<open>The in-order sequence\<close>

primrec inorder :: "('k, 'v) Node \<Rightarrow> ('k \<times> 'v) list" where
  "inorder NilNode = []"
| "inorder (Node k v c l r) = inorder l @ (k, v) # inorder r"

fun before :: "('k, 'v) path \<Rightarrow> ('k \<times> 'v) list" where
  "before [] = []"
| "before (LeftOf k v c r # p) = before p"
| "before (RightOf k v c l # p) = before p @ inorder l @ [(k, v)]"

fun after :: "('k, 'v) path \<Rightarrow> ('k \<times> 'v) list" where
  "after [] = []"
| "after (LeftOf k v c r # p) = (k, v) # inorder r @ after p"
| "after (RightOf k v c l # p) = after p"

lemma inorder_plug: "inorder (plug t p) = before p @ inorder t @ after p"
proof (induction p arbitrary: t)
  case (Cons f p)
  then show ?case by (cases f) simp_all
qed simp

lemma inorder_paint [simp]: "inorder (paint c t) = inorder t"
  by (cases t) simp_all

lemma sequence_paint_frame [simp]:
  "before (paint_frame c f # p) = before (f # p)" "after (paint_frame c f # p) = after (f # p)"
  by (cases f; simp)+

lemma inorder_rotate:
  "rotateLeft t = Inr t' \<Longrightarrow> inorder t' = inorder t"
  "rotateRight t = Inr t' \<Longrightarrow> inorder t' = inorder t"
  by (induction t rule: rotateLeft.induct; auto)
     (induction t rule: rotateRight.induct; auto)

lemma inorder_up: "inorder (up t f) = before [f] @ inorder t @ after [f]"
  by (cases f) simp_all

lemma sequence_Cons: "before (f # p) = before p @ before [f]" "after (f # p) = after [f] @ after p"
  by (cases f; simp)+

lemma inorder_insertCase5:
  "insertCase5 n f g p = Inr t \<Longrightarrow> inorder t = inorder (plug n (f # g # p))"
  by (cases f; cases g)
     (auto simp: insertCase5_def inorder_plug result_iffs dest!: inorder_rotate)

lemma inorder_insertCase4:
  "insertCase4 n f p = Inr t \<Longrightarrow> inorder t = inorder (plug n (f # p))"
  by (cases p; cases f; cases "hd p"; cases n)
     (auto simp: insertCase4_def inorder_plug result_iffs dest!: inorder_insertCase5)

lemma inorder_insertCase:
  "insertCase1 n p = Inr t \<Longrightarrow> inorder t = inorder (plug n p)"
  "insertCase2 n f p = Inr t \<Longrightarrow> inorder t = inorder (plug n (f # p))"
  "insertCase3 n f p = Inr t \<Longrightarrow> inorder t = inorder (plug n (f # p))"
proof (induction n p and n f p and n f p arbitrary: t and t and t
    rule: insertCase1_insertCase2_insertCase3.induct)
  case (1 node p)
  then show ?case by (cases p) (auto simp: insertCase1.simps [of node])
next
  case (2 node parent p)
  then show ?case by (auto simp: insertCase2.simps [of node] split: if_splits)
next
  case (3 node parent p)
  show ?case
  proof (cases "nodeColor (uncle p) = red")
    case True
    with 3 obtain g p' where p: "p = g # p'" by (cases p) (auto simp: insertCase3.simps)
    with 3 True show ?thesis
      by (cases g; cases parent) (auto simp: insertCase3.simps [of node] inorder_plug)
  next
    case False
    with 3 show ?thesis by (auto simp: insertCase3.simps [of node] dest: inorder_insertCase4)
  qed
qed

section \<open>The colour and height invariant\<close>

fun bheight :: "('k, 'v) Node \<Rightarrow> nat" where
  "bheight NilNode = 0"
| "bheight (Node k v c l r) = (if c = black then bheight l + 1 else bheight l)"

fun balanced :: "('k, 'v) Node \<Rightarrow> bool" where
  "balanced NilNode = True"
| "balanced (Node k v c l r) =
     (balanced l \<and> balanced r \<and> bheight l = bheight r \<and>
      (c = red \<longrightarrow> nodeColor l = black \<and> nodeColor r = black))"

definition rbt :: "('k, 'v) Node \<Rightarrow> bool" where
  "rbt t \<longleftrightarrow> balanced t \<and> nodeColor t = black"

fun above :: "('k, 'v) path \<Rightarrow> color" where
  "above [] = black"
| "above (f # p) = frame_color f"

text \<open>A path that turns a balanced subtree of black height \<open>h\<close> into a balanced tree.\<close>

fun path_ok :: "('k, 'v) path \<Rightarrow> nat \<Rightarrow> bool" where
  "path_ok [] h = True"
| "path_ok (f # p) h =
     (balanced (sibling f) \<and> bheight (sibling f) = h \<and>
      (frame_color f = red \<longrightarrow> nodeColor (sibling f) = black \<and> p \<noteq> [] \<and> above p = black) \<and>
      path_ok p (if frame_color f = black then h + 1 else h))"

lemma nodeColor_simps [simp]: "nodeColor NilNode = black" "nodeColor (Node k v c l r) = c"
  by (simp_all add: nodeColor_def)

lemma nodeColor_paint: "nodeColor (paint c t) = (if t = NilNode then black else c)"
  by (cases t) simp_all

lemma color_not [simp]: "c \<noteq> black \<longleftrightarrow> c = red" "c \<noteq> red \<longleftrightarrow> c = black"
  by (cases c; simp)+

lemma rbt_plug:
  "balanced t \<Longrightarrow> bheight t = h \<Longrightarrow> path_ok p h \<Longrightarrow>
   (nodeColor t = red \<longrightarrow> p \<noteq> [] \<and> above p = black) \<Longrightarrow> rbt (plug t p)"
proof (induction p arbitrary: t h)
  case (Cons f p)
  show ?case unfolding plug.simps
    using Cons.prems by (cases f; intro Cons.IH [of _ "if frame_color f = black then h + 1 else h"]) auto
qed (auto simp: rbt_def)

lemma bheight_paint_black:
  "nodeColor t = red \<Longrightarrow> bheight (paint black t) = bheight t + 1"
  "balanced t \<Longrightarrow> balanced (paint black t)"
  by (cases t; simp)+

lemma insertCase4_rbt:
  assumes "balanced n" "nodeColor n = red" "path_ok (f # g # p) (bheight n)"
    "frame_color f = red" "nodeColor (sibling g) = black"
  shows "\<exists>t. insertCase4 n f (g # p) = Inr t \<and> rbt t"
proof -
  obtain k v l r where n: "n = Node k v red l r" using assms(2) by (cases n) auto
  show ?thesis
    using assms unfolding n
    by (cases f; cases g)
       (auto simp: insertCase4_def insertCase5_def intro!: rbt_plug [where h = "bheight l + 1"])
qed

lemma insertCase1_rbt:
  "balanced n \<Longrightarrow> nodeColor n = red \<Longrightarrow> path_ok p (bheight n) \<Longrightarrow> \<exists>t. insertCase1 n p = Inr t \<and> rbt t"
proof (induction "length p" arbitrary: n p rule: less_induct)
  case less
  show ?case
  proof (cases p)
    case Nil
    with less.prems show ?thesis
      by (cases n) (auto simp: insertCase1.simps rbt_def)
  next
    case (Cons f p1)
    show ?thesis
    proof (cases "frame_color f = black")
      case True
      with less.prems Cons show ?thesis
        by (auto simp: insertCase1.simps insertCase2.simps simp del: plug.simps
              intro!: rbt_plug [where h = "bheight n"])
    next
      case False
      then obtain g p2 where p1: "p1 = g # p2" "frame_color g = black"
        using less.prems(3) Cons by (cases p1) auto
      have step: "insertCase1 n p = insertCase3 n f (g # p2)"
        using False Cons p1 by (simp add: insertCase1.simps insertCase2.simps)
      show ?thesis
      proof (cases "nodeColor (sibling g) = red")
        case True
        let ?n = "up (up n (paint_frame black f)) (paint_frame red (set_sibling (paint black (sibling g)) g))"
        have "balanced ?n" "nodeColor ?n = red" "path_ok p2 (bheight ?n)"
          using less.prems Cons p1 False True
          by (cases f; cases g; auto simp: bheight_paint_black nodeColor_paint)+
        then have "\<exists>t. insertCase1 ?n p2 = Inr t \<and> rbt t"
          using Cons p1 by (intro less.hyps) auto
        with step True show ?thesis by (simp add: insertCase3.simps uncle_def)
      next
        case notred: False
        with less.prems Cons p1 False show ?thesis
          using insertCase4_rbt [of n f g p2] step by (simp add: insertCase3.simps uncle_def)
      qed
    qed
  qed
qed

subsection \<open>Deletion\<close>

lemma deleteCase6_sequence:
  "deleteCase6 f p = Inr q \<Longrightarrow> before q = before (f # p) \<and> after q = after (f # p) \<and> q \<noteq> []"
  by (auto simp: deleteCase6_def split: frame.splits Node.splits if_splits)

lemma deleteCase5_sequence:
  "deleteCase5 f p = Inr q \<Longrightarrow> before q = before (f # p) \<and> after q = after (f # p) \<and> q \<noteq> []"
  by (auto simp: deleteCase5_def result_iffs split: frame.splits Node.splits if_splits
        dest!: deleteCase6_sequence inorder_rotate)

lemma deleteCase4_sequence:
  "deleteCase4 f p = Inr q \<Longrightarrow> before q = before (f # p) \<and> after q = after (f # p) \<and> q \<noteq> []"
  by (cases f) (auto simp: deleteCase4_def split: Node.splits if_splits dest!: deleteCase5_sequence)

lemma deleteCase2_sequence:
  "before (deleteCase2_rotate f p) = before (f # p) \<and> after (deleteCase2_rotate f p) = after (f # p)"
  by (cases "(f, p)" rule: deleteCase2_rotate.cases) auto

lemma deleteCase1_sequence:
  "deleteCase1 p = Inr q \<Longrightarrow> before q = before p \<and> after q = after p \<and> (q = [] \<longleftrightarrow> p = [])"
proof (induction p arbitrary: q rule: deleteCase1.induct)
  case (2 f p)
  obtain f' p' where rot: "deleteCase2_rotate f p = f' # p'"
    by (cases "(f, p)" rule: deleteCase2_rotate.cases) auto
  have seq: "before (f' # p') = before (f # p)" "after (f' # p') = after (f # p)"
    using deleteCase2_sequence [of f p] rot by auto
  show ?case
  proof (cases "deleteCase3_recurses f'")
    case True
    with 2 rot obtain q' where q: "deleteCase1 p' = Inr q'"
      "q = set_sibling (paint red (sibling f')) f' # q'"
      by (auto simp: result_iffs split: if_splits)
    with "2.IH" [OF rot _ True q(1)] "2.prems" rot seq show ?thesis
      by (cases f') (auto simp: result_iffs split: if_splits)
  next
    case False
    with "2.prems" rot have "deleteCase4 f' p' = Inr q" by (simp split: if_splits)
    with seq show ?thesis by (auto dest: deleteCase4_sequence)
  qed
qed auto

lemma deleteCase456_ok:
  assumes "path_ok (f # p) (Suc h)" "nodeColor (sibling f) = black" "\<not> deleteCase3_recurses f"
  shows "\<exists>q. deleteCase4 f p = Inr q \<and> path_ok q h \<and> above q = black"
proof -
  obtain sk sv sl sr where s: "sibling f = Node sk sv black sl sr"
    using assms(1,2) by (cases "sibling f") auto
  show ?thesis
  proof (cases f)
    case (LeftOf k v c r)
    with s assms show ?thesis
      by (cases sl; cases sr)
         (auto simp: deleteCase4_def deleteCase5_def deleteCase6_def deleteCase3_recurses_def
            split: if_splits)
  next
    case (RightOf k v c l)
    with s assms show ?thesis
      by (cases sl; cases sr)
         (auto simp: deleteCase4_def deleteCase5_def deleteCase6_def deleteCase3_recurses_def
            split: if_splits)
  qed
qed

lemma deleteCase1_ok:
  "path_ok p (Suc h) \<Longrightarrow> \<exists>q. deleteCase1 p = Inr q \<and> path_ok q h \<and> above q = black"
proof (induction p arbitrary: h rule: deleteCase1.induct)
  case (2 f p)
  have ne: "sibling f \<noteq> NilNode" using "2.prems" by auto
  obtain f' p' where rot: "deleteCase2_rotate f p = f' # p'" "path_ok (f' # p') (Suc h)"
    "nodeColor (sibling f') = black"
    using "2.prems" ne
    by (cases "(f, p)" rule: deleteCase2_rotate.cases) auto
  have ne': "sibling f' \<noteq> NilNode" using rot(2) by auto
  show ?case
  proof (cases "deleteCase3_recurses f'")
    case True
    have "path_ok p' (Suc (Suc h))" using rot(2) True by (auto simp: deleteCase3_recurses_def)
    with "2.IH" [OF rot(1) _ True] ne' obtain q where
      q: "deleteCase1 p' = Inr q" "path_ok q (Suc h)" "above q = black" by auto
    moreover have "path_ok (set_sibling (paint red (sibling f')) f' # q) h"
      using rot(2) ne' True q(2) by (cases f'; cases "sibling f'") (auto simp: deleteCase3_recurses_def)
    moreover have "frame_color (set_sibling (paint red (sibling f')) f') = black"
      using True by (cases f') (auto simp: deleteCase3_recurses_def)
    ultimately show ?thesis using rot ne' True by simp
  next
    case False
    with deleteCase456_ok [OF rot(2,3) False] rot ne' show ?thesis by simp
  qed
qed auto

text \<open>A location in a valid tree: the subtree is balanced and the path fits it.\<close>

definition location_ok :: "('k, 'v) Node \<Rightarrow> ('k, 'v) path \<Rightarrow> bool" where
  "location_ok n p \<longleftrightarrow>
     balanced n \<and> path_ok p (bheight n) \<and> (nodeColor n = red \<longrightarrow> p \<noteq> [] \<and> above p = black)"

lemma rbt_plug_iff: "rbt (plug n p) \<longleftrightarrow> location_ok n p"
proof
  show "location_ok n p" if "rbt (plug n p)"
    using that
  proof (induction p arbitrary: n)
    case (Cons f p)
    then have "location_ok (up n f) p" by simp
    then show ?case by (cases f) (auto simp: location_ok_def split: if_splits)
  qed (auto simp: rbt_def location_ok_def)
qed (auto simp: location_ok_def intro!: rbt_plug)

lemma maximumNode_result:
  "l \<noteq> NilNode \<Longrightarrow> maximumNode l p = (pred, q) \<Longrightarrow>
     plug pred q = plug l p \<and> pred \<noteq> NilNode \<and> Right pred = NilNode \<and>
     (\<exists>q'. q = q' @ p \<and> after q' = [])"
proof (induction l p rule: maximumNode.induct)
  case (1 k v c l r p)
  show ?case
  proof (cases "r = NilNode")
    case False
    with 1 obtain q' where "plug pred q = plug r (RightOf k v c l # p)" "pred \<noteq> NilNode"
      "Right pred = NilNode" "q = q' @ RightOf k v c l # p" "after q' = []" by auto
    moreover have "after (q' @ [RightOf k v c l]) = []" if "after q' = []" for q' :: "('a, 'b) path"
      using that by (induction q' rule: after.induct) auto
    ultimately show ?thesis by (auto intro!: exI [of _ "q' @ [RightOf k v c l]"])
  qed (use 1 in auto)
qed simp

lemma sequence_append:
  "before (q @ p) = before p @ before q" "after (q @ p) = after q @ after p"
  by (induction q rule: after.induct) auto

lemma plug_append: "plug t (q @ p) = plug (plug t q) p"
  by (induction q arbitrary: t) auto

lemma above_relabel: "above (q @ LeftOf k v c r # p) = above (q @ LeftOf k' v' c r # p)"
  by (cases q) auto

lemma path_ok_relabel:
  "path_ok (q @ LeftOf k v c r # p) h \<longleftrightarrow> path_ok (q @ LeftOf k' v' c r # p) h"
proof (induction q arbitrary: h)
  case (Cons f q)
  then show ?case by (simp add: above_relabel [of q k v c r p k' v'])
qed auto

lemma swapNode_ok:
  assumes "location_ok (Node k v c l r) p" "l \<noteq> NilNode"
  obtains pc pl q where "swapNode (Node k v c l r, p) = (Node k v pc pl NilNode, q)"
    "location_ok (Node k v pc pl NilNode) q" "q \<noteq> []"
    "before q @ inorder pl @ after q = before p @ inorder l @ inorder r @ after p"
proof -
  obtain pred q where max: "maximumNode l [] = (pred, q)" by (cases "maximumNode l []") auto
  then obtain pk pv pc pl where pred: "pred = Node pk pv pc pl NilNode"
    and plug: "plug pred q = l" and "after q = []"
    using maximumNode_result [OF assms(2) max] by (cases pred) auto
  let ?q = "q @ LeftOf k v c r # p" and ?q' = "q @ LeftOf pk pv c r # p"
  have "rbt (plug (Node k v c l r) p)" using assms(1) by (simp add: rbt_plug_iff)
  then have "location_ok pred ?q"
    unfolding rbt_plug_iff [symmetric] plug_append using plug by simp
  then have "location_ok (Node k v pc pl NilNode) ?q'"
    unfolding location_ok_def pred
    using path_ok_relabel [of q k v c r p _ pk pv] above_relabel [of q k v c r p pk pv] by simp
  moreover have "before q @ inorder pl @ [(pk, pv)] = inorder l"
    using plug inorder_plug [of pred q] \<open>after q = []\<close> pred by simp
  then have "before ?q' @ inorder pl @ after ?q' = before p @ inorder l @ inorder r @ after p"
    using \<open>after q = []\<close> by (simp add: sequence_append)
  moreover have "swapNode (Node k v c l r, p) = (Node k v pc pl NilNode, ?q')"
    by (simp add: swapNode_def max pred)
  ultimately show ?thesis using that by blast
qed

lemma splice_ok:
  assumes "location_ok (Node k v c l r) p" "l = NilNode \<or> r = NilNode"
  shows "\<exists>t. splice (Node k v c l r, p) = Inr t \<and> rbt t \<and>
           inorder t = before p @ inorder l @ inorder r @ after p"
proof -
  define child where "child = (if r = NilNode then l else r)"
  have child: "balanced child" "inorder child = inorder l @ inorder r"
    using assms by (auto simp: location_ok_def child_def)
  have splice: "splice (Node k v c l r, p) =
      rbind (if c = black then deleteCase1 p else Inr p)
        (\<lambda>p. Inr (plug (if p = [] \<and> child \<noteq> NilNode then paint black child else child) p))"
    by (simp only: splice_def child_def Let_def fst_conv snd_conv Node.sel)
  show ?thesis
  proof (cases "c = black")
    case True
    then have "path_ok p (Suc (bheight child))" using assms by (auto simp: location_ok_def child_def)
    then obtain q where q: "deleteCase1 p = Inr q" "path_ok q (bheight child)" "above q = black"
      using deleteCase1_ok by blast
    have "rbt (plug (if q = [] \<and> child \<noteq> NilNode then paint black child else child) q)"
    proof (cases "q = []")
      case True
      then show ?thesis using child by (cases child) (auto simp: rbt_def)
    next
      case False
      then show ?thesis using child q by (simp add: rbt_plug_iff location_ok_def)
    qed
    with True q(1) deleteCase1_sequence [OF q(1)] child(2) show ?thesis
      unfolding splice by (auto simp: inorder_plug)
  next
    case False
    then have "location_ok child p" "p \<noteq> []"
      using assms by (auto simp: location_ok_def child_def)
    with False child(2) show ?thesis
      unfolding splice by (auto simp: inorder_plug simp flip: rbt_plug_iff)
  qed
qed

lemma remove_root_correct:
  assumes "rbt (plug (Node k v c l r) p)"
  shows "\<exists>t. remove_root (Node k v c l r, p) = Inr t \<and> rbt t \<and>
           inorder t = before p @ inorder l @ inorder r @ after p"
proof -
  have ok: "location_ok (Node k v c l r) p" using assms by (simp add: rbt_plug_iff)
  show ?thesis
  proof (cases "l \<noteq> NilNode \<and> r \<noteq> NilNode")
    case True
    with swapNode_ok [OF ok] obtain pc pl q where
      swap: "swapNode (Node k v c l r, p) = (Node k v pc pl NilNode, q)"
      "location_ok (Node k v pc pl NilNode) q"
      "before q @ inorder pl @ after q = before p @ inorder l @ inorder r @ after p" by metis
    from splice_ok [OF swap(2)] swap(1,3) True show ?thesis
      unfolding remove_root_def by simp
  next
    case False
    with splice_ok [OF ok] show ?thesis
      unfolding remove_root_def by auto
  qed
qed

section \<open>Iteration\<close>

definition location_in :: "('k, 'v) Tree \<Rightarrow> ('k, 'v) location \<Rightarrow> bool" where
  "location_in tree loc \<longleftrightarrow> fst loc \<noteq> NilNode \<and> plug (fst loc) (snd loc) = Root tree"

definition entry :: "('k, 'v) location \<Rightarrow> 'k \<times> 'v" where
  "entry loc = (Key (fst loc), Value (fst loc))"

text \<open>The entries an iterator has still to visit.\<close>

fun remaining :: "('k, 'v) Tree \<Rightarrow> ('k, 'v) Iterator \<Rightarrow> ('k \<times> 'v) list" where
  "remaining tree AtBegin = inorder (Root tree)"
| "remaining tree (Between (n, p)) = inorder (Right n) @ after p"
| "remaining tree AtEnd = []"

lemma leftmost_result:
  "case leftmost t p of
     None \<Rightarrow> t = NilNode
   | Some (n, q) \<Rightarrow> n \<noteq> NilNode \<and> plug n q = plug t p \<and>
       inorder t @ after p = entry (n, q) # inorder (Right n) @ after q"
proof (induction t arbitrary: p)
  case (Node k v c l r)
  from Node.IH(1) [of "LeftOf k v c r # p"] show ?case
    by (auto simp: entry_def split: option.splits)
qed simp

lemma climb_next_result:
  "case climb_next t p of
     None \<Rightarrow> after p = []
   | Some (n, q) \<Rightarrow> n \<noteq> NilNode \<and> plug n q = plug t p \<and> after p = entry (n, q) # inorder (Right n) @ after q"
  by (induction t p rule: climb_next.induct) (auto simp: entry_def split: option.splits)

lemma Next_result:
  assumes "case it of Between loc \<Rightarrow> location_in tree loc | _ \<Rightarrow> True"
  shows "case Next tree it of
     Between loc \<Rightarrow> location_in tree loc \<and> remaining tree it = entry loc # remaining tree (Between loc)
   | AtEnd \<Rightarrow> remaining tree it = []
   | AtBegin \<Rightarrow> False"
proof (cases it)
  case AtBegin
  with leftmost_result [where t = "Root tree" and p = "[]"] show ?thesis
    by (auto simp: Next_def location_in_def split: option.splits)
next
  case (Between loc)
  then obtain k v c l r p where loc: "loc = (Node k v c l r, p)" "plug (Node k v c l r) p = Root tree"
    using assms by (cases loc; cases "fst loc") (auto simp: location_in_def)
  with Between leftmost_result [where t = r and p = "RightOf k v c l # p"] climb_next_result [where t = "Node k v c l r" and p = p]
  show ?thesis
    by (auto simp: Next_def location_in_def split: option.splits)
next
  case AtEnd
  then show ?thesis by (simp add: Next_def)
qed

lemma fill_loop_result:
  "(case it of Between loc \<Rightarrow> location_in tree loc | _ \<Rightarrow> True) \<Longrightarrow>
   length slots = i + length (remaining tree it) \<Longrightarrow> (\<And>loc. get loc = g (entry loc)) \<Longrightarrow>
   fill_loop get tree it i slots = Some (Inr (take i slots @ map g (remaining tree it)))"
proof (induction "length (remaining tree it)" arbitrary: it i slots)
  case 0
  then have "Next tree it = AtEnd"
    using Next_result [OF "0.prems"(1)] by (cases "Next tree it") auto
  with 0 show ?case by (subst fill_loop.simps) simp
next
  case (Suc n)
  then obtain loc where loc: "Next tree it = Between loc" "location_in tree loc"
    "remaining tree it = entry loc # remaining tree (Between loc)"
    using Next_result [OF Suc.prems(1)] by (cases "Next tree it") auto
  with Suc.hyps(1) [of "Between loc" "slots[i := get loc]" "i + 1"] Suc show ?case
    by (subst fill_loop.simps) (simp add: take_Suc_conv_app_nth)
qed

lemma Keys_Values_inorder:
  assumes "size_field tree = int (length (inorder (Root tree)))"
  shows "Keys zero tree = Some (Inr (map fst (inorder (Root tree))))"
    and "Values zero' tree = Some (Inr (map snd (inorder (Root tree))))"
  using assms by (simp_all add: Keys_def Values_def fill_loop_result [where g = fst]
      fill_loop_result [where g = snd] entry_def)

section \<open>Comparators\<close>

definition ordered :: "'k comparator \<Rightarrow> bool \<Rightarrow> ('k \<times> 'v) list \<Rightarrow> bool" where
  "ordered cmp multi =
     sorted_wrt (\<lambda>a b. if multi then cmp (fst a) (fst b) \<le> 0 else cmp (fst a) (fst b) < 0)"

definition insert_entry :: "'k comparator \<Rightarrow> bool \<Rightarrow> 'k \<Rightarrow> 'v \<Rightarrow> ('k \<times> 'v) list \<Rightarrow> ('k \<times> 'v) list" where
  "insert_entry cmp multi k v xs =
     filter (\<lambda>e. if multi then cmp (fst e) k \<le> 0 else cmp (fst e) k < 0) xs @ (k, v) #
     filter (\<lambda>e. cmp (fst e) k > 0) xs"

definition tree_ok :: "'k comparator \<Rightarrow> ('k, 'v) Tree \<Rightarrow> bool" where
  "tree_ok cmp tree \<longleftrightarrow>
     rbt (Root tree) \<and> ordered cmp (isMulti tree) (inorder (Root tree)) \<and>
     size_field tree = int (length (inorder (Root tree)))"

lemma find_append: "find P (xs @ ys) = (case find P xs of None \<Rightarrow> find P ys | Some x \<Rightarrow> Some x)"
  by (induction xs) auto

text \<open>What the tree expects of the function it is built with: a total preorder.\<close>

locale ordering =
  fixes cmp :: "'k comparator"
  assumes flip: "cmp x y < 0 \<longleftrightarrow> cmp y x > 0"
    and trans: "cmp x y \<le> 0 \<Longrightarrow> cmp y z \<le> 0 \<Longrightarrow> cmp x z \<le> 0"
begin

lemma cmp_refl: "cmp x x = 0"
  using flip [of x x] by linarith

lemma flip_le: "cmp x y \<le> 0 \<longleftrightarrow> cmp y x \<ge> 0"
  using flip [of y x] by linarith

lemma flip_eq: "cmp x y = 0 \<longleftrightarrow> cmp y x = 0"
  using flip [of y x] flip [of x y] by linarith

lemma less_le_trans: "cmp x y < 0 \<Longrightarrow> cmp y z \<le> 0 \<Longrightarrow> cmp x z < 0"
  using trans [of y z x] flip [of x y] flip [of x z] flip_le [of x z] by linarith

lemma le_less_trans: "cmp x y \<le> 0 \<Longrightarrow> cmp y z < 0 \<Longrightarrow> cmp x z < 0"
  using trans [of z x y] flip [of y z] flip [of x z] flip_le [of x z] by linarith

lemma ordered_le: "ordered cmp multi (xs @ (k, v) # ys) \<Longrightarrow>
    (\<forall>e\<in>set xs. cmp (fst e) k \<le> 0) \<and> (\<forall>e\<in>set ys. cmp k (fst e) \<le> 0)"
  by (auto simp: ordered_def sorted_wrt_append split: if_splits)

lemma ordered_less: "ordered cmp False (xs @ (k, v) # ys) \<Longrightarrow>
    (\<forall>e\<in>set xs. cmp (fst e) k < 0) \<and> (\<forall>e\<in>set ys. cmp k (fst e) < 0)"
  by (auto simp: ordered_def sorted_wrt_append)

lemma insert_entry_left:
  assumes "ordered cmp multi (xs @ (k', v') # ys)" "cmp k k' < 0"
  shows "insert_entry cmp multi k v (xs @ (k', v') # ys) = insert_entry cmp multi k v xs @ (k', v') # ys"
proof -
  have ys: "\<forall>e\<in>set ys. cmp (fst e) k > 0" and k': "cmp k' k > 0"
    using ordered_le [OF assms(1)] assms(2) less_le_trans [of k k'] flip by auto
  then have "filter (\<lambda>e. cmp (fst e) k > 0) ys = ys" "filter (\<lambda>e. cmp (fst e) k \<le> 0) ys = []"
    "filter (\<lambda>e. cmp (fst e) k < 0) ys = []"
    by (force simp: filter_id_conv filter_empty_conv)+
  with k' show ?thesis by (auto simp: insert_entry_def)
qed

lemma insert_entry_right:
  assumes "ordered cmp multi (xs @ (k', v') # ys)" "if multi then cmp k k' \<ge> 0 else cmp k k' > 0"
  shows "insert_entry cmp multi k v (xs @ (k', v') # ys) = xs @ (k', v') # insert_entry cmp multi k v ys"
proof (cases multi)
  case True
  then have xs: "\<forall>e\<in>set xs. cmp (fst e) k \<le> 0" and k': "cmp k' k \<le> 0"
    using ordered_le [OF assms(1)] assms(2) trans [of _ k' k] flip_le [of k' k] by auto
  then have "filter (\<lambda>e. cmp (fst e) k > 0) xs = []" "filter (\<lambda>e. cmp (fst e) k \<le> 0) xs = xs"
    by (force simp: filter_id_conv filter_empty_conv)+
  with k' True show ?thesis by (auto simp: insert_entry_def)
next
  case False
  then have xs: "\<forall>e\<in>set xs. cmp (fst e) k < 0" and k': "cmp k' k < 0"
    using ordered_le [OF assms(1)] assms(2) le_less_trans [of _ k' k] flip [of k' k] by auto
  then have "filter (\<lambda>e. cmp (fst e) k > 0) xs = []" "filter (\<lambda>e. cmp (fst e) k < 0) xs = xs"
    by (force simp: filter_id_conv filter_empty_conv)+
  with k' False show ?thesis by (auto simp: insert_entry_def)
qed

lemma insert_entry_equal:
  assumes "ordered cmp False (xs @ (k', v') # ys)" "cmp k k' = 0"
  shows "insert_entry cmp False k v (xs @ (k', v') # ys) = xs @ (k, v) # ys"
proof -
  have k': "cmp k' k = 0" using assms(2) flip_eq by blast
  have "\<forall>e\<in>set xs. cmp (fst e) k < 0" "\<forall>e\<in>set ys. cmp (fst e) k > 0"
    using ordered_less [OF assms(1)] k' assms(2) less_le_trans [of _ k' k] le_less_trans [of k k'] flip
    by auto
  then have "filter (\<lambda>e. cmp (fst e) k > 0) xs = []" "filter (\<lambda>e. cmp (fst e) k < 0) xs = xs"
    "filter (\<lambda>e. cmp (fst e) k > 0) ys = ys" "filter (\<lambda>e. cmp (fst e) k < 0) ys = []"
    by (force simp: filter_id_conv filter_empty_conv)+
  with k' show ?thesis by (simp add: insert_entry_def)
qed

lemma ordered_insert_entry:
  assumes "ordered cmp multi xs"
  shows "ordered cmp multi (insert_entry cmp multi k v xs)"
proof -
  let ?P = "\<lambda>a b. if multi then cmp (fst a) (fst b) \<le> 0 else cmp (fst a) (fst b) < 0"
  let ?A = "filter (\<lambda>e. if multi then cmp (fst e) k \<le> 0 else cmp (fst e) k < 0) xs"
  let ?B = "filter (\<lambda>e. cmp (fst e) k > 0) xs"
  have "?P (k, v) b" if "b \<in> set ?B" for b
    using that flip [of k "fst b"] by auto
  moreover have "?P a (k, v)" if "a \<in> set ?A" for a
    using that by auto
  moreover have "?P a b" if "a \<in> set ?A" "b \<in> set ?B" for a b
  proof -
    have "cmp k (fst b) < 0" "cmp (fst a) k \<le> 0"
      using that flip [of k "fst b"] by (auto split: if_splits)
    then show ?thesis using le_less_trans [of "fst a" k "fst b"] by auto
  qed
  moreover have "sorted_wrt ?P ?A" "sorted_wrt ?P ?B"
    using assms unfolding ordered_def by (rule sorted_wrt_filter)+
  ultimately show ?thesis
    unfolding ordered_def insert_entry_def sorted_wrt_append sorted_wrt.simps(2) list.set
    by blast
qed

lemma ordered_split:
  assumes "ordered cmp multi (xs @ ys)"
  shows "ordered cmp multi xs" "ordered cmp multi ys"
  using assms by (auto simp: ordered_def sorted_wrt_append)

lemma put_descend_correct:
  "put_descend cmp multi k v t p = ((n, q), new) \<Longrightarrow> ordered cmp multi (inorder t) \<Longrightarrow>
    before q @ inorder n @ after q = before p @ insert_entry cmp multi k v (inorder t) @ after p \<and>
    (if new then n = Node k v red NilNode NilNode \<and> plug NilNode q = plug t p \<and>
        (multi \<or> (\<forall>e \<in> set (inorder t). cmp k (fst e) \<noteq> 0))
     else \<not> multi \<and> (\<exists>e \<in> set (inorder t). cmp k (fst e) = 0) \<and>
        (\<exists>k' v' c l r. n = Node k v c l r \<and> plug (Node k' v' c l r) q = plug t p))"
proof (induction t arbitrary: p)
  case NilNode
  then show ?case by (auto simp: insert_entry_def)
next
  case (Node k' v' c l r)
  have ord: "ordered cmp multi (inorder l @ (k', v') # inorder r)" using Node.prems(2) by simp
  have ord_l: "ordered cmp multi (inorder l)" using ordered_split(1) [OF ord] .
  have ord_r: "ordered cmp multi (inorder r)"
    using ordered_split(2) [of multi "inorder l @ [(k', v')]" "inorder r"] ord by simp
  consider (less) "cmp k k' < 0" | (equal) "cmp k k' = 0" "\<not> multi"
    | (greater) "if multi then cmp k k' \<ge> 0 else cmp k k' > 0"
    by (cases multi; cases "cmp k k'" "0 :: int" rule: linorder_cases) auto
  then show ?case
  proof cases
    case less
    have "cmp k k' \<noteq> 0" "\<forall>e\<in>set (inorder r). cmp k (fst e) \<noteq> 0"
      using ordered_le [OF ord] less less_le_trans [of k k'] by force+
    moreover have d: "put_descend cmp multi k v l (LeftOf k' v' c r # p) = ((n, q), new)"
      using Node.prems(1) less by (auto simp: Let_def split: if_splits)
    ultimately show ?thesis
      using Node.IH(1) [OF d ord_l] insert_entry_left [OF ord less, of v] by (cases new) auto
  next
    case equal
    then have "((n, q), new) = ((Node k v c l r, p), False)" using Node.prems(1) by auto
    with equal show ?thesis
      using insert_entry_equal [of "inorder l" k' v' "inorder r" k v] ord by auto
  next
    case greater
    have "multi \<or> cmp k k' \<noteq> 0 \<and> (\<forall>e\<in>set (inorder l). cmp k (fst e) \<noteq> 0)"
      using ordered_le [OF ord] greater le_less_trans [of _ k' k] flip [of k' k] flip
      by (cases multi) force+
    moreover have d: "put_descend cmp multi k v r (RightOf k' v' c l # p) = ((n, q), new)"
      using Node.prems(1) greater by (auto simp: Let_def split: if_splits)
    ultimately show ?thesis
      using Node.IH(2) [OF d ord_r] insert_entry_right [OF ord greater, of v] by (cases new) auto
  qed
qed

lemma put_ok:
  assumes "tree_ok cmp tree"
  shows "\<exists>tree' new. put cmp tree k v = Inr (tree', new) \<and> tree_ok cmp tree' \<and>
     isMulti tree' = isMulti tree \<and>
     inorder (Root tree') = insert_entry cmp (isMulti tree) k v (inorder (Root tree)) \<and>
     (new \<longleftrightarrow> isMulti tree \<or> (\<forall>e \<in> set (inorder (Root tree)). cmp k (fst e) \<noteq> 0))"
proof -
  obtain n q new where d: "put_descend cmp (isMulti tree) k v (Root tree) [] = ((n, q), new)"
    by (metis prod.collapse)
  have tree: "rbt (Root tree)" "ordered cmp (isMulti tree) (inorder (Root tree))"
    "size_field tree = int (length (inorder (Root tree)))"
    using assms by (auto simp: tree_ok_def)
  note result = put_descend_correct [OF d tree(2)]
  note ord = ordered_insert_entry [OF tree(2), of k v]
  show ?thesis
  proof (cases new)
    case True
    then have n: "n = Node k v red NilNode NilNode" and plug: "plug NilNode q = Root tree"
      using result by auto
    have "path_ok q (bheight n)" using tree(1) plug rbt_plug_iff [of NilNode q]
      by (auto simp: n location_ok_def)
    then obtain t where t: "insertCase1 n q = Inr t" "rbt t"
      using insertCase1_rbt [of n q] n by auto
    have "inorder t = insert_entry cmp (isMulti tree) k v (inorder (Root tree))"
      using inorder_insertCase(1) [OF t(1)] result by (simp add: inorder_plug)
    moreover have "length (inorder t) = length (inorder (Root tree)) + 1"
      using inorder_insertCase(1) [OF t(1)] plug [symmetric] by (simp add: inorder_plug n)
    ultimately show ?thesis
      using True t d ord tree(3) result by (auto simp: put_def tree_ok_def)
  next
    case False
    then obtain k' v' c l r where n: "n = Node k v c l r"
      and plug: "plug (Node k' v' c l r) q = Root tree"
      using result by auto
    have "rbt (plug n q)"
      using tree(1) unfolding plug [symmetric] rbt_plug_iff n by (simp add: location_ok_def)
    moreover have "inorder (plug n q) = insert_entry cmp (isMulti tree) k v (inorder (Root tree))"
      using result by (simp add: inorder_plug)
    moreover have "length (inorder (plug n q)) = length (inorder (Root tree))"
      using plug [symmetric] by (simp add: inorder_plug n)
    ultimately show ?thesis
      using False d ord tree(3) result by (auto simp: put_def tree_ok_def)
  qed
qed

lemma lookup_loop_correct:
  "ordered cmp False (inorder t) \<Longrightarrow>
   (case lookup_loop cmp k t p of
      None \<Rightarrow> \<forall>e \<in> set (inorder t). cmp k (fst e) \<noteq> 0
    | Some (n, q) \<Rightarrow> n \<noteq> NilNode \<and> cmp k (Key n) = 0 \<and> plug n q = plug t p)"
proof (induction t arbitrary: p)
  case (Node k' v' c l r)
  have ord: "ordered cmp False (inorder l @ (k', v') # inorder r)" using Node.prems by simp
  have ord_lr: "ordered cmp False (inorder l)" "ordered cmp False (inorder r)"
    using ordered_split [OF ord] ordered_split(2) [of False "inorder l @ [(k', v')]" "inorder r"] ord
    by auto
  consider "cmp k k' < 0" | "cmp k k' = 0" | "cmp k k' > 0" by linarith
  then show ?case
  proof cases
    case 1
    then have "cmp k k' \<noteq> 0" "\<forall>e\<in>set (inorder r). cmp k (fst e) \<noteq> 0"
      using ordered_le [OF ord] less_le_trans [of k k'] by force+
    with 1 Node.IH(1) [OF ord_lr(1), of "LeftOf k' v' c r # p"] show ?thesis
      by (auto simp: Let_def split: option.splits)
  next
    case 2
    then show ?thesis by simp
  next
    case 3
    then have "cmp k k' \<noteq> 0" "\<forall>e\<in>set (inorder l). cmp k (fst e) \<noteq> 0"
      using ordered_le [OF ord] le_less_trans [of _ k' k] flip by force+
    with 3 Node.IH(2) [OF ord_lr(2), of "RightOf k' v' c l # p"] show ?thesis
      by (auto simp: Let_def split: option.splits)
  qed
qed simp

lemma ordered_unequal:
  assumes "ordered cmp False (xs @ (k', v') # ys)" "cmp k k' = 0"
  shows "(\<forall>e\<in>set xs. cmp k (fst e) \<noteq> 0) \<and> (\<forall>e\<in>set ys. cmp k (fst e) \<noteq> 0)"
proof -
  have "cmp k (fst e) > 0" if "e \<in> set xs" for e
    using ordered_less [OF assms(1)] that less_le_trans [of "fst e" k' k] assms(2) flip_eq [of k k']
      flip [of "fst e" k] by simp
  moreover have "cmp k (fst e) < 0" if "e \<in> set ys" for e
    using ordered_less [OF assms(1)] that le_less_trans [of k k' "fst e"] assms(2) by simp
  ultimately show ?thesis by force
qed

lemma Remove_unique_ok:
  assumes "tree_ok cmp tree" "\<not> isMulti tree"
  shows "\<exists>tree'. Remove_unique cmp tree k = Inr tree' \<and> tree_ok cmp tree' \<and> \<not> isMulti tree' \<and>
     inorder (Root tree') = filter (\<lambda>e. cmp k (fst e) \<noteq> 0) (inorder (Root tree))"
proof (cases "lookup_loop cmp k (Root tree) []")
  case None
  have "\<forall>e \<in> set (inorder (Root tree)). cmp k (fst e) \<noteq> 0"
    using lookup_loop_correct [of "Root tree" k "[]"] None assms by (auto simp: tree_ok_def)
  then have "filter (\<lambda>e. cmp k (fst e) \<noteq> 0) (inorder (Root tree)) = inorder (Root tree)"
    by (simp add: filter_id_conv)
  with None assms show ?thesis by (simp add: Remove_unique_def lookup_def remove_def)
next
  case (Some loc)
  then obtain k' v' c l r q where loc: "loc = (Node k' v' c l r, q)" "cmp k k' = 0"
    "plug (Node k' v' c l r) q = Root tree"
    using lookup_loop_correct [of "Root tree" k "[]"] assms
    by (cases loc; cases "fst loc") (auto simp: tree_ok_def)
  obtain t where t: "remove_root loc = Inr t" "rbt t"
    "inorder t = before q @ inorder l @ inorder r @ after q"
    using remove_root_correct [of k' v' c l r q] assms(1) loc by (auto simp: tree_ok_def)
  have seq: "inorder (Root tree) = (before q @ inorder l) @ (k', v') # (inorder r @ after q)"
    unfolding loc(3) [symmetric] by (simp add: inorder_plug)
  have ord: "ordered cmp False ((before q @ inorder l) @ (k', v') # (inorder r @ after q))"
    using assms seq by (simp add: tree_ok_def)
  from ordered_unequal [OF ord loc(2)] have "filter (\<lambda>e. cmp k (fst e) \<noteq> 0) (inorder (Root tree)) = inorder t"
    using loc(2) unfolding seq t(3) by (simp add: filter_id_conv)
  moreover have "ordered cmp False (inorder t)"
    using ord unfolding t(3) by (auto simp: ordered_def sorted_wrt_append)
  moreover have "int (length (inorder t)) = size_field tree - 1"
    using assms(1) seq t(3) by (simp add: tree_ok_def)
  ultimately show ?thesis
    using Some t assms(2) by (simp add: Remove_unique_def lookup_def remove_def tree_ok_def)
qed

lemma LowerBound_loop_find:
  "ordered cmp multi (inorder t) \<Longrightarrow>
   map_option entry (LowerBound_loop cmp k res t p) =
     (case find (\<lambda>e. cmp k (fst e) \<le> 0) (inorder t) of
        None \<Rightarrow> map_option entry res | Some e \<Rightarrow> Some e)"
proof (induction t arbitrary: p res)
  case (Node k' v' c l r)
  have ord: "ordered cmp multi (inorder l @ (k', v') # inorder r)" using Node.prems by simp
  have ord_lr: "ordered cmp multi (inorder l)" "ordered cmp multi (inorder r)"
    using ordered_split [OF ord] ordered_split(2) [of multi "inorder l @ [(k', v')]" "inorder r"] ord
    by auto
  show ?case
  proof (cases "cmp k k' > 0")
    case True
    then have "\<forall>e\<in>set (inorder l). \<not> cmp k (fst e) \<le> 0"
      using ordered_le [OF ord] le_less_trans [of _ k' k] flip by force
    then have "find (\<lambda>e. cmp k (fst e) \<le> 0) (inorder l) = None" by (fastforce simp: find_None_iff)
    with True Node.IH(2) [OF ord_lr(2)] show ?thesis by (simp add: find_append)
  next
    case False
    with Node.IH(1) [OF ord_lr(1)] show ?thesis
      by (simp add: find_append entry_def split: option.splits)
  qed
qed simp

lemma UpperBound_loop_find:
  "ordered cmp multi (inorder t) \<Longrightarrow>
   map_option entry (UpperBound_loop cmp k res t p) =
     (case find (\<lambda>e. cmp k (fst e) < 0) (inorder t) of
        None \<Rightarrow> map_option entry res | Some e \<Rightarrow> Some e)"
proof (induction t arbitrary: p res)
  case (Node k' v' c l r)
  have ord: "ordered cmp multi (inorder l @ (k', v') # inorder r)" using Node.prems by simp
  have ord_lr: "ordered cmp multi (inorder l)" "ordered cmp multi (inorder r)"
    using ordered_split [OF ord] ordered_split(2) [of multi "inorder l @ [(k', v')]" "inorder r"] ord
    by auto
  show ?case
  proof (cases "cmp k k' \<ge> 0")
    case True
    then have "\<forall>e\<in>set (inorder l). \<not> cmp k (fst e) < 0"
      using ordered_le [OF ord] trans [of _ k' k] flip_le [of _ k] flip_le [of k' k] by force
    then have "find (\<lambda>e. cmp k (fst e) < 0) (inorder l) = None" by (fastforce simp: find_None_iff)
    with True Node.IH(2) [OF ord_lr(2)] show ?thesis by (simp add: find_append)
  next
    case False
    with Node.IH(1) [OF ord_lr(1)] show ?thesis
      by (simp add: find_append entry_def split: option.splits)
  qed
qed simp

end

section \<open>Trees as finite maps\<close>

lemma copyNode_id [simp]: "copyNode t = t"
  by (induction t) simp_all

lemma CopyFrom_id [simp]: "CopyFrom tree = tree"
  by (simp add: CopyFrom_def)

definition tree_map :: "('k, 'v) Tree \<Rightarrow> 'k \<rightharpoonup> 'v" where
  "tree_map tree = map_of (inorder (Root tree))"

definition unique_tree :: "'k comparator \<Rightarrow> ('k, 'v) Tree \<Rightarrow> bool" where
  "unique_tree cmp tree \<longleftrightarrow> tree_ok cmp tree \<and> \<not> isMulti tree"

lemma map_of_filter_key:
  "map_of (filter (\<lambda>e. P (fst e)) xs) k = (if P k then map_of xs k else None)"
  by (induction xs) auto

lemma tree_ok_NewWith: "tree_ok cmp (NewWith multi)" "unique_tree cmp (NewWith False)"
  by (simp_all add: tree_ok_def unique_tree_def NewWith_def rbt_def ordered_def)

text \<open>A comparator that tells different keys apart: the tree is then a finite map.\<close>

locale key_ordering = ordering +
  assumes eq: "cmp x y = 0 \<Longrightarrow> x = y"
begin

lemma cmp_eq_0: "cmp x y = 0 \<longleftrightarrow> x = y"
  using eq cmp_refl by auto

lemma map_of_insert_entry: "map_of (insert_entry cmp False k v xs) = (map_of xs)(k \<mapsto> v)"
proof
  fix x
  consider "cmp x k < 0" | "x = k" | "cmp x k > 0" using eq by force
  then show "map_of (insert_entry cmp False k v xs) x = ((map_of xs)(k \<mapsto> v)) x"
    by cases (auto simp: insert_entry_def map_add_def cmp_refl
        map_of_filter_key [where P = "\<lambda>a. cmp a k < 0"] map_of_filter_key [where P = "\<lambda>a. cmp a k > 0"]
        split: option.split)
qed

lemma Put_map:
  assumes "unique_tree cmp tree"
  obtains tree' where "Put cmp tree k v = Inr tree'" "unique_tree cmp tree'"
    "tree_map tree' = (tree_map tree)(k \<mapsto> v)"
  using put_ok [of tree k v] assms
  by (auto simp: Put_def unique_tree_def tree_map_def map_of_insert_entry)

lemma Remove_map:
  assumes "unique_tree cmp tree"
  obtains tree' where "Remove_unique cmp tree k = Inr tree'" "unique_tree cmp tree'"
    "tree_map tree' = (tree_map tree)(k := None)"
proof -
  obtain tree' where t: "Remove_unique cmp tree k = Inr tree'" "unique_tree cmp tree'"
    "inorder (Root tree') = filter (\<lambda>e. cmp k (fst e) \<noteq> 0) (inorder (Root tree))"
    using Remove_unique_ok [of tree k] assms by (auto simp: unique_tree_def)
  then have "tree_map tree' = (tree_map tree)(k := None)"
    by (auto simp: tree_map_def fun_eq_iff cmp_eq_0 map_of_filter_key [where P = "\<lambda>a. k \<noteq> a"])
  with t that show ?thesis by blast
qed

lemma Get_map:
  assumes "unique_tree cmp tree"
  shows "map_option (\<lambda>loc. Value (fst loc)) (Get cmp tree k) = tree_map tree k"
proof -
  have ord: "ordered cmp False (inorder (Root tree))" and multi: "\<not> isMulti tree"
    using assms by (auto simp: unique_tree_def tree_ok_def)
  show ?thesis
  proof (cases "lookup_loop cmp k (Root tree) []")
    case None
    with lookup_loop_correct [OF ord, of k "[]"] have "tree_map tree k = None"
      by (auto simp: tree_map_def cmp_eq_0 map_of_eq_None_iff)
    with None multi show ?thesis by (simp add: Get_def lookup_def)
  next
    case (Some loc)
    then obtain v c l r q where loc: "loc = (Node k v c l r, q)" "plug (Node k v c l r) q = Root tree"
      using lookup_loop_correct [OF ord, of k "[]"] by (cases loc; cases "fst loc") (auto simp: cmp_eq_0)
    then have seq: "inorder (Root tree) = (before q @ inorder l) @ (k, v) # (inorder r @ after q)"
      by (metis append.assoc append_Cons inorder.simps(2) inorder_plug)
    have "\<forall>e\<in>set (before q @ inorder l). fst e \<noteq> k"
      using ordered_unequal [of "before q @ inorder l" k v "inorder r @ after q" k] ord seq
      by (auto simp: cmp_refl cmp_eq_0)
    then have "map_of (before q @ inorder l) k = None" by (simp add: map_of_eq_None_iff) auto
    then have "tree_map tree k = Some v" by (simp add: tree_map_def seq map_add_def split: option.splits)
    with Some loc multi show ?thesis by (simp add: Get_def lookup_def)
  qed
qed

lemma ordered_distinct: "ordered cmp False xs \<Longrightarrow> distinct (map fst xs)"
  by (induction xs) (auto simp: ordered_def cmp_refl)

lemma keys_distinct: "unique_tree cmp tree \<Longrightarrow> distinct (map fst (inorder (Root tree)))"
  by (auto simp: unique_tree_def tree_ok_def ordered_distinct)

end

section \<open>Height\<close>

fun height :: "('k, 'v) Node \<Rightarrow> nat" where
  "height NilNode = 0"
| "height (Node k v c l r) = Suc (max (height l) (height r))"

lemma bheight_size: "balanced t \<Longrightarrow> 2 ^ bheight t \<le> length (inorder t) + 1"
proof (induction t)
  case (Node k v c l r)
  then have "2 ^ bheight l \<le> length (inorder l) + 1" "2 ^ bheight l \<le> length (inorder r) + 1"
    by auto
  then show ?case by auto
qed simp

lemma height_bheight:
  "balanced t \<Longrightarrow> height t \<le> 2 * bheight t + (if nodeColor t = red then 1 else 0)"
  by (induction t) (auto split: if_splits)

end
