(* ===== verification/Eos_Name.thy ===== *)
theory Eos_Name
  imports Eos_Prelude
begin

unbundle bit_operations_syntax

text \<open>
  Account names, \<open>src/common/name.go\<close>: a name is a 64-bit word holding twelve 5-bit symbols
  and a 4-bit thirteenth, written as a string over a 32-letter alphabet with trailing dots
  removed. \<open>N\<close> parses, \<open>S\<close> prints, \<open>NameSuffix\<close> extracts what follows the last dot by masks
  and shifts. Go strings are lists of bytes. Shown: parsing inverts printing on every
  64-bit word, printing inverts parsing on every normal string, and the mask arithmetic
  of \<open>NameSuffix\<close> is the parse of the printed suffix.
\<close>

section \<open>Model\<close>

type_synonym gostring = "u8 list"

definition bytes_of :: "string \<Rightarrow> gostring" where
  "bytes_of s = map of_char s"

definition base32Alphabet :: gostring where
  "base32Alphabet = bytes_of ''.12345abcdefghijklmnopqrstuvwxyz''"

definition charToSymbol :: "u8 \<Rightarrow> u8" where
  "charToSymbol c =
     (if c \<ge> of_char CHR ''a'' \<and> c \<le> of_char CHR ''z'' then c - of_char CHR ''a'' + 6
      else if c \<ge> of_char CHR ''1'' \<and> c \<le> of_char CHR ''5'' then c - of_char CHR ''1'' + 1
      else 0)"

definition N_symbol :: "gostring \<Rightarrow> nat \<Rightarrow> u64" where
  "N_symbol s i =
     (let c = (if i < length s then ucast (charToSymbol (s ! i)) else 0)
      in if i < 12 then push_bit (64 - 5 * (i + 1)) (c AND 0x1f) else c AND 0x0f)"

definition N :: "gostring \<Rightarrow> eos_name result" where
  "N s = eos_assert (length s \<le> 13) NameTypeException
           (Inr (fold (\<lambda>i val. val OR N_symbol s i) [0..<13] 0))"

definition TrimRight :: "gostring \<Rightarrow> u8 \<Rightarrow> gostring" where
  "TrimRight s c = rev (dropWhile (\<lambda>b. b = c) (rev s))"

definition S_step :: "nat \<Rightarrow> u64 \<times> gostring \<Rightarrow> u64 \<times> gostring" where
  "S_step i st =
     (let tmp = fst st; a = snd st;
          bits = (if i = 0 then 0x0f else 0x1f);
          c = base32Alphabet ! unat (tmp AND bits);
          a = a[12 - i := c];
          shift = (if i = 0 then 4 else 5)
      in (drop_bit shift tmp, a))"

definition S :: "eos_name \<Rightarrow> gostring" where
  "S n = TrimRight (snd (fold S_step [0..<13] (n, replicate 13 (of_char CHR ''.'')))) (of_char CHR ''.'')"

text \<open>
  The loop of \<open>NameSuffix\<close> runs over the remaining bits 59, 54, ..., 4; its state is
  \<open>tmp\<close> and \<open>remainingBitsAfterLastActualDot\<close>.
\<close>

definition NameSuffix_step :: "u64 \<Rightarrow> nat \<Rightarrow> nat \<times> nat \<Rightarrow> nat \<times> nat" where
  "NameSuffix_step n remainingBits st =
     (let c = drop_bit remainingBits n AND 0x1F
      in if c = 0 then (remainingBits, snd st) else (fst st, fst st))"

definition NameSuffix :: "u64 \<Rightarrow> u64" where
  "NameSuffix n =
     (let st = fold (NameSuffix_step n) (map (\<lambda>k. 59 - 5 * k) [0..<12]) (0, 0);
          tmp = fst st;
          thirteenthCharacter = n AND 0x0F;
          remaining = (if thirteenthCharacter \<noteq> 0 then tmp else snd st)
      in if remaining = 0 then n
         else let mask = push_bit remaining 1 - 16;
                  shift = 64 - remaining
              in push_bit shift (n AND mask) + push_bit (shift - 1) thirteenthCharacter)"

definition CompareName :: "eos_name \<Rightarrow> eos_name \<Rightarrow> int" where
  "CompareName first second = (if first = second then 0 else if first < second then - 1 else 1)"

definition Name_IsEmpty :: "eos_name \<Rightarrow> bool" where
  "Name_IsEmpty n \<longleftrightarrow> n = 0"

section \<open>Symbols of a name\<close>

definition symbol :: "u64 \<Rightarrow> nat \<Rightarrow> u64" where
  "symbol n i = (if i < 12 then drop_bit (59 - 5 * i) n AND 0x1f else n AND 0x0f)"

definition symbols :: "u64 \<Rightarrow> u64 list" where
  "symbols n = map (symbol n) [0..<13]"

definition letter :: "u64 \<Rightarrow> u8" where
  "letter d = base32Alphabet ! unat d"

lemma and_0x1f: "x AND 0x1f = take_bit 5 x" and and_0x0f: "x AND 0x0f = take_bit 4 x"
  for x :: "'a::len word"
proof -
  have "(0x1f :: 'a word) = mask 5" "(0x0f :: 'a word) = mask 4"
    by (simp_all add: mask_eq_exp_minus_1)
  then show "x AND 0x1f = take_bit 5 x" "x AND 0x0f = take_bit 4 x"
    by (simp_all only: take_bit_eq_mask)
qed

lemma bit_symbol:
  "bit (symbol n i) r \<longleftrightarrow> (if i < 12 then r < 5 \<and> bit n (59 - 5 * i + r) else r < 4 \<and> bit n r)"
  unfolding symbol_def and_0x1f and_0x0f
  by (auto simp: bit_take_bit_iff bit_drop_bit_eq dest: bit_imp_le_length)

lemma symbols_determine: "(\<And>i. i < 13 \<Longrightarrow> symbol m i = symbol n i) \<Longrightarrow> m = n"
proof (rule bit_word_eqI)
  fix j assume eq: "\<And>i. i < 13 \<Longrightarrow> symbol m i = symbol n i" and j: "j < LENGTH(64)"
  show "bit m j = bit n j"
  proof (cases "j < 4")
    case True
    then show ?thesis using bit_symbol [of m 12 j] bit_symbol [of n 12 j] eq [of 12] by simp
  next
    case False
    define i r where "i = (63 - j) div 5" and "r = j - (59 - 5 * i)"
    have "i < 12" "r < 5" "59 - 5 * i + r = j"
      using j False unfolding i_def r_def by simp_all
    then show ?thesis using bit_symbol [of m i r] bit_symbol [of n i r] eq [of i] by simp
  qed
qed

lemma bit_fold_or:
  "bit (fold (\<lambda>i v. v OR f i) xs v) j \<longleftrightarrow> bit v j \<or> (\<exists>i\<in>set xs. bit (f i) j)"
  by (induction xs arbitrary: v) (auto simp: bit_or_iff)

text \<open>The symbol at position \<open>i\<close> that a string contributes to its name.\<close>

definition char_symbol :: "gostring \<Rightarrow> nat \<Rightarrow> u64" where
  "char_symbol s i = (if i < length s then ucast (charToSymbol (s ! i)) else 0)"

lemma bit_N_symbol:
  "bit (N_symbol s i) j \<longleftrightarrow>
     (if i < 12 then 59 - 5 * i \<le> j \<and> j < 64 - 5 * i \<and> bit (char_symbol s i) (j - (59 - 5 * i))
      else j < 4 \<and> bit (char_symbol s i) j)"
  unfolding N_symbol_def char_symbol_def [symmetric] Let_def and_0x1f and_0x0f
  by (auto simp: bit_take_bit_iff bit_push_bit_iff)

lemma symbol_N:
  assumes "N s = Inr n" "i < 13"
  shows "symbol n i = (if i < 12 then char_symbol s i AND 0x1f else char_symbol s i AND 0x0f)"
proof (rule bit_word_eqI)
  fix r assume "r < LENGTH(64)"
  from assms(1) have n: "n = fold (\<lambda>i val. val OR N_symbol s i) [0..<13] 0"
    by (auto simp: N_def result_iffs)
  have bit_n: "bit n j \<longleftrightarrow> (\<exists>k<13. bit (N_symbol s k) j)" for j
    unfolding n bit_fold_or by auto
  show "bit (symbol n i) r =
    bit (if i < 12 then char_symbol s i AND 0x1f else char_symbol s i AND 0x0f) r"
  proof (cases "i < 12 \<and> r < 5")
    case True
    have "59 - 5 * k \<le> 59 - 5 * i + r \<and> 59 - 5 * i + r < 64 - 5 * k \<longleftrightarrow> k = i" if "k < 12" for k
      using that True by auto
    then have "bit (N_symbol s k) (59 - 5 * i + r) \<longleftrightarrow> k = i \<and> bit (char_symbol s i) r" if "k < 13" for k
      using that True unfolding bit_N_symbol by (cases "k = i") auto
    then have "(\<exists>k<13. bit (N_symbol s k) (59 - 5 * i + r)) \<longleftrightarrow> bit (char_symbol s i) r"
      using True by (metis assms(2))
    with True show ?thesis
      unfolding bit_symbol bit_n by (simp add: and_0x1f bit_take_bit_iff)
  next
    case False
    have "bit (N_symbol s k) r \<longleftrightarrow> k = 12 \<and> bit (char_symbol s 12) r" if "k < 13" "r < 4" for k
      using that by (cases "k = 12") (auto simp: bit_N_symbol)
    then have "(\<exists>k<13. bit (N_symbol s k) r) \<longleftrightarrow> bit (char_symbol s 12) r" if "r < 4"
      using that by (metis less_add_one numeral_plus_one semiring_norm(5) semiring_norm(2))
    moreover have "i = 12" if "\<not> i < 12" using that assms(2) by simp
    ultimately show ?thesis using False
      unfolding bit_symbol bit_n by (auto simp: and_0x1f and_0x0f bit_take_bit_iff)
  qed
qed

lemma symbol_less: "unat (symbol n i) < 32" "i = 12 \<Longrightarrow> unat (symbol n i) < 16"
  by (auto simp: symbol_def and_0x1f and_0x0f take_bit_eq_mod unat_mod_distrib
        intro: less_trans [OF mod_less_divisor])

lemma alphabet_simps: "base32Alphabet =
   [0x2e, 0x31, 0x32, 0x33, 0x34, 0x35, 0x61, 0x62, 0x63, 0x64, 0x65, 0x66, 0x67, 0x68, 0x69, 0x6a,
    0x6b, 0x6c, 0x6d, 0x6e, 0x6f, 0x70, 0x71, 0x72, 0x73, 0x74, 0x75, 0x76, 0x77, 0x78, 0x79, 0x7a]"
  by (simp add: base32Alphabet_def bytes_of_def)

lemma charToSymbol_letter:
  assumes "unat d < 32"
  shows "ucast (charToSymbol (letter d)) = d" "letter d = 0x2e \<longleftrightarrow> d = 0"
proof -
  have "list_all (\<lambda>i. unat (charToSymbol (base32Alphabet ! i)) = i \<and> (base32Alphabet ! i = 0x2e \<longleftrightarrow> i = 0))
     [0..<32]"
    by (simp add: upt_rec alphabet_simps charToSymbol_def word_le_nat_alt)
  then have "unat (charToSymbol (letter d)) = unat d" "letter d = 0x2e \<longleftrightarrow> unat d = 0"
    using assms by (simp_all only: list_all_iff letter_def atLeastLessThan_iff set_upt) auto
  then show "ucast (charToSymbol (letter d)) = d" "letter d = 0x2e \<longleftrightarrow> d = 0"
    by (auto simp: word_unat_eq_iff unat_ucast_up)
qed

section \<open>Printing\<close>

lemma dot_byte [simp]: "of_char CHR ''.'' = (0x2e :: u8)"
  by simp

lemma S_loop_prefix:
  "k \<le> 13 \<Longrightarrow> fold S_step [0..<k] (n, replicate 13 c) =
     (drop_bit (5 * k - 1) n, map (\<lambda>j. if 13 \<le> j + k then letter (symbol n j) else c) [0..<13])"
proof (induction k)
  case 0
  show ?case by (auto intro!: nth_equalityI)
next
  case (Suc k)
  then have k: "k \<le> 12" by simp
  have c: "base32Alphabet ! unat (drop_bit (5 * k - 1) n AND (if k = 0 then 0x0f else 0x1f)) =
      letter (symbol n (12 - k))"
  proof (cases "k = 0")
    case False
    then have "12 - k < 12" "59 - 5 * (12 - k) = 5 * k - 1" using k by auto
    with False show ?thesis by (simp add: letter_def symbol_def)
  qed (simp add: letter_def symbol_def)
  have s: "drop_bit (if k = 0 then 4 else 5) (drop_bit (5 * k - 1) n) = drop_bit (5 * Suc k - 1) n"
    by (simp add: drop_bit_drop_bit)
  have upd: "(map (\<lambda>j. if 13 \<le> j + k then letter (symbol n j) else c) [0..<13])[12 - k := letter (symbol n (12 - k))] =
      map (\<lambda>j. if 13 \<le> j + Suc k then letter (symbol n j) else c) [0..<13]"
    using k by (intro nth_equalityI) (auto simp: nth_list_update)
  from Suc k show ?case
    by (simp only: upt_Suc_append fold_append comp_apply fold.simps id_apply Suc.IH le_Suc_eq
          le0 S_step_def Let_def fst_conv snd_conv c s upd)
qed

lemma S_loop: "snd (fold S_step [0..<13] (n, replicate 13 c)) = map letter (symbols n)"
  by (simp add: S_loop_prefix symbols_def)

definition strip :: "u64 list \<Rightarrow> u64 list" where
  "strip ds = rev (dropWhile (\<lambda>d. d = 0) (rev ds))"

lemma strip_snoc: "strip (ds @ [d]) = (if d = 0 then strip ds else ds @ [d])"
  by (simp add: strip_def)

lemma strip_nth:
  "length (strip ds) \<le> length ds"
  "i < length (strip ds) \<Longrightarrow> strip ds ! i = ds ! i"
  "length (strip ds) \<le> i \<Longrightarrow> i < length ds \<Longrightarrow> ds ! i = 0"
  by (induction ds rule: rev_induct) (auto simp: strip_snoc strip_def nth_append split: if_splits)

lemma set_strip: "d \<in> set (strip ds) \<Longrightarrow> d \<in> set ds"
  by (auto simp: strip_def dest: set_dropWhileD)

lemma TrimRight_letters:
  assumes "\<forall>d \<in> set ds. unat d < 32"
  shows "TrimRight (map letter ds) 0x2e = map letter (strip ds)"
  using assms
  by (induction ds rule: rev_induct)
     (auto simp: TrimRight_def strip_def charToSymbol_letter)

lemma symbols_less: "d \<in> set (symbols n) \<Longrightarrow> unat d < 32"
  by (auto simp: symbols_def symbol_less)

lemma S_eq: "S n = map letter (strip (symbols n))"
  unfolding S_def S_loop dot_byte using TrimRight_letters symbols_less by blast

section \<open>Round trips\<close>

lemma and_small:
  "unat x < 32 \<Longrightarrow> x AND 0x1f = x" "unat x < 16 \<Longrightarrow> x AND 0x0f = x" for x :: u64
  by (simp_all only: and_0x1f and_0x0f)
     (simp_all add: take_bit_eq_mod word_unat_eq_iff unat_mod_distrib)

text \<open>The name with the given symbols, when parsed from their letters.\<close>

lemma symbol_N_letters:
  assumes "length ds \<le> 13" "\<forall>d \<in> set ds. unat d < 32" "length ds = 13 \<Longrightarrow> unat (ds ! 12) < 16"
  obtains n where "N (map letter ds) = Inr n"
    "\<And>i. i < 13 \<Longrightarrow> symbol n i = (if i < length ds then ds ! i else 0)"
proof -
  from assms(1) obtain n where n: "N (map letter ds) = Inr n" by (auto simp: N_def)
  have "char_symbol (map letter ds) i = (if i < length ds then ds ! i else 0)" for i
    using assms(2) by (simp add: char_symbol_def charToSymbol_letter)
  moreover have "ds ! i AND 0x1f = ds ! i" if "i < length ds" for i
    using assms(2) that by (intro and_small) auto
  moreover have "ds ! 12 AND 0x0f = ds ! 12" if "length ds = 13"
    using assms(3) that by (intro and_small)
  ultimately have "symbol n i = (if i < length ds then ds ! i else 0)" if "i < 13" for i
    using that assms(1) symbol_N [OF n that] by (cases "i = 12") auto
  with n show ?thesis using that by blast
qed

lemma length_symbols [simp]: "length (symbols n) = 13"
  by (simp add: symbols_def)

lemma nth_symbols [simp]: "i < 13 \<Longrightarrow> symbols n ! i = symbol n i"
  by (simp add: symbols_def)

lemma symbols_inject: "symbols m = symbols n \<longleftrightarrow> m = n"
  by (metis symbols_determine nth_symbols)

lemma strip_symbols:
  "length (strip (symbols n)) \<le> 13" "\<forall>d \<in> set (strip (symbols n)). unat d < 32"
  "length (strip (symbols n)) = 13 \<Longrightarrow> unat (strip (symbols n) ! 12) < 16"
  using strip_nth(1) [of "symbols n"] symbols_less set_strip
  by (auto simp: strip_nth(2) symbol_less)

lemma N_S: "N (S n) = Inr n"
proof -
  obtain m where m: "N (S n) = Inr m"
    and sym: "\<And>i. i < 13 \<Longrightarrow> symbol m i = (if i < length (strip (symbols n)) then strip (symbols n) ! i else 0)"
    using symbol_N_letters [OF strip_symbols] unfolding S_eq by blast
  have "symbol m i = symbol n i" if "i < 13" for i
    using that sym [OF that] strip_nth(2,3) [where ds = "symbols n" and i = i] by (auto simp: not_less)
  then have "m = n" by (rule symbols_determine)
  with m show ?thesis by simp
qed

text \<open>The normal strings: at most 13 letters, no trailing dot, and a 4-bit thirteenth letter.\<close>

definition normal_name :: "gostring \<Rightarrow> bool" where
  "normal_name s \<longleftrightarrow>
     length s \<le> 13 \<and> set s \<subseteq> set base32Alphabet \<and>
     (s \<noteq> [] \<longrightarrow> last s \<noteq> 0x2e) \<and> (length s = 13 \<longrightarrow> last s \<in> set (take 16 base32Alphabet))"

lemma letter_surj:
  assumes "b \<in> set (take m base32Alphabet)" "m \<le> 32"
  obtains d where "letter d = b" "unat d < m"
proof -
  have "length base32Alphabet = 32" by (simp add: alphabet_simps)
  with assms obtain k where k: "k < m" "base32Alphabet ! k = b"
    by (auto simp: in_set_conv_nth)
  moreover have "unat (of_nat k :: u64) = k"
    using k(1) assms(2) by (simp add: unsigned_of_nat take_bit_nat_eq_self_iff)
  ultimately show ?thesis using that [of "of_nat k"] by (simp add: letter_def)
qed

lemma letters_of:
  assumes "set s \<subseteq> set base32Alphabet"
  obtains ds where "s = map letter ds" "\<forall>d \<in> set ds. unat d < 32"
proof -
  have "\<exists>ds. s = map letter ds \<and> (\<forall>d \<in> set ds. unat d < 32)"
    using assms
  proof (induction s)
    case (Cons b s)
    then obtain ds where "s = map letter ds \<and> (\<forall>d \<in> set ds. unat d < 32)" by auto
    moreover obtain d where "letter d = b" "unat d < 32"
      using letter_surj [of b 32] Cons.prems by (auto simp: alphabet_simps)
    ultimately show ?case by (intro exI [of _ "d # ds"]) auto
  qed simp
  then show ?thesis using that by blast
qed

lemma letter_inject: "unat d < 32 \<Longrightarrow> unat e < 32 \<Longrightarrow> letter d = letter e \<longleftrightarrow> d = e"
  by (metis charToSymbol_letter(1))

lemma strip_zeros: "strip (ds @ replicate k 0) = strip ds"
  by (induction k) (simp_all add: strip_snoc replicate_append_same [symmetric] flip: append_assoc)

lemma S_N:
  assumes "normal_name s"
  obtains n where "N s = Inr n" "S n = s"
proof -
  obtain ds where s: "s = map letter ds" "\<forall>d \<in> set ds. unat d < 32"
    using assms letters_of [of s] by (auto simp: normal_name_def)
  have len: "length ds \<le> 13" using assms s(1) by (simp add: normal_name_def)
  have "unat (ds ! 12) < 16" if "length ds = 13"
  proof -
    from that have "ds \<noteq> []" by auto
    with that have last: "last ds = ds ! 12" "ds \<noteq> []" "last ds \<in> set ds"
      by (simp_all add: last_conv_nth)
    have "letter (last ds) \<in> set (take 16 base32Alphabet)"
      using assms that last(2) by (simp add: normal_name_def s(1) last_map)
    then obtain d where "letter d = letter (last ds)" "unat d < 16" by (rule letter_surj) simp
    then show ?thesis using s(2) last letter_inject [of d "last ds"] by auto
  qed
  then obtain n where n: "N s = Inr n"
    "\<And>i. i < 13 \<Longrightarrow> symbol n i = (if i < length ds then ds ! i else 0)"
    using symbol_N_letters [OF len s(2)] unfolding s(1) by blast
  have "symbols n = ds @ replicate (13 - length ds) 0"
    using len n(2) by (intro nth_equalityI) (auto simp: nth_append)
  moreover have "strip ds = ds"
    using assms s by (cases ds rule: rev_cases)
      (auto simp: strip_snoc strip_def normal_name_def charToSymbol_letter)
  ultimately have "S n = s" by (simp add: S_eq strip_zeros s(1))
  with n(1) that show ?thesis by blast
qed

section \<open>The suffix\<close>

text \<open>The position of the last zero symbol, and its encoding by the loop of \<open>NameSuffix\<close>.\<close>

definition last_zero :: "u64 list \<Rightarrow> nat option" where
  "last_zero ds =
     (let t = length (takeWhile (\<lambda>d. d \<noteq> 0) (rev ds))
      in if t < length ds then Some (length ds - 1 - t) else None)"

definition remaining_bits :: "nat option \<Rightarrow> nat" where
  "remaining_bits p = (case p of None \<Rightarrow> 0 | Some k \<Rightarrow> 59 - 5 * k)"

lemma last_zero_snoc: "last_zero (ds @ [d]) = (if d = 0 then Some (length ds) else last_zero ds)"
  by (auto simp: last_zero_def Let_def)

lemma last_zero_Nil [simp]: "last_zero [] = None"
  by (simp add: last_zero_def)

lemma last_zero_None: "last_zero ds = None \<Longrightarrow> rev (takeWhile (\<lambda>d. d \<noteq> 0) (rev ds)) = ds"
  by (induction ds rule: rev_induct) (auto simp: last_zero_snoc split: if_splits)

lemma last_zero_Some:
  "last_zero ds = Some k \<Longrightarrow>
     k < length ds \<and> ds ! k = 0 \<and> rev (takeWhile (\<lambda>d. d \<noteq> 0) (rev ds)) = drop (Suc k) ds"
  by (induction ds rule: rev_induct) (auto simp: last_zero_snoc nth_append split: if_splits)

lemma last_zero_strip:
  "last_zero (strip ds) = Some k \<Longrightarrow> Suc k < length ds"
proof (induction ds rule: rev_induct)
  case (snoc d ds)
  then show ?case by (auto simp: strip_snoc last_zero_snoc split: if_splits dest: last_zero_Some)
qed (simp add: strip_def)

lemma take_symbols: "k < 13 \<Longrightarrow> take (Suc k) (symbols n) = take k (symbols n) @ [symbol n k]"
  by (simp add: take_Suc_conv_app_nth)

lemma NameSuffix_loop:
  "k \<le> 12 \<Longrightarrow> fold (NameSuffix_step n) (map (\<lambda>k. 59 - 5 * k) [0..<k]) (0, 0) =
     (remaining_bits (last_zero (take k (symbols n))),
      remaining_bits (last_zero (strip (take k (symbols n)))))"
proof (induction k)
  case 0
  then show ?case by (simp add: remaining_bits_def strip_def)
next
  case (Suc k)
  then have "k < 12" by simp
  moreover have "drop_bit (59 - 5 * k) n AND 0x1F = symbol n k"
    using \<open>k < 12\<close> by (simp add: symbol_def)
  ultimately show ?case
    using Suc by (simp add: NameSuffix_step_def Let_def take_symbols last_zero_snoc strip_snoc)
      (simp add: remaining_bits_def)
qed

lemma symbols_split: "symbols n = take 12 (symbols n) @ [symbol n 12]"
  using take_symbols [of 12 n] by simp

lemma NameSuffix_eq:
  "NameSuffix n =
     (case last_zero (strip (symbols n)) of
        None \<Rightarrow> n
      | Some k \<Rightarrow> push_bit (5 + 5 * k) (n AND (push_bit (59 - 5 * k) 1 - 16)) +
                  push_bit (4 + 5 * k) (symbol n 12))"
proof -
  define p where "p = last_zero (strip (symbols n))"
  have sym: "n AND 0x0F = symbol n 12" by (simp add: symbol_def)
  have loop: "fold (NameSuffix_step n) (map (\<lambda>k. 59 - 5 * k) [0..<12]) (0, 0) =
      (remaining_bits (last_zero (take 12 (symbols n))),
       remaining_bits (last_zero (strip (take 12 (symbols n)))))"
    by (rule NameSuffix_loop) simp
  have rem: "(if symbol n 12 \<noteq> 0 then remaining_bits (last_zero (take 12 (symbols n)))
       else remaining_bits (last_zero (strip (take 12 (symbols n))))) = remaining_bits p"
    unfolding p_def by (subst (3) symbols_split) (simp add: strip_snoc last_zero_snoc)
  have "k < 12" if "p = Some k" for k
    using last_zero_strip [of "symbols n" k] that p_def by simp
  then show ?thesis
    unfolding NameSuffix_def Let_def loop fst_conv snd_conv sym rem p_def [symmetric]
    by (cases p) (auto simp: remaining_bits_def)
qed

lemma bit_suffix_mask:
  assumes "4 \<le> R" "R < 64"
  shows "bit (2 ^ R - 16 :: u64) j \<longleftrightarrow> 4 \<le> j \<and> j < R"
proof -
  have "(2 ^ R - 16 :: u64) = push_bit 4 (mask (R - 4))"
    using power_add [of "2 :: u64" 4 "R - 4"] assms
    by (simp add: push_bit_eq_mult mask_eq_exp_minus_1 right_diff_distrib)
  then show ?thesis using assms by (auto simp: bit_push_bit_iff bit_mask_iff)
qed

lemma symbol_suffix:
  assumes "k < 12" "i < 13"
  shows "symbol (push_bit (5 + 5 * k) (n AND (push_bit (59 - 5 * k) 1 - 16)) +
             push_bit (4 + 5 * k) (symbol n 12)) i =
         (if i + Suc k < 13 then symbol n (i + Suc k) else 0)" (is "symbol ?m i = _")
proof -
  let ?a = "push_bit (5 + 5 * k) (n AND (push_bit (59 - 5 * k) 1 - 16))"
  let ?b = "push_bit (4 + 5 * k) (symbol n 12)"
  have bit_a: "bit ?a j \<longleftrightarrow> 9 + 5 * k \<le> j \<and> j < 64 \<and> bit n (j - (5 + 5 * k))" for j
    using assms(1) by (auto simp: bit_push_bit_iff bit_and_iff bit_suffix_mask)
  have bit_b: "bit ?b j \<longleftrightarrow> 4 + 5 * k \<le> j \<and> j < 8 + 5 * k \<and> j < 64 \<and> bit n (j - (4 + 5 * k))" for j
    using assms(1) by (auto simp: bit_push_bit_iff bit_symbol)
  have "?m = ?a OR ?b"
    by (rule disjunctive_add) (simp only: bit_a bit_b, linarith)
  then have bit_m: "bit ?m j \<longleftrightarrow> bit ?a j \<or> bit ?b j" for j
    by (simp add: bit_or_iff)
  show ?thesis
  proof (rule bit_word_eqI)
    fix r
    consider (low) "i + Suc k < 12" | (final) "i = 11 - k" | (high) "i < 12" "i + Suc k > 12" | (thirteenth) "i = 12"
      using assms by linarith
    then show "bit (symbol ?m i) r = bit (if i + Suc k < 13 then symbol n (i + Suc k) else 0) r"
    proof cases
      case low
      then have c: "i + Suc k < 13" and e: "59 - 5 * i + r - (5 + 5 * k) = 59 - 5 * (i + Suc k) + r"
        by simp_all
      show ?thesis
        unfolding if_P [OF c] bit_symbol bit_m bit_a bit_b e using low by auto
    next
      case final
      then have c: "i + Suc k < 13" "i + Suc k = 12" "i < 12"
        and e: "59 - 5 * i + r - (4 + 5 * k) = r"
        using assms by auto
      show ?thesis
        unfolding if_P [OF c(1)] bit_symbol bit_m bit_a bit_b e using c final assms by auto
    next
      case high
      then have c: "\<not> i + Suc k < 13" by simp
      show ?thesis
        unfolding if_not_P [OF c] bit_symbol bit_m bit_a bit_b using high assms by auto
    next
      case thirteenth
      then have c: "\<not> i + Suc k < 13" by simp
      show ?thesis
        unfolding if_not_P [OF c] bit_symbol bit_m bit_a bit_b using thirteenth assms by auto
    qed
  qed
qed

definition after_last_dot :: "gostring \<Rightarrow> gostring" where
  "after_last_dot s = rev (takeWhile (\<lambda>b. b \<noteq> 0x2e) (rev s))"

lemma after_last_dot_letters:
  assumes "\<forall>d \<in> set ds. unat d < 32"
  shows "after_last_dot (map letter ds) = map letter (rev (takeWhile (\<lambda>d. d \<noteq> 0) (rev ds)))"
  using assms
  by (induction ds rule: rev_induct) (auto simp: after_last_dot_def charToSymbol_letter)

lemma N_after_last_dot: "N (after_last_dot (S n)) = Inr (NameSuffix n)"
proof (cases "last_zero (strip (symbols n))")
  case None
  then show ?thesis
    using N_S [of n] by (simp add: S_eq after_last_dot_letters strip_symbols last_zero_None NameSuffix_eq)
next
  case (Some k)
  let ?ys = "strip (symbols n)"
  have k: "k < 12" using last_zero_strip [OF Some] by simp
  have s: "after_last_dot (S n) = map letter (drop (Suc k) ?ys)"
    using last_zero_Some [OF Some] by (simp add: S_eq after_last_dot_letters strip_symbols)
  have pre: "length (drop (Suc k) ?ys) \<le> 12" "\<forall>d \<in> set (drop (Suc k) ?ys). unat d < 32"
    using strip_symbols(1,2) [of n] by (auto dest: in_set_dropD)
  moreover have "length (drop (Suc k) ?ys) \<noteq> 13" using pre(1) by linarith
  ultimately obtain m where m: "N (after_last_dot (S n)) = Inr m"
    and sym: "\<And>i. i < 13 \<Longrightarrow> symbol m i =
        (if i < length (drop (Suc k) ?ys) then drop (Suc k) ?ys ! i else 0)"
    unfolding s by (elim symbol_N_letters [rotated]) (linarith | blast)+
  have "symbol m i = symbol (NameSuffix n) i" if "i < 13" for i
  proof -
    have "symbol (NameSuffix n) i = (if i + Suc k < 13 then symbol n (i + Suc k) else 0)"
      using symbol_suffix [OF k that] Some by (simp add: NameSuffix_eq)
    then show ?thesis
      using sym [OF that] strip_nth(1) [of "symbols n"]
        strip_nth(2,3) [where ds = "symbols n" and i = "Suc k + i"]
      by (auto simp: not_less add.commute)
  qed
  then have "m = NameSuffix n" by (rule symbols_determine)
  with m show ?thesis by simp
qed

section \<open>Properties\<close>

text \<open>
  C24. Names print and parse as inverses: every 64-bit word is the parse of its printed form,
  and every normal string (at most 13 letters of the alphabet, no trailing dot, a thirteenth
  letter among the first sixteen) is the printed form of its parse.
\<close>

theorem name_roundtrip:
  "N (S n) = Inr n \<and> (normal_name s \<longrightarrow> (\<exists>m. N s = Inr m \<and> S m = s))"
  using N_S S_N by metis

theorem name_roundtrip_witness:
  "\<exists>m. N (bytes_of ''eosio.token'') = Inr m \<and> S m = bytes_of ''eosio.token''"
proof -
  have "normal_name (bytes_of ''eosio.token'')"
    by (simp add: normal_name_def bytes_of_def alphabet_simps)
  then show ?thesis using name_roundtrip [of 0 "bytes_of ''eosio.token''"] by simp
qed

text \<open>
  C25. \<open>NameSuffix\<close>, which works on the bits of a name with masks and shifts, returns the name
  of the part of the printed form that follows its last dot (the whole name without a dot).
\<close>

theorem NameSuffix_is_printed_suffix: "N (after_last_dot (S n)) = Inr (NameSuffix n)"
  by (rule N_after_last_dot)

end
