(* ===== verification/Eos_Crypto.thy ===== *)
theory Eos_Crypto
  imports Eos_Prelude
begin

unbundle bit_operations_syntax

text \<open>
  The digest type of \<open>src/crypto/sha256.go\<close> and the byte order helpers of
  \<open>src/common/endian_reverse.go\<close>. A digest is four 64-bit words; the hash function itself
  (SHA-256 over an encoded object) is a parameter of the definitions that use it. Shown
  here: the byte representation is a round trip, \<open>Sha256Compare\<close> is a linear order, and
  the byte reversals are involutions.
\<close>

section \<open>Model\<close>

record Sha256 =
  Hash0 :: u64
  Hash1 :: u64
  Hash2 :: u64
  Hash3 :: u64

type_synonym DigestType = Sha256
type_synonym BlockIdType = Sha256
type_synonym CheckSum256Type = Sha256
type_synonym TransactionIdType = Sha256

definition NewSha256Nil :: Sha256 where
  "NewSha256Nil = \<lparr>Hash0 = 0, Hash1 = 0, Hash2 = 0, Hash3 = 0\<rparr>"

definition Hash :: "Sha256 \<Rightarrow> u64 list" where
  "Hash h = [Hash0 h, Hash1 h, Hash2 h, Hash3 h]"

text \<open>\<open>binary.LittleEndian\<close> and \<open>binary.BigEndian\<close> on 64-bit words, as the code uses them.\<close>

definition LittleEndian_PutUint64 :: "u64 \<Rightarrow> u8 list" where
  "LittleEndian_PutUint64 w = map (\<lambda>i. ucast (drop_bit (8 * i) w)) [0..<8]"

definition LittleEndian_Uint64 :: "u8 list \<Rightarrow> u64" where
  "LittleEndian_Uint64 bs = fold (\<lambda>i w. w OR push_bit (8 * i) (ucast (bs ! i))) [0..<8] 0"

definition BigEndian_PutUint64 :: "u64 \<Rightarrow> u8 list" where
  "BigEndian_PutUint64 w = map (\<lambda>i. ucast (drop_bit (56 - 8 * i) w)) [0..<8]"

definition Bytes :: "Sha256 \<Rightarrow> u8 list" where
  "Bytes h = concat (map LittleEndian_PutUint64 (Hash h))"

definition BigEndianBytes :: "Sha256 \<Rightarrow> u8 list" where
  "BigEndianBytes h = concat (map BigEndian_PutUint64 (Hash h))"

text \<open>Slicing \<open>s[i*8:(i+1)*8]\<close> panics when the slice is shorter than 32 bytes.\<close>

definition NewSha256Byte :: "u8 list \<Rightarrow> Sha256 result" where
  "NewSha256Byte s =
     (if length s < 32 then Inl GoPanic
      else Inr \<lparr>Hash0 = LittleEndian_Uint64 (take 8 s),
                Hash1 = LittleEndian_Uint64 (take 8 (drop 8 s)),
                Hash2 = LittleEndian_Uint64 (take 8 (drop 16 s)),
                Hash3 = LittleEndian_Uint64 (take 8 (drop 24 s))\<rparr>)"

definition Sha256_Or :: "Sha256 \<Rightarrow> Sha256 \<Rightarrow> Sha256" where
  "Sha256_Or h h1 =
     \<lparr>Hash0 = Hash0 h XOR Hash0 h1, Hash1 = Hash1 h XOR Hash1 h1,
      Hash2 = Hash2 h XOR Hash2 h1, Hash3 = Hash3 h XOR Hash3 h1\<rparr>"

definition Sha256_Equals :: "Sha256 \<Rightarrow> Sha256 \<Rightarrow> bool" where
  "Sha256_Equals h h1 \<longleftrightarrow>
     Hash0 h = Hash0 h1 \<and> Hash1 h = Hash1 h1 \<and> Hash2 h = Hash2 h1 \<and> Hash3 h = Hash3 h1"

fun compare_words :: "u64 list \<Rightarrow> u64 list \<Rightarrow> int" where
  "compare_words (a # as) (b # bs) =
     (if a > b then 1 else if a < b then - 1 else compare_words as bs)"
| "compare_words _ _ = 0"

definition Sha256Compare :: "Sha256 \<Rightarrow> Sha256 \<Rightarrow> int" where
  "Sha256Compare a b = compare_words (Hash a) (Hash b)"

text \<open>The length of a Go array is a constant of its type: four here.\<close>

definition Sha256_IsEmpty :: "Sha256 \<Rightarrow> bool" where
  "Sha256_IsEmpty h \<longleftrightarrow> length (Hash h) = 0"

definition EndianReverseU64 :: "u64 \<Rightarrow> u64" where
  "EndianReverseU64 x =
     (drop_bit 0x38 x AND 0xFF) OR
     push_bit 0x08 (drop_bit 0x30 x AND 0xFF) OR
     push_bit 0x10 (drop_bit 0x28 x AND 0xFF) OR
     push_bit 0x18 (drop_bit 0x20 x AND 0xFF) OR
     push_bit 0x20 (drop_bit 0x18 x AND 0xFF) OR
     push_bit 0x28 (drop_bit 0x10 x AND 0xFF) OR
     push_bit 0x30 (drop_bit 0x08 x AND 0xFF) OR
     push_bit 0x38 (x AND 0xFF)"

definition EndianReverseU32 :: "u32 \<Rightarrow> u32" where
  "EndianReverseU32 x =
     (drop_bit 0x18 x AND 0xFF) OR
     push_bit 0x08 (drop_bit 0x10 x AND 0xFF) OR
     push_bit 0x10 (drop_bit 0x08 x AND 0xFF) OR
     push_bit 0x18 (x AND 0xFF)"

section \<open>Byte order\<close>

lemma and_byte_mask: "x AND 0xFF = take_bit 8 (x :: 'a::len word)"
proof -
  have "(0xFF :: 'a word) = mask 8" by (simp add: mask_eq_exp_minus_1)
  then show ?thesis by (simp only: take_bit_eq_mask)
qed

lemmas byte_bits = bit_take_bit_iff bit_or_iff bit_push_bit_iff bit_drop_bit_eq

lemma byte_index:
  fixes i n :: nat
  assumes "i < 8 * n"
  obtains q r where "i = 8 * q + r" "r < 8" "q < n"
  using assms that [of "i div 8" "i mod 8"] by (simp add: less_mult_imp_div_less mult.commute)

lemma bit_EndianReverseU32:
  assumes "r < 8" "q < 4"
  shows "bit (EndianReverseU32 x) (8 * q + r) = bit x (8 * (3 - q) + r)"
proof -
  from assms(2) consider "q = 0" | "q = 1" | "q = 2" | "q = 3" by linarith
  then show ?thesis
    unfolding EndianReverseU32_def and_byte_mask
    using assms(1) by cases (simp_all add: byte_bits)
qed

lemma bit_EndianReverseU64:
  assumes "r < 8" "q < 8"
  shows "bit (EndianReverseU64 x) (8 * q + r) = bit x (8 * (7 - q) + r)"
proof -
  from assms(2) consider "q = 0" | "q = 1" | "q = 2" | "q = 3" | "q = 4" | "q = 5" | "q = 6" | "q = 7"
    by linarith
  then show ?thesis
    unfolding EndianReverseU64_def and_byte_mask
    using assms(1) by cases (simp_all add: byte_bits)
qed

lemma EndianReverseU32_involution: "EndianReverseU32 (EndianReverseU32 x) = x"
proof (rule bit_word_eqI)
  fix i assume "i < LENGTH(32)"
  then obtain q r where "i = 8 * q + r" "r < 8" "q < 4" using byte_index [of i 4] by auto
  then show "bit (EndianReverseU32 (EndianReverseU32 x)) i = bit x i"
    by (simp add: bit_EndianReverseU32)
qed

lemma EndianReverseU64_involution: "EndianReverseU64 (EndianReverseU64 x) = x"
proof (rule bit_word_eqI)
  fix i assume "i < LENGTH(64)"
  then obtain q r where "i = 8 * q + r" "r < 8" "q < 8" using byte_index [of i 8] by auto
  then show "bit (EndianReverseU64 (EndianReverseU64 x)) i = bit x i"
    by (simp add: bit_EndianReverseU64)
qed

lemma nth_PutUint64:
  "q < 8 \<Longrightarrow> r < 8 \<Longrightarrow> bit (LittleEndian_PutUint64 w ! q) r = bit w (8 * q + r)"
  "q < 8 \<Longrightarrow> r < 8 \<Longrightarrow> bit (BigEndian_PutUint64 w ! q) r = bit w (8 * (7 - q) + r)"
  by (simp_all add: LittleEndian_PutUint64_def BigEndian_PutUint64_def bit_ucast_iff
        bit_drop_bit_eq diff_mult_distrib2)

lemma EndianReverseU64_bytes:
  "LittleEndian_PutUint64 (EndianReverseU64 w) = BigEndian_PutUint64 w"
  by (rule nth_equalityI)
     (simp_all add: LittleEndian_PutUint64_def BigEndian_PutUint64_def,
      rule bit_word_eqI, simp add: bit_ucast_iff bit_drop_bit_eq bit_EndianReverseU64 diff_mult_distrib2)

section \<open>Bytes of a digest\<close>

lemma length_PutUint64 [simp]:
  "length (LittleEndian_PutUint64 w) = 8" "length (BigEndian_PutUint64 w) = 8"
  by (simp_all add: LittleEndian_PutUint64_def BigEndian_PutUint64_def)

lemma length_Bytes [simp]: "length (Bytes h) = 32" "length (BigEndianBytes h) = 32"
  by (simp_all add: Bytes_def BigEndianBytes_def Hash_def)

lemma upt_0_8: "[0..<8] = [0, 1, 2, 3, 4, 5, 6, 7 :: nat]"
  by (simp add: upt_rec)

lemma bit_byte_high: "8 \<le> i \<Longrightarrow> \<not> bit (b :: u8) i"
  by (auto dest: bit_imp_le_length)

lemma bit_LittleEndian_Uint64:
  assumes "r < 8" "q < 8"
  shows "bit (LittleEndian_Uint64 bs) (8 * q + r) = bit (bs ! q) r"
proof -
  from assms(2) consider "q = 0" | "q = 1" | "q = 2" | "q = 3" | "q = 4" | "q = 5" | "q = 6" | "q = 7"
    by linarith
  then show ?thesis
    using assms(1)
    by cases (simp_all add: LittleEndian_Uint64_def upt_0_8 byte_bits bit_ucast_iff bit_byte_high)
qed

lemma LittleEndian_roundtrip: "LittleEndian_Uint64 (LittleEndian_PutUint64 w) = w"
proof (rule bit_word_eqI)
  fix i assume "i < LENGTH(64)"
  then obtain q r where "i = 8 * q + r" "r < 8" "q < 8" using byte_index [of i 8] by auto
  then show "bit (LittleEndian_Uint64 (LittleEndian_PutUint64 w)) i = bit w i"
    by (simp add: bit_LittleEndian_Uint64 nth_PutUint64)
qed

lemma LittleEndian_roundtrip_bytes:
  "length bs = 8 \<Longrightarrow> LittleEndian_PutUint64 (LittleEndian_Uint64 bs) = bs"
  by (rule nth_equalityI, simp)
     (rule bit_word_eqI, simp add: nth_PutUint64 bit_LittleEndian_Uint64)

lemma Bytes_split:
  "take 8 (Bytes h) = LittleEndian_PutUint64 (Hash0 h)"
  "take 8 (drop 8 (Bytes h)) = LittleEndian_PutUint64 (Hash1 h)"
  "take 8 (drop 16 (Bytes h)) = LittleEndian_PutUint64 (Hash2 h)"
  "take 8 (drop 24 (Bytes h)) = LittleEndian_PutUint64 (Hash3 h)"
  by (simp_all add: Bytes_def Hash_def)

lemma NewSha256Byte_Bytes: "NewSha256Byte (Bytes h) = Inr h"
  by (simp add: NewSha256Byte_def Bytes_split LittleEndian_roundtrip)

lemma Bytes_NewSha256Byte:
  assumes "length s = 32" "NewSha256Byte s = Inr h"
  shows "Bytes h = s"
proof -
  have "s = take 8 s @ take 8 (drop 8 s) @ take 8 (drop 16 s) @ take 8 (drop 24 s)"
    (is "s = ?a @ ?b @ ?c @ ?d")
  proof -
    have split: "drop n s = take 8 (drop n s) @ drop (n + 8) s" for n
      by (metis add.commute append_take_drop_id drop_drop)
    have "s = ?a @ drop 8 s" by simp
    also have "drop 8 s = ?b @ drop 16 s" using split [of 8] by simp
    also have "drop 16 s = ?c @ drop 24 s" using split [of 16] by simp
    also have "drop 24 s = ?d" using assms(1) by simp
    finally show ?thesis .
  qed
  with assms show ?thesis
    by (auto simp: NewSha256Byte_def Bytes_def Hash_def LittleEndian_roundtrip_bytes)
qed

lemma Bytes_inject: "Bytes h = Bytes h' \<longleftrightarrow> h = h'"
  by (metis NewSha256Byte_Bytes sum.inject(2))

section \<open>Order\<close>

lemma compare_words_range: "compare_words as bs \<in> {- 1, 0, 1}"
  by (induction as bs rule: compare_words.induct) auto

lemma compare_words_antisym: "compare_words as bs = - compare_words bs as"
  by (induction as bs rule: compare_words.induct) (auto simp: not_less_iff_gr_or_eq)

lemma compare_words_eq: "length as = length bs \<Longrightarrow> compare_words as bs = 0 \<longleftrightarrow> as = bs"
  by (induction as bs rule: compare_words.induct) auto

lemma compare_words_trans:
  "compare_words as bs \<le> 0 \<Longrightarrow> compare_words bs cs \<le> 0 \<Longrightarrow>
   length as = length bs \<Longrightarrow> length bs = length cs \<Longrightarrow> compare_words as cs \<le> 0"
  by (induction as bs arbitrary: cs rule: compare_words.induct)
     (auto simp: Suc_length_conv split: if_splits)

lemma length_Hash [simp]: "length (Hash h) = 4"
  by (simp add: Hash_def)

lemma Hash_inject: "Hash a = Hash b \<longleftrightarrow> a = b"
  by (auto simp: Hash_def intro: Sha256.equality)

lemma Sha256_Equals_iff: "Sha256_Equals a b \<longleftrightarrow> a = b"
  by (auto simp: Sha256_Equals_def intro: Sha256.equality)

lemma Sha256Compare_eq: "Sha256Compare a b = 0 \<longleftrightarrow> a = b"
  by (simp add: Sha256Compare_def compare_words_eq Hash_inject)

lemma Sha256Compare_antisym: "Sha256Compare a b = - Sha256Compare b a"
  unfolding Sha256Compare_def by (rule compare_words_antisym)

lemma Sha256Compare_trans:
  "Sha256Compare a b \<le> 0 \<Longrightarrow> Sha256Compare b c \<le> 0 \<Longrightarrow> Sha256Compare a c \<le> 0"
  unfolding Sha256Compare_def by (rule compare_words_trans [of _ "Hash b"]) simp_all

lemma Sha256_IsEmpty_False: "\<not> Sha256_IsEmpty h"
  by (simp add: Sha256_IsEmpty_def)

end
