(* ===== verification/Eos_Containers.thy ===== *)
theory Eos_Containers
  imports Eos_RBTree Eos_Name Eos_Crypto
begin

text \<open>
  The ordered containers of the node: the comparators of \<open>src/common/name.go\<close>,
  \<open>src/crypto/sha256.go\<close> and \<open>src/libraries/container\<close> satisfy the interface the red-black
  tree expects, so the generated maps (\<open>AccountNameUint32Map\<close> and its siblings in
  \<open>src/chain/types/generated_containers\<close>) are finite maps in key order.
\<close>

section \<open>Comparators of the node\<close>

definition UInt32Comparator :: "u32 \<Rightarrow> u32 \<Rightarrow> int" where
  "UInt32Comparator a b = (if a > b then 1 else if a < b then - 1 else 0)"

fun string_diff :: "u8 list \<Rightarrow> u8 list \<Rightarrow> int" where
  "string_diff (a # s1) (b # s2) =
     (let diff = uint a - uint b in if diff = 0 then string_diff s1 s2 else diff)"
| "string_diff _ _ = 0"

definition StringComparator :: "u8 list \<Rightarrow> u8 list \<Rightarrow> int" where
  "StringComparator s1 s2 =
     (let diff = string_diff s1 s2;
          diff = (if diff = 0 then int (length s1) - int (length s2) else diff)
      in if diff < 0 then - 1 else if diff > 0 then 1 else 0)"

definition IntComparator :: "int \<Rightarrow> int \<Rightarrow> int" where
  "IntComparator a b = (if a > b then 1 else if a < b then - 1 else 0)"

lemma StringComparator_Cons:
  "StringComparator (a # s1) (b # s2) =
     (if a < b then - 1 else if a > b then 1 else StringComparator s1 s2)"
  by (auto simp: StringComparator_def Let_def word_less_def)

lemma StringComparator_Nil:
  "StringComparator [] s = (if s = [] then 0 else - 1)" "StringComparator s [] = (if s = [] then 0 else 1)"
  by (cases s; simp add: StringComparator_def)+

interpretation string_order: key_ordering StringComparator
proof
  fix x y z
  show "StringComparator x y < 0 \<longleftrightarrow> StringComparator y x > 0"
    by (induction x y rule: string_diff.induct)
       (auto simp: StringComparator_Cons StringComparator_Nil)
  show "StringComparator x y \<le> 0 \<Longrightarrow> StringComparator y z \<le> 0 \<Longrightarrow> StringComparator x z \<le> 0"
  proof (induction x y arbitrary: z rule: string_diff.induct)
    case (1 a s1 b s2)
    then show ?case by (cases z) (auto simp: StringComparator_Cons StringComparator_Nil split: if_splits)
  qed (auto simp: StringComparator_Nil split: if_splits)
  show "StringComparator x y = 0 \<Longrightarrow> x = y"
    by (induction x y rule: string_diff.induct)
       (auto simp: StringComparator_Cons StringComparator_Nil split: if_splits)
qed

interpretation int_order: key_ordering IntComparator
  by unfold_locales (auto simp: IntComparator_def split: if_splits)

interpretation name_order: key_ordering CompareName
  by unfold_locales (auto simp: CompareName_def split: if_splits)

interpretation uint32_order: key_ordering UInt32Comparator
  by unfold_locales (auto simp: UInt32Comparator_def split: if_splits)

interpretation sha_order: key_ordering Sha256Compare
proof
  show "Sha256Compare x y < 0 \<longleftrightarrow> Sha256Compare y x > 0" for x y
    using Sha256Compare_antisym [of x y] by simp
  show "Sha256Compare x y \<le> 0 \<Longrightarrow> Sha256Compare y z \<le> 0 \<Longrightarrow> Sha256Compare x z \<le> 0" for x y z
    by (rule Sha256Compare_trans)
  show "Sha256Compare x y = 0 \<Longrightarrow> x = y" for x y
    by (simp add: Sha256Compare_eq)
qed

type_synonym AccountNameUint32Map = "(eos_name, u32) Tree"

definition NewAccountNameUint32Map :: AccountNameUint32Map where
  "NewAccountNameUint32Map = NewWith False"

definition AccountNameUint32Map_Put :: "AccountNameUint32Map \<Rightarrow> eos_name \<Rightarrow> u32 \<Rightarrow> AccountNameUint32Map result" where
  "AccountNameUint32Map_Put m key value = Put CompareName m key value"

definition AccountNameUint32Map_Get :: "AccountNameUint32Map \<Rightarrow> eos_name \<Rightarrow> u32 option" where
  "AccountNameUint32Map_Get m key = map_option (\<lambda>loc. Value (fst loc)) (Get CompareName m key)"

definition AccountNameUint32Map_Remove :: "AccountNameUint32Map \<Rightarrow> eos_name \<Rightarrow> AccountNameUint32Map result" where
  "AccountNameUint32Map_Remove m key = Remove_unique CompareName m key"

definition AccountNameUint32Map_Values :: "AccountNameUint32Map \<Rightarrow> u32 list result option" where
  "AccountNameUint32Map_Values m = Values 0 m"

abbreviation name_map :: "AccountNameUint32Map \<Rightarrow> bool" where
  "name_map \<equiv> unique_tree CompareName"

lemmas name_map_defs = AccountNameUint32Map_Put_def AccountNameUint32Map_Get_def
  AccountNameUint32Map_Remove_def AccountNameUint32Map_Values_def

lemma name_map_New: "name_map NewAccountNameUint32Map" "tree_map NewAccountNameUint32Map = Map.empty"
  by (auto simp: NewAccountNameUint32Map_def tree_ok_NewWith) (simp add: tree_map_def NewWith_def)

lemma name_map_Put:
  assumes "name_map m"
  obtains m' where "AccountNameUint32Map_Put m k v = Inr m'" "name_map m'"
    "tree_map m' = (tree_map m)(k \<mapsto> v)"
  using name_order.Put_map [OF assms] by (metis name_map_defs(1))

lemma name_map_Get: "name_map m \<Longrightarrow> AccountNameUint32Map_Get m k = tree_map m k"
  by (simp add: name_map_defs name_order.Get_map)

lemma name_map_Remove:
  assumes "name_map m"
  obtains m' where "AccountNameUint32Map_Remove m k = Inr m'" "name_map m'"
    "tree_map m' = (tree_map m)(k := None)"
  using name_order.Remove_map [OF assms] by (metis name_map_defs(3))

lemma name_map_Values:
  "name_map m \<Longrightarrow> AccountNameUint32Map_Values m = Some (Inr (map snd (inorder (Root m))))"
  by (simp add: name_map_defs Keys_Values_inorder unique_tree_def tree_ok_def)

section \<open>Properties\<close>

text \<open>
  C26. Insertion into a red-black tree, for every comparator that is a total order: on a
  well-formed tree it does not panic, keeps the colour, height, order and size invariant,
  and on the in-order sequence it is sorted insertion: an equal key is overwritten in a
  tree with unique keys and follows its equals in a multi tree.
\<close>

theorem tree_put_correct:
  assumes "ordering cmp" "tree_ok cmp tree"
  shows "\<exists>tree' new. put cmp tree k v = Inr (tree', new) \<and> tree_ok cmp tree' \<and>
     isMulti tree' = isMulti tree \<and>
     inorder (Root tree') = insert_entry cmp (isMulti tree) k v (inorder (Root tree)) \<and>
     (new \<longleftrightarrow> isMulti tree \<or> (\<forall>e \<in> set (inorder (Root tree)). cmp k (fst e) \<noteq> 0))"
  using ordering.put_ok [OF assms] .

theorem tree_put_correct_witness:
  "\<exists>tree' new. put CompareName (NewWith False) 7 (1 :: u32) = Inr (tree', new) \<and>
     tree_ok CompareName tree' \<and> inorder (Root tree') = [(7, 1)] \<and> new"
  using tree_put_correct [of CompareName "NewWith False" 7 1] name_order.ordering_axioms
    tree_ok_NewWith(1) [of CompareName False]
  by (auto simp: NewWith_def insert_entry_def)

text \<open>
  C10. Deletion from a tree with unique keys, for every comparator that is a total order: on a
  well-formed tree it does not panic, keeps the invariant, and removes exactly the entry
  whose key compares equal.
\<close>

theorem tree_remove_correct:
  assumes "ordering cmp" "tree_ok cmp tree" "\<not> isMulti tree"
  shows "\<exists>tree'. Remove_unique cmp tree k = Inr tree' \<and> tree_ok cmp tree' \<and> \<not> isMulti tree' \<and>
     inorder (Root tree') = filter (\<lambda>e. cmp k (fst e) \<noteq> 0) (inorder (Root tree))"
  using ordering.Remove_unique_ok [OF assms] .

theorem tree_remove_correct_witness:
  "\<exists>tree'. Remove_unique CompareName (NewWith False :: AccountNameUint32Map) 7 = Inr tree' \<and>
     tree_ok CompareName tree' \<and> inorder (Root tree') = []"
  using tree_remove_correct [of CompareName "NewWith False :: AccountNameUint32Map" 7]
    name_order.ordering_axioms tree_ok_NewWith(1) [of CompareName False]
  by (auto simp: NewWith_def)

text \<open>
  The bounds of a well-formed tree: \<open>LowerBound\<close> points to the first entry in order whose
  key is not less than the given key, \<open>UpperBound\<close> to the first whose key is greater, and both
  return the end when there is none; the search path is at most twice the binary
  logarithm of the number of entries.
\<close>

theorem tree_bounds_correct:
  assumes "ordering cmp" "tree_ok cmp tree"
  shows "map_option entry (LowerBound cmp tree k) = find (\<lambda>e. cmp k (fst e) \<le> 0) (inorder (Root tree))
    \<and> map_option entry (UpperBound cmp tree k) = find (\<lambda>e. cmp k (fst e) < 0) (inorder (Root tree))
    \<and> 2 ^ ((height (Root tree) + 1) div 2) \<le> length (inorder (Root tree)) + 1"
proof (intro conjI)
  have ord: "ordered cmp (isMulti tree) (inorder (Root tree))" and bal: "rbt (Root tree)"
    using assms(2) by (auto simp: tree_ok_def)
  show "map_option entry (LowerBound cmp tree k) = find (\<lambda>e. cmp k (fst e) \<le> 0) (inorder (Root tree))"
    unfolding LowerBound_def ordering.LowerBound_loop_find [OF assms(1) ord] by (simp split: option.split)
  show "map_option entry (UpperBound cmp tree k) = find (\<lambda>e. cmp k (fst e) < 0) (inorder (Root tree))"
    unfolding UpperBound_def ordering.UpperBound_loop_find [OF assms(1) ord] by (simp split: option.split)
  have "(height (Root tree) + 1) div 2 \<le> bheight (Root tree)"
    using height_bheight [of "Root tree"] bal by (simp add: rbt_def)
  then have "(2 :: nat) ^ ((height (Root tree) + 1) div 2) \<le> 2 ^ bheight (Root tree)"
    by (simp add: power_increasing)
  also have "\<dots> \<le> length (inorder (Root tree)) + 1"
    using bheight_size [of "Root tree"] bal by (simp add: rbt_def)
  finally show "2 ^ ((height (Root tree) + 1) div 2) \<le> length (inorder (Root tree)) + 1" .
qed

theorem tree_bounds_correct_witness:
  "map_option entry (LowerBound CompareName (NewWith True :: AccountNameUint32Map) 7) = None"
  using tree_bounds_correct [of CompareName "NewWith True :: AccountNameUint32Map" 7]
    name_order.ordering_axioms tree_ok_NewWith(1) [of CompareName True]
  by (auto simp: NewWith_def)

text \<open>
  C27. The account map is a finite map: in every well-formed map, \<open>Put\<close> succeeds and updates one
  key, \<open>Remove\<close> succeeds and forgets one key, both keep the map well-formed, \<open>Get\<close> looks a key up,
  and \<open>Values\<close> returns and lists the values in key order; the new map is well-formed and empty.
\<close>

theorem account_map_laws:
  "name_map NewAccountNameUint32Map \<and> tree_map NewAccountNameUint32Map = Map.empty \<and>
   (name_map m \<longrightarrow>
      (\<exists>m'. AccountNameUint32Map_Put m k v = Inr m' \<and> name_map m' \<and> tree_map m' = (tree_map m)(k \<mapsto> v)) \<and>
      (\<exists>m'. AccountNameUint32Map_Remove m k = Inr m' \<and> name_map m' \<and> tree_map m' = (tree_map m)(k := None)) \<and>
      AccountNameUint32Map_Get m k = tree_map m k \<and>
      (\<exists>es. AccountNameUint32Map_Values m = Some (Inr (map snd es)) \<and> map_of es = tree_map m \<and>
            sorted_wrt (<) (map fst es)))"
proof (intro conjI impI)
  assume m: "name_map m"
  show "\<exists>m'. AccountNameUint32Map_Put m k v = Inr m' \<and> name_map m' \<and> tree_map m' = (tree_map m)(k \<mapsto> v)"
    using name_map_Put [OF m] by metis
  show "\<exists>m'. AccountNameUint32Map_Remove m k = Inr m' \<and> name_map m' \<and> tree_map m' = (tree_map m)(k := None)"
    using name_map_Remove [OF m] by metis
  show "AccountNameUint32Map_Get m k = tree_map m k" by (rule name_map_Get [OF m])
  have "sorted_wrt (<) (map fst (inorder (Root m)))"
    using m by (auto simp: unique_tree_def tree_ok_def ordered_def sorted_wrt_map CompareName_def
        elim!: sorted_wrt_mono_rel [rotated] split: if_splits)
  then show "\<exists>es. AccountNameUint32Map_Values m = Some (Inr (map snd es)) \<and> map_of es = tree_map m \<and>
            sorted_wrt (<) (map fst es)"
    using name_map_Values [OF m] by (auto simp: tree_map_def)
qed (rule name_map_New)+

theorem account_map_laws_witness:
  "\<exists>m'. AccountNameUint32Map_Put NewAccountNameUint32Map 7 1 = Inr m' \<and> tree_map m' 7 = Some 1"
  using account_map_laws [of NewAccountNameUint32Map 7 1] by auto

end
