(* ===== verification/Eos_Merkle.thy ===== *)
theory Eos_Merkle
  imports Eos_Crypto
begin

unbundle bit_operations_syntax

text \<open>
  The Merkle trees of \<open>src/chain/types/incremental_merkle.go\<close>: the batch routine \<open>Merkle\<close>,
  which collapses a slice in place level by level, and the incremental tree, which keeps
  only the roots of its full subtrees and recomputes the root on \<open>Append\<close>. The hash of a
  canonical pair is the parameter \<open>H\<close> (\<open>crypto.Hash256\<close> of the encoded pair): the results
  hold for every function. Shown: the bit tricks compute the depth of the tree, the
  in-place loop computes the level above, and appending digests one by one never reads
  outside the active nodes and ends with the root of the batch routine.
\<close>

section \<open>Model\<close>

type_synonym pair_hash = "DigestType \<times> DigestType \<Rightarrow> DigestType"

record IncrementalMerkle =
  NodeCount :: u64
  ActiveNodes :: "DigestType list"

definition makeCanonicalLeft :: "DigestType \<Rightarrow> DigestType" where
  "makeCanonicalLeft val = val\<lparr>Hash0 := Hash0 val AND 0xFFFFFFFFFFFFFF7F\<rparr>"

definition makeCanonicalRight :: "DigestType \<Rightarrow> DigestType" where
  "makeCanonicalRight val = val\<lparr>Hash0 := Hash0 val OR 0x0000000000000080\<rparr>"

definition makeCanonicalPair :: "DigestType \<Rightarrow> DigestType \<Rightarrow> DigestType \<times> DigestType" where
  "makeCanonicalPair l r = (makeCanonicalLeft l, makeCanonicalRight r)"

definition isCanonicalLeft :: "DigestType \<Rightarrow> bool" where
  "isCanonicalLeft val \<longleftrightarrow> Hash0 val AND 0x0000000000000080 = 0"

definition isCanonicalRight :: "DigestType \<Rightarrow> bool" where
  "isCanonicalRight val \<longleftrightarrow> Hash0 val AND 0x0000000000000080 \<noteq> 0"

definition nextPowerOf2 :: "u64 \<Rightarrow> u64" where
  "nextPowerOf2 value =
     (let value = value - 1;
          value = value OR drop_bit 1 value;
          value = value OR drop_bit 2 value;
          value = value OR drop_bit 4 value;
          value = value OR drop_bit 8 value;
          value = value OR drop_bit 16 value;
          value = value OR drop_bit 32 value
      in value + 1)"

definition clzPower2 :: "u64 \<Rightarrow> int" where
  "clzPower2 value =
     (let lz = 64;
          lz = (if value > 0 then lz - 1 else lz);
          lz = (if value AND 0x00000000FFFFFFFF > 0 then lz - 32 else lz);
          lz = (if value AND 0x0000FFFF0000FFFF > 0 then lz - 16 else lz);
          lz = (if value AND 0x00FF00FF00FF00FF > 0 then lz - 8 else lz);
          lz = (if value AND 0x0F0F0F0F0F0F0F0F > 0 then lz - 4 else lz);
          lz = (if value AND 0x3333333333333333 > 0 then lz - 2 else lz);
          lz = (if value AND 0x5555555555555555 > 0 then lz - 1 else lz)
      in lz)"

definition calculateMaxDepth :: "u64 \<Rightarrow> int" where
  "calculateMaxDepth nodeCount =
     (if nodeCount = 0 then 0 else clzPower2 (nextPowerOf2 nodeCount) + 1)"

definition GetRoot :: "IncrementalMerkle \<Rightarrow> DigestType result" where
  "GetRoot m =
     (if NodeCount m > 0
      then (if ActiveNodes m = [] then Inl GoPanic else Inr (last (ActiveNodes m)))
      else Inr NewSha256Nil)"

text \<open>
  The loop of \<open>Append\<close>, by recursion on \<open>currentDepth\<close>; the other local variables are its
  state. Reading past the end of \<open>ActiveNodes\<close> panics.
\<close>

primrec Append_loop ::
  "pair_hash \<Rightarrow> DigestType list \<Rightarrow> nat \<Rightarrow> bool \<Rightarrow> u64 \<Rightarrow> DigestType \<Rightarrow> nat \<Rightarrow> DigestType list
    \<Rightarrow> DigestType list result" where
  "Append_loop H active 0 partial index topNode activeIter updateActiveNodes =
     Inr (updateActiveNodes @ [topNode])"
| "Append_loop H active (Suc currentDepth) partial index topNode activeIter updateActiveNodes =
     (if index AND 0x1 = 0 then
        Append_loop H active currentDepth True (drop_bit 1 index)
          (H (makeCanonicalPair topNode topNode)) activeIter
          (if \<not> partial then updateActiveNodes @ [topNode] else updateActiveNodes)
      else if activeIter < length active then
        (let leftValue = active ! activeIter in
         Append_loop H active currentDepth partial (drop_bit 1 index)
           (H (makeCanonicalPair leftValue topNode)) (activeIter + 1)
           (if partial then updateActiveNodes @ [leftValue] else updateActiveNodes))
      else Inl GoPanic)"

definition Append :: "pair_hash \<Rightarrow> IncrementalMerkle \<Rightarrow> DigestType
    \<Rightarrow> (IncrementalMerkle \<times> DigestType) result" where
  "Append H m digest =
     (let maxDepth = calculateMaxDepth (NodeCount m + 1);
          currentDepth = maxDepth - 1
      in rbind (Append_loop H (ActiveNodes m) (nat currentDepth) False (NodeCount m) digest 0 [])
           (\<lambda>updateActiveNodes.
              let m = \<lparr>NodeCount = NodeCount m + 1, ActiveNodes = updateActiveNodes\<rparr>
              in Inr (m, last (ActiveNodes m))))"

text \<open>One round of \<open>Merkle\<close>: duplicate the last digest of an odd slice, then hash in place.\<close>

definition Merkle_round :: "pair_hash \<Rightarrow> DigestType list \<Rightarrow> DigestType list" where
  "Merkle_round H ids =
     (let ids = (if length ids mod 2 > 0 then ids @ [ids ! (length ids - 1)] else ids);
          ids = fold (\<lambda>i ids. ids[i := H (makeCanonicalPair (ids ! (2 * i)) (ids ! (2 * i + 1)))])
                  [0..<length ids div 2] ids
      in take (length ids div 2) ids)"

lemma length_Merkle_round: "length (Merkle_round H ids) = (length ids + 1) div 2"
  by (simp add: Merkle_round_def Let_def) presburger

function Merkle_loop :: "pair_hash \<Rightarrow> DigestType list \<Rightarrow> DigestType list" where
  "Merkle_loop H ids = (if length ids > 1 then Merkle_loop H (Merkle_round H ids) else ids)"
  by auto
termination
  by (relation "measure (\<lambda>(H, ids). length ids)") (auto simp: length_Merkle_round)

declare Merkle_loop.simps [simp del]

definition Merkle :: "pair_hash \<Rightarrow> DigestType list \<Rightarrow> DigestType" where
  "Merkle H ids = (if length ids = 0 then NewSha256Nil else Merkle_loop H ids ! 0)"

definition IncrementalMerkle_IsEmpty :: "IncrementalMerkle \<Rightarrow> bool" where
  "IncrementalMerkle_IsEmpty i \<longleftrightarrow> NodeCount i = 0 \<and> length (ActiveNodes i) = 0"

text \<open>The zero value of the struct, and appending a sequence of digests to it.\<close>

definition emptyMerkle :: IncrementalMerkle where
  "emptyMerkle = \<lparr>NodeCount = 0, ActiveNodes = []\<rparr>"

primrec Append_all :: "pair_hash \<Rightarrow> IncrementalMerkle \<Rightarrow> DigestType list \<Rightarrow> IncrementalMerkle result" where
  "Append_all H m [] = Inr m"
| "Append_all H m (d # ds) = rbind (Append H m d) (\<lambda>(m, _). Append_all H m ds)"

section \<open>Depth of the tree\<close>

fun bitlen :: "nat \<Rightarrow> nat" where
  "bitlen n = (if n = 0 then 0 else Suc (bitlen (n div 2)))"

declare bitlen.simps [simp del]

lemma bitlen_0 [simp]: "bitlen 0 = 0"
  by (simp add: bitlen.simps)

lemma bitlen_pos: "0 < n \<Longrightarrow> bitlen n = Suc (bitlen (n div 2))"
  by (subst bitlen.simps) simp

lemma less_bitlen_iff: "i < bitlen n \<longleftrightarrow> 2 ^ i \<le> n"
proof (induction n arbitrary: i rule: less_induct)
  case (less n)
  show ?case
  proof (cases "n = 0")
    case False
    then show ?thesis
      using less.IH [of "n div 2"] by (cases i) (auto simp: bitlen_pos less_eq_div_iff_mult_less_eq mult.commute)
  qed simp
qed

lemma bitlen_unat_le: "bitlen (unat (x :: 'a::len word)) \<le> LENGTH('a)"
  using less_bitlen_iff [of "LENGTH('a)" "unat x"] unat_less_exp [of x] by (simp add: not_le [symmetric])

definition smeared :: "u64 \<Rightarrow> nat \<Rightarrow> u64 \<Rightarrow> bool" where
  "smeared x k y \<longleftrightarrow> (\<forall>i. bit y i \<longleftrightarrow> (\<exists>j<k. bit x (i + j)))"

lemma smeared_1: "smeared x 1 x"
  by (simp add: smeared_def)

lemma smeared_step:
  assumes "smeared x k y"
  shows "smeared x (2 * k) (y OR drop_bit k y)"
  unfolding smeared_def
proof
  fix i
  have "(\<exists>j<2 * k. bit x (i + j)) \<longleftrightarrow> (\<exists>j<k. bit x (i + j)) \<or> (\<exists>j<k. bit x (i + (k + j)))"
  proof -
    have "j < 2 * k \<longleftrightarrow> j < k \<or> (\<exists>j'<k. j = k + j')" for j
      by (metis add_less_cancel_left mult_2 le_add_diff_inverse linorder_not_less trans_less_add1)
    then show ?thesis by auto
  qed
  with assms show "bit (y OR drop_bit k y) i \<longleftrightarrow> (\<exists>j<2 * k. bit x (i + j))"
    by (simp add: smeared_def bit_or_iff bit_drop_bit_eq add.assoc add.left_commute)
qed

lemma smeared_64:
  assumes "smeared x 64 y"
  shows "y = mask (bitlen (unat x))"
proof (rule bit_word_eqI)
  fix i assume "i < LENGTH(64)"
  have "(\<exists>j<64. bit x (i + j)) \<longleftrightarrow> drop_bit i x \<noteq> 0"
    by (auto simp: bit_eq_iff bit_drop_bit_eq dest: bit_imp_le_length)
  also have "\<dots> \<longleftrightarrow> unat (drop_bit i x) \<noteq> 0" by (simp add: unat_eq_zero)
  also have "\<dots> \<longleftrightarrow> i < bitlen (unat x)"
    by (simp add: unat_drop_bit less_bitlen_iff div_eq_0_iff not_less)
  finally show "bit y i = bit (mask (bitlen (unat x)) :: u64) i"
    using assms \<open>i < LENGTH(64)\<close> by (simp add: smeared_def bit_mask_iff)
qed

lemma nextPowerOf2_eq: "nextPowerOf2 (x + 1) = 2 ^ bitlen (unat x)"
proof -
  let ?a = "x OR drop_bit 1 x" let ?b = "?a OR drop_bit 2 ?a" let ?c = "?b OR drop_bit 4 ?b"
  let ?d = "?c OR drop_bit 8 ?c" let ?e = "?d OR drop_bit 16 ?d"
  have "smeared x 2 ?a" using smeared_step [OF smeared_1] by simp
  then have "smeared x 4 ?b" by (auto dest: smeared_step)
  then have "smeared x 8 ?c" by (auto dest: smeared_step)
  then have "smeared x 16 ?d" by (auto dest: smeared_step)
  then have "smeared x 32 ?e" by (auto dest: smeared_step)
  then have "smeared x 64 (?e OR drop_bit 32 ?e)" by (auto dest: smeared_step)
  then have "?e OR drop_bit 32 ?e = mask (bitlen (unat x))" by (rule smeared_64)
  then show ?thesis by (simp add: nextPowerOf2_def Let_def mask_eq_exp_minus_1)
qed

lemma exp_and_pos: "(0 < (2 ^ k AND c :: u64)) \<longleftrightarrow> bit c k"
  by (simp add: word_gt_0 and.commute [of _ c] and_exp_eq_0_iff_not_bit)

lemma upt_0_64: "[0..<64] = 0 # 1 # [2..<64]"
  by (simp add: upt_conv_Cons numeral_2_eq_2)

lemma clzPower2_exp:
  assumes "k \<le> 64"
  shows "clzPower2 (2 ^ k) = int k"
proof (cases "k = 64")
  case True
  then show ?thesis by (simp add: clzPower2_def Let_def)
next
  case False
  define f :: "nat \<Rightarrow> int" where "f k =
     63 - (if bit (0x00000000FFFFFFFF :: u64) k then 32 else 0)
      - (if bit (0x0000FFFF0000FFFF :: u64) k then 16 else 0)
      - (if bit (0x00FF00FF00FF00FF :: u64) k then 8 else 0)
      - (if bit (0x0F0F0F0F0F0F0F0F :: u64) k then 4 else 0)
      - (if bit (0x3333333333333333 :: u64) k then 2 else 0)
      - (if bit (0x5555555555555555 :: u64) k then 1 else 0)" for k
  have "0 < (2 ^ k :: u64)" using False assms by (simp add: word_gt_0)
  then have "clzPower2 (2 ^ k) = f k"
    unfolding clzPower2_def exp_and_pos Let_def f_def by simp
  moreover have "list_all (\<lambda>k. f k = int k) [0..<64]"
    unfolding upt_0_64 by (simp add: upt_rec_numeral) (simp add: f_def)
  moreover have "k \<in> set [0..<64]" using assms False by simp
  ultimately show ?thesis by (simp only: list_all_iff)
qed

lemma calculateMaxDepth_eq:
  assumes "x + 1 \<noteq> 0"
  shows "calculateMaxDepth (x + 1) = int (bitlen (unat x)) + 1"
  using assms bitlen_unat_le [of x]
  by (simp add: calculateMaxDepth_def nextPowerOf2_eq clzPower2_exp)

section \<open>The batch routine\<close>

text \<open>The reference definition: one level up is the list of the hashes of adjacent pairs.\<close>

fun pair_up :: "(DigestType \<Rightarrow> DigestType \<Rightarrow> DigestType) \<Rightarrow> DigestType list \<Rightarrow> DigestType list" where
  "pair_up c [] = []"
| "pair_up c [x] = [c x x]"
| "pair_up c (x # y # zs) = c x y # pair_up c zs"

definition node :: "pair_hash \<Rightarrow> DigestType \<Rightarrow> DigestType \<Rightarrow> DigestType" where
  "node H l r = H (makeCanonicalPair l r)"

lemma length_pair_up [simp]: "length (pair_up c xs) = (length xs + 1) div 2"
  by (induction c xs rule: pair_up.induct) auto

lemma nth_pair_up: "even (length xs) \<Longrightarrow> i < length xs div 2 \<Longrightarrow>
    pair_up c xs ! i = c (xs ! (2 * i)) (xs ! (2 * i + 1))"
  by (induction c xs arbitrary: i rule: pair_up.induct) (auto simp: nth_Cons split: nat.splits)

lemma pair_up_snoc_even: "even (length xs) \<Longrightarrow> pair_up c (xs @ [x]) = pair_up c xs @ [c x x]"
  by (induction c xs rule: pair_up.induct) auto

lemma pair_up_snoc_odd: "even (length xs) \<Longrightarrow> pair_up c (xs @ [y, x]) = pair_up c xs @ [c y x]"
  by (induction c xs rule: pair_up.induct) auto

lemma in_place_pairs:
  "2 * n \<le> length xs \<Longrightarrow>
   fold (\<lambda>i ids. ids[i := c (ids ! (2 * i)) (ids ! (2 * i + 1))]) [0..<n] xs ! i =
     (if i < n then c (xs ! (2 * i)) (xs ! (2 * i + 1)) else xs ! i)"
proof (induction n arbitrary: i)
  case (Suc n)
  then show ?case by (cases "i = n") auto
qed simp

lemma Merkle_round_eq: "ids \<noteq> [] \<Longrightarrow> Merkle_round H ids = pair_up (node H) ids"
proof -
  assume ne: "ids \<noteq> []"
  define xs where "xs = (if length ids mod 2 > 0 then ids @ [ids ! (length ids - 1)] else ids)"
  have even: "even (length xs)" by (auto simp: xs_def mod_2_eq_odd)
  have "Merkle_round H ids = pair_up (node H) xs"
    unfolding Merkle_round_def Let_def xs_def [symmetric] node_def [symmetric]
    using even in_place_pairs [of "length xs div 2" xs "node H"]
    by (intro nth_equalityI) (auto simp: nth_pair_up)
  also have "\<dots> = pair_up (node H) ids"
  proof (cases "odd (length ids)")
    case True
    then obtain ys y where "ids = ys @ [y]" "even (length ys)"
      by (cases ids rule: rev_cases) auto
    then show ?thesis by (simp add: xs_def pair_up_snoc_even pair_up_snoc_odd mod_2_eq_odd)
  qed (simp add: xs_def mod_2_eq_odd)
  finally show ?thesis .
qed

function mroot :: "(DigestType \<Rightarrow> DigestType \<Rightarrow> DigestType) \<Rightarrow> DigestType list \<Rightarrow> DigestType" where
  "mroot c xs = (if length xs > 1 then mroot c (pair_up c xs) else xs ! 0)"
  by auto
termination
  by (relation "measure (\<lambda>(c, xs). length xs)") auto

declare mroot.simps [simp del]

lemma mroot_single [simp]: "mroot c [x] = x"
  by (subst mroot.simps) simp

lemma mroot_step: "length xs > 1 \<Longrightarrow> mroot c xs = mroot c (pair_up c xs)"
  by (subst mroot.simps) simp

lemma Merkle_loop_eq: "ids \<noteq> [] \<Longrightarrow> Merkle_loop H ids = [mroot (node H) ids]"
proof (induction H ids rule: Merkle_loop.induct)
  case (1 H ids)
  show ?case
  proof (cases "length ids > 1")
    case True
    then have "Merkle_round H ids \<noteq> []"
      unfolding length_0_conv [symmetric] length_Merkle_round by simp
    with True have "Merkle_loop H ids = [mroot (node H) (Merkle_round H ids)]"
      by (subst Merkle_loop.simps) (simp add: 1)
    then show ?thesis using True "1.prems" by (simp add: mroot_step Merkle_round_eq)
  next
    case False
    with "1.prems" obtain x where "ids = [x]" by (cases ids) auto
    then show ?thesis by (subst Merkle_loop.simps) simp
  qed
qed

lemma Merkle_eq: "Merkle H ids = (if ids = [] then NewSha256Nil else mroot (node H) ids)"
  by (simp add: Merkle_def Merkle_loop_eq)

section \<open>The incremental tree\<close>

text \<open>
  The roots of the full subtrees of a level with the given full nodes, from the smallest
  subtree to the largest: what \<open>ActiveNodes\<close> must begin with.
\<close>

function full_roots :: "(DigestType \<Rightarrow> DigestType \<Rightarrow> DigestType) \<Rightarrow> DigestType list \<Rightarrow> DigestType list" where
  "full_roots c xs =
     (if xs = [] then []
      else if odd (length xs) then last xs # full_roots c (pair_up c (butlast xs))
      else full_roots c (pair_up c xs))"
  by auto
termination
  by (relation "measure (\<lambda>(c, xs). length xs)") (auto elim!: evenE dest: length_greater_0_conv [THEN iffD2])

declare full_roots.simps [simp del]

lemma full_roots_Nil [simp]: "full_roots c [] = []"
  by (simp add: full_roots.simps)

lemma full_roots_odd: "even (length xs) \<Longrightarrow> full_roots c (xs @ [x]) = x # full_roots c (pair_up c xs)"
  by (subst full_roots.simps) simp

lemma full_roots_even: "even (length xs) \<Longrightarrow> full_roots c xs = full_roots c (pair_up c xs)"
  by (cases "xs = []") (simp_all add: full_roots.simps [of c xs])

lemma word_half:
  "x AND 1 = 0 \<longleftrightarrow> even (unat x)" "unat (drop_bit (Suc 0) x) = unat x div 2" for x :: u64
  by (simp_all only: word_unat_eq_iff unsigned_and_eq unat_drop_bit)
     (simp_all add: and_one_eq mod_2_eq_odd)

lemma Append_loop_correct:
  assumes "unat index = length L" "drop it active = full_roots (node H) L @ s"
  shows "\<exists>s'. Append_loop H active (bitlen (length L)) partial index t it upd =
           Inr (upd @ (if partial then full_roots (node H) L else full_roots (node H) (L @ [t])) @ s') \<and>
         last (upd @ (if partial then full_roots (node H) L else full_roots (node H) (L @ [t])) @ s')
           = mroot (node H) (L @ [t])"
  using assms
proof (induction "length L" arbitrary: L partial index t it upd s rule: less_induct)
  case less
  let ?c = "node H"
  show ?case
  proof (cases "L = []")
    case True
    then show ?thesis
      using full_roots_odd [of "[]" ?c t] by (auto intro: exI [of _ "[t]"] exI [of _ "[]"])
  next
    case False
    then have depth: "bitlen (length L) = Suc (bitlen (length L div 2))"
      by (simp add: bitlen_pos)
    show ?thesis
    proof (cases "even (length L)")
      case True
      let ?L = "pair_up ?c L" and ?upd = "if \<not> partial then upd @ [t] else upd"
      have shorter: "length ?L < length L" and len: "unat (drop_bit 1 index) = length ?L"
        using False True less.prems(1) by (auto simp: word_half)
      have act: "drop it active = full_roots ?c ?L @ s"
        using less.prems(2) True by (simp add: full_roots_even [of L])
      have "Append_loop H active (bitlen (length L)) partial index t it upd =
            Append_loop H active (bitlen (length ?L)) True (drop_bit 1 index) (?c t t) it ?upd"
        using True less.prems(1) by (simp add: depth word_half node_def)
      with less.hyps [OF shorter len act, of True "?c t t" ?upd] show ?thesis
        using True False
        by (cases partial) (auto simp: full_roots_odd full_roots_even [of L] mroot_step
              pair_up_snoc_even)
    next
      case odd: False
      then obtain K l where L: "L = K @ [l]" "even (length K)"
        by (cases L rule: rev_cases) auto
      let ?L = "pair_up ?c K" and ?upd = "if partial then upd @ [l] else upd"
      have shorter: "length ?L < length L" and len: "unat (drop_bit 1 index) = length ?L"
        using L less.prems(1) by (auto simp: word_half)
      have act: "drop it active = l # full_roots ?c ?L @ s"
        using less.prems(2) L by (simp add: full_roots_odd)
      note it = drop_eq_ConsD [OF act]
      have "Append_loop H active (bitlen (length L)) partial index t it upd =
            Append_loop H active (bitlen (length ?L)) partial (drop_bit 1 index) (?c l t) (Suc it) ?upd"
        using L less.prems(1) it(1,2) depth by (simp add: word_half node_def)
      with less.hyps [OF shorter len it(3), of partial "?c l t" ?upd] show ?thesis
        using L
        by (cases partial) (auto simp: full_roots_odd full_roots_even [of "K @ [l, t]"] mroot_step
              pair_up_snoc_odd)
    qed
  qed
qed

lemma pair_up_Nil_iff [simp]: "pair_up c xs = [] \<longleftrightarrow> xs = []"
  by (cases "(c, xs)" rule: pair_up.cases) auto

lemma full_roots_ne: "xs \<noteq> [] \<Longrightarrow> full_roots c xs \<noteq> []"
proof (induction c xs rule: full_roots.induct)
  case (1 c xs)
  then show ?case by (subst full_roots.simps) auto
qed

text \<open>The invariant of the incremental tree: it stands for a sequence of appended digests.\<close>

definition represents :: "pair_hash \<Rightarrow> IncrementalMerkle \<Rightarrow> DigestType list \<Rightarrow> bool" where
  "represents H m xs \<longleftrightarrow>
     unat (NodeCount m) = length xs \<and>
     (\<exists>s. ActiveNodes m = full_roots (node H) xs @ s) \<and>
     (xs \<noteq> [] \<longrightarrow> last (ActiveNodes m) = mroot (node H) xs)"

lemma represents_empty: "represents H emptyMerkle []"
  by (simp add: represents_def emptyMerkle_def)

lemma GetRoot_represents: "represents H m xs \<Longrightarrow> GetRoot m = Inr (Merkle H xs)"
  by (cases "xs = []")
     (auto simp: represents_def GetRoot_def Merkle_eq word_gt_0 unat_eq_zero full_roots_ne
        dest: arg_cong [of _ 0 unat])

lemma Append_represents:
  assumes "represents H m xs" "length xs + 1 < 2 ^ 64"
  obtains m' where "Append H m d = Inr (m', Merkle H (xs @ [d]))" "represents H m' (xs @ [d])"
proof -
  have n: "unat (NodeCount m) = length xs" and n1: "unat (NodeCount m + 1) = length xs + 1"
    using assms by (simp_all add: represents_def unat_word_ariths)
  then have "NodeCount m + 1 \<noteq> 0" by auto
  then have depth: "nat (calculateMaxDepth (NodeCount m + 1) - 1) = bitlen (length xs)"
    using n by (simp add: calculateMaxDepth_eq)
  obtain s where "ActiveNodes m = full_roots (node H) xs @ s"
    using assms(1) by (auto simp: represents_def)
  then obtain s' where
    "Append_loop H (ActiveNodes m) (bitlen (length xs)) False (NodeCount m) d 0 [] =
       Inr (full_roots (node H) (xs @ [d]) @ s')"
    "last (full_roots (node H) (xs @ [d]) @ s') = mroot (node H) (xs @ [d])"
    using Append_loop_correct [OF n, of 0 "ActiveNodes m" H s False d "[]"] by auto
  with n1 depth show ?thesis
    by (intro that) (auto simp: Append_def Let_def represents_def Merkle_eq)
qed

lemma Append_all_represents:
  "represents H m xs \<Longrightarrow> length xs + length ds < 2 ^ 64 \<Longrightarrow>
    \<exists>m'. Append_all H m ds = Inr m' \<and> represents H m' (xs @ ds)"
proof (induction ds arbitrary: m xs)
  case (Cons d ds)
  obtain m1 where "Append H m d = Inr (m1, Merkle H (xs @ [d]))" "represents H m1 (xs @ [d])"
    using Append_represents [OF Cons.prems(1), of d] Cons.prems(2) by auto
  with Cons.IH [of m1 "xs @ [d]"] Cons.prems(2) show ?case by simp
qed simp

lemma canonical_sides:
  "isCanonicalLeft (makeCanonicalLeft l)" "isCanonicalRight (makeCanonicalRight r)"
  "isCanonicalLeft v \<longleftrightarrow> \<not> isCanonicalRight v"
proof -
  show "isCanonicalLeft (makeCanonicalLeft l)"
    by (simp add: isCanonicalLeft_def makeCanonicalLeft_def and.assoc)
  have "bit ((Hash0 r OR 0x80) AND 0x80) 7" by (simp add: bit_and_iff bit_or_iff)
  then show "isCanonicalRight (makeCanonicalRight r)"
    by (auto simp: isCanonicalRight_def makeCanonicalRight_def)
  show "isCanonicalLeft v \<longleftrightarrow> \<not> isCanonicalRight v"
    by (simp add: isCanonicalLeft_def isCanonicalRight_def)
qed

section \<open>Properties\<close>

text \<open>
  C9. Appending digests one by one to the empty incremental tree never reads outside the
  active nodes and never panics; the tree counts the digests, and its root is the root the
  batch routine \<open>Merkle\<close> computes for the whole sequence, for every sequence whose length
  fits the 64-bit counter.
\<close>

theorem incremental_root_is_batch_root:
  assumes "length ds < 2 ^ 64"
  shows "\<exists>m. Append_all H emptyMerkle ds = Inr m \<and> NodeCount m = of_nat (length ds) \<and>
           GetRoot m = Inr (Merkle H ds)"
proof -
  obtain m where m: "Append_all H emptyMerkle ds = Inr m" "represents H m ds"
    using Append_all_represents [OF represents_empty, of ds H] assms by auto
  then have "NodeCount m = of_nat (length ds)"
    by (metis represents_def of_nat_unat ucast_id)
  with m show ?thesis by (auto intro: GetRoot_represents)
qed

theorem incremental_root_is_batch_root_witness:
  "\<exists>m. Append_all fst emptyMerkle [NewSha256Nil, NewSha256Nil, NewSha256Nil] = Inr m \<and>
     NodeCount m = 3 \<and> GetRoot m = Inr (Merkle fst [NewSha256Nil, NewSha256Nil, NewSha256Nil])"
  using incremental_root_is_batch_root [of "[NewSha256Nil, NewSha256Nil, NewSha256Nil]" fst] by simp

text \<open>
  The bit tricks compute the depth: \<open>nextPowerOf2\<close> of a positive count \<open>n\<close> is \<open>2 ^ k\<close> for
  the least \<open>k\<close> with \<open>n \<le> 2 ^ k\<close> (wrapping to 0 only for \<open>k = 64\<close>), and \<open>calculateMaxDepth\<close>
  is \<open>k + 1\<close>; that is, \<open>clzPower2\<close> counts the trailing zeros of a power of two.
\<close>

theorem calculateMaxDepth_least:
  assumes "n > 0"
  shows "\<exists>k. nextPowerOf2 n = 2 ^ k \<and> calculateMaxDepth n = int k + 1 \<and>
           unat n \<le> 2 ^ k \<and> (\<forall>j<k. 2 ^ j < unat n)"
proof -
  define x where "x = n - 1"
  have n: "n = x + 1" "n \<noteq> 0" "unat n = unat x + 1"
    using assms by (auto simp: x_def unat_minus_one word_gt_0 unat_gt_0 Suc_leI)
  have "unat n \<le> 2 ^ bitlen (unat x)"
    using less_bitlen_iff [of "bitlen (unat x)" "unat x"] n(3) by simp
  moreover have "\<forall>j<bitlen (unat x). 2 ^ j < unat n"
    using n(3) by (simp add: less_bitlen_iff)
  ultimately show ?thesis
    using n(2) by (auto simp: n(1) nextPowerOf2_eq calculateMaxDepth_eq)
qed

theorem calculateMaxDepth_least_witness:
  "\<exists>k. nextPowerOf2 5 = 2 ^ k \<and> calculateMaxDepth 5 = int k + 1 \<and> 5 \<le> (2 :: nat) ^ k"
  using calculateMaxDepth_least [of 5] by auto

end
