(* ===== verification/Eos_Time.thy ===== *)
theory Eos_Time
  imports Eos_Prelude
begin

text \<open>
  Time points and block timestamps: \<open>src/common/time.go\<close> and
  \<open>src/chain/types/block_timestamp.go\<close>. Microseconds and time points are signed 64-bit words,
  seconds and block slots unsigned 32-bit words; every conversion keeps its width. Shown:
  slots and seconds survive the way to a time point and back, the conversion is strictly
  monotone, and \<open>Next\<close> is the next slot or an overflow error. Two operations are shown to
  disagree with their names: subtracting seconds adds them, and the conversion of seconds
  to a slot wraps.
\<close>

section \<open>Model\<close>

type_synonym Microseconds = i64
type_synonym TimePoint = i64
type_synonym TimePointSec = u32
type_synonym BlockTimeStamp = u32

definition BlockIntervalMs :: i64 where "BlockIntervalMs = 500"
definition BlockIntervalUs :: i64 where "BlockIntervalUs = 1000 * BlockIntervalMs"
definition BlockTimestampEpochMs :: i64 where "BlockTimestampEpochMs = 946684800000"

definition MaxMicroseconds :: Microseconds where "MaxMicroseconds = 0x7fffffffffffffff"

definition Microseconds_ToSeconds :: "Microseconds \<Rightarrow> i64" where
  "Microseconds_ToSeconds ms = go_sdiv ms 1000000"

definition Seconds :: "i64 \<Rightarrow> Microseconds" where "Seconds s = s * 1000000"
definition Milliseconds :: "i64 \<Rightarrow> Microseconds" where "Milliseconds s = s * 1000"
definition Minutes :: "i64 \<Rightarrow> Microseconds" where "Minutes m = Seconds (60 * m)"
definition Hours :: "i64 \<Rightarrow> Microseconds" where "Hours h = Minutes (60 * h)"
definition Days :: "i64 \<Rightarrow> Microseconds" where "Days d = Hours (24 * d)"

definition TimePoint_SecSinceEpoch :: "TimePoint \<Rightarrow> u32" where
  "TimePoint_SecSinceEpoch tp = (ucast tp :: u32) div 1000000"

definition TimePoint_AddUs :: "TimePoint \<Rightarrow> Microseconds \<Rightarrow> TimePoint" where
  "TimePoint_AddUs tp m = tp + m"
definition TimePoint_SubUs :: "TimePoint \<Rightarrow> Microseconds \<Rightarrow> TimePoint" where
  "TimePoint_SubUs tp m = tp - m"
definition TimePoint_Sub :: "TimePoint \<Rightarrow> TimePoint \<Rightarrow> Microseconds" where
  "TimePoint_Sub tp t = tp - t"

definition NewTimePointSecTp :: "TimePoint \<Rightarrow> TimePointSec" where
  "NewTimePointSecTp t = ucast (go_sdiv t 1000000)"

definition TimePointSec_ToTimePoint :: "TimePointSec \<Rightarrow> TimePoint" where
  "TimePointSec_ToTimePoint tp = Seconds (ucast tp)"

definition TimePoint_SubTps :: "TimePoint \<Rightarrow> TimePointSec \<Rightarrow> Microseconds" where
  "TimePoint_SubTps tp t = TimePoint_Sub tp (TimePointSec_ToTimePoint t)"

definition TimePointSec_AddSec :: "TimePointSec \<Rightarrow> u32 \<Rightarrow> TimePointSec" where
  "TimePointSec_AddSec tp offset = tp + offset"
definition TimePointSec_SubSec :: "TimePointSec \<Rightarrow> u32 \<Rightarrow> TimePointSec" where
  "TimePointSec_SubSec tp offset = tp + offset"
definition TimePointSec_AddUs :: "TimePointSec \<Rightarrow> Microseconds \<Rightarrow> TimePoint" where
  "TimePointSec_AddUs tp m = TimePoint_AddUs (TimePointSec_ToTimePoint tp) m"
definition TimePointSec_SubUs :: "TimePointSec \<Rightarrow> Microseconds \<Rightarrow> TimePoint" where
  "TimePointSec_SubUs tp m = TimePoint_SubUs (TimePointSec_ToTimePoint tp) m"
definition TimePointSec_Sub :: "TimePointSec \<Rightarrow> TimePointSec \<Rightarrow> Microseconds" where
  "TimePointSec_Sub tp t = TimePoint_Sub (TimePointSec_ToTimePoint tp) (TimePointSec_ToTimePoint t)"

definition NewBlockTimeStamp :: "TimePoint \<Rightarrow> BlockTimeStamp" where
  "NewBlockTimeStamp t =
     (let msecSinceEpoch = go_sdiv t 1000;
          slot = go_sdiv (msecSinceEpoch - BlockTimestampEpochMs) BlockIntervalMs
      in ucast slot)"

text \<open>The product with 1000 is taken in 32 bits, before the conversion to 64 bits.\<close>

definition NewBlockTimeStampSec :: "TimePointSec \<Rightarrow> BlockTimeStamp" where
  "NewBlockTimeStampSec ts =
     (let slot = go_sdiv (ucast (ts * 1000) - BlockTimestampEpochMs) BlockIntervalMs in ucast slot)"

definition BlockTimeStamp_ToTimePoint :: "BlockTimeStamp \<Rightarrow> TimePoint" where
  "BlockTimeStamp_ToTimePoint t =
     (let msec = ucast t * BlockIntervalMs; msec = msec + BlockTimestampEpochMs in Milliseconds msec)"

definition BlockTimeStamp_Next :: "BlockTimeStamp \<Rightarrow> BlockTimeStamp result" where
  "BlockTimeStamp_Next t =
     eos_assert (0xFFFFFFFF - t \<ge> 1) OverflowException
       (Inr (NewBlockTimeStamp (BlockTimeStamp_ToTimePoint t) + 1))"

definition MaxBlockTime :: BlockTimeStamp where "MaxBlockTime = 0xffff"
definition MinBlockTime :: BlockTimeStamp where "MinBlockTime = 0"

section \<open>Values of the conversions\<close>

lemma uint_bound32: "0 \<le> uint (t :: u32)" "uint t < 4294967296"
  using uint_bounded [of t] by simp_all

lemma BlockTimeStamp_ToTimePoint_eq:
  "BlockTimeStamp_ToTimePoint t = word_of_int ((uint t * 500 + 946684800000) * 1000)"
  by (simp add: BlockTimeStamp_ToTimePoint_def Milliseconds_def BlockIntervalMs_def
      BlockTimestampEpochMs_def Let_def)

lemma sint_BlockTimeStamp:
  "sint (BlockTimeStamp_ToTimePoint t) = (uint t * 500 + 946684800000) * 1000"
  unfolding BlockTimeStamp_ToTimePoint_eq
  by (rule sint_word_of_int_range) (use uint_bound32 [of t] in simp_all)

lemma TimePointSec_ToTimePoint_eq: "TimePointSec_ToTimePoint t = word_of_int (uint t * 1000000)"
  by (simp add: TimePointSec_ToTimePoint_def Seconds_def)

lemma ucast_ucast_32 [simp]: "(ucast (ucast (t :: u32) :: i64) :: u32) = t"
  by (rule bit_word_eqI) (auto simp: bit_simps)

lemma go_sdiv_numeral:
  assumes "0 \<le> a" "a < 2 ^ 63"
  shows "go_sdiv (word_of_int a :: i64) 1000 = word_of_int (a div 1000)"
    "go_sdiv (word_of_int a :: i64) 1000000 = word_of_int (a div 1000000)"
    "go_sdiv (word_of_int a :: i64) 500 = word_of_int (a div 500)"
  using go_sdiv_of_int [where 'a = 64, of a 1000] go_sdiv_of_int [where 'a = 64, of a 1000000]
    go_sdiv_of_int [where 'a = 64, of a 500] assms by simp_all

lemma NewBlockTimeStamp_ToTimePoint: "NewBlockTimeStamp (BlockTimeStamp_ToTimePoint t) = t"
proof -
  have "go_sdiv (BlockTimeStamp_ToTimePoint t) 1000 = word_of_int (uint t * 500 + 946684800000)"
    unfolding BlockTimeStamp_ToTimePoint_eq
    by (subst go_sdiv_numeral) (use uint_bound32 [of t] in simp_all)
  then have "go_sdiv (BlockTimeStamp_ToTimePoint t) 1000 - BlockTimestampEpochMs = word_of_int (uint t * 500)"
    by (simp add: BlockTimestampEpochMs_def)
  moreover have "go_sdiv (word_of_int (uint t * 500) :: i64) 500 = word_of_int (uint t)"
    by (subst go_sdiv_numeral) (use uint_bound32 [of t] in simp_all)
  ultimately show ?thesis
    by (simp add: NewBlockTimeStamp_def BlockIntervalMs_def)
qed

lemma NewTimePointSecTp_ToTimePoint: "NewTimePointSecTp (TimePointSec_ToTimePoint t) = t"
proof -
  have "go_sdiv (TimePointSec_ToTimePoint t) 1000000 = word_of_int (uint t)"
    unfolding TimePointSec_ToTimePoint_eq
    by (subst go_sdiv_numeral) (use uint_bound32 [of t] in simp_all)
  then show ?thesis by (simp add: NewTimePointSecTp_def)
qed

lemma BlockTimeStamp_Next_eq:
  "BlockTimeStamp_Next t = (if t = 0xFFFFFFFF then Inl OverflowException else Inr (t + 1))"
proof -
  have "0xFFFFFFFF - t \<ge> 1 \<longleftrightarrow> t \<noteq> 0xFFFFFFFF"
    by (metis eq_iff_diff_eq_0 word_le_less_eq word_gt_0 word_less_1 linorder_not_le)
  then show ?thesis
    by (simp add: BlockTimeStamp_Next_def NewBlockTimeStamp_ToTimePoint)
qed

section \<open>Properties\<close>

text \<open>
  Block slots and seconds convert to time points and back without loss for every 32-bit
  value, the time point of a slot is half a second after that of the slot before it (no
  64-bit wrap-around anywhere), and \<open>Next\<close> returns the following slot, with
  \<open>OverflowException\<close> exactly on the last one.
\<close>

theorem time_conversions:
  "NewBlockTimeStamp (BlockTimeStamp_ToTimePoint t) = t \<and>
   NewTimePointSecTp (TimePointSec_ToTimePoint s) = s \<and>
   sint (BlockTimeStamp_ToTimePoint t) = (int (unat t) * 500 + 946684800000) * 1000 \<and>
   BlockTimeStamp_Next t = (if t = 0xFFFFFFFF then Inl OverflowException else Inr (t + 1))"
  by (simp add: NewBlockTimeStamp_ToTimePoint NewTimePointSecTp_ToTimePoint sint_BlockTimeStamp
      BlockTimeStamp_Next_eq)

lemma SubSec_AddSec:
  "TimePointSec_SubSec (TimePointSec_AddSec s n) n = s \<longleftrightarrow> n = 0 \<or> n = 0x80000000"
proof -
  have "TimePointSec_SubSec (TimePointSec_AddSec s n) n = s \<longleftrightarrow> n + n = 0"
    by (simp add: TimePointSec_SubSec_def TimePointSec_AddSec_def add.assoc)
  also have "\<dots> \<longleftrightarrow> (uint n + uint n) mod 4294967296 = 0"
    unfolding word_uint_eq_iff uint_word_ariths by simp
  also have "\<dots> \<longleftrightarrow> uint n = 0 \<or> uint n = 2147483648"
    using uint_bound32 [of n] double_mod [of "uint n" 4294967296] by auto
  also have "\<dots> \<longleftrightarrow> n = 0 \<or> n = 0x80000000" by (simp add: word_uint_eq_iff)
  finally show ?thesis .
qed

lemma NewBlockTimeStampSec_eq:
  assumes "unat s * 1000 < 2 ^ 32"
  shows "NewBlockTimeStampSec s = NewBlockTimeStamp (TimePointSec_ToTimePoint s)"
proof -
  have "unat s * unat (1000 :: u32) < 2 ^ LENGTH(32)" using assms by simp
  then have "unat (s * 1000) = unat s * unat (1000 :: u32)" by (simp only: unat_mult_lem)
  then have "int (unat (s * 1000)) = int (unat s) * 1000" by (simp only: of_nat_mult) simp
  then have "uint (s * 1000) = uint s * 1000" by (simp only: uint_nat)
  then have "(ucast (s * 1000) :: i64) = word_of_int (uint s * 1000)" by (simp only: ucast_eq)
  moreover have "go_sdiv (TimePointSec_ToTimePoint s) 1000 = word_of_int (uint s * 1000)"
    unfolding TimePointSec_ToTimePoint_eq
    by (subst go_sdiv_numeral) (use uint_bound32 [of s] in simp_all)
  ultimately show ?thesis by (simp only: NewBlockTimeStampSec_def NewBlockTimeStamp_def Let_def)
qed

text \<open>
  \<open>SubSec\<close> undoes \<open>AddSec\<close> only for offsets that are zero or half of the 32-bit range: the code
  adds the offset in both. The slot of a time in seconds agrees with the slot of the same
  time point as long as its milliseconds fit 32 bits (about the first fifty days of 1970),
  and not afterwards.
\<close>

theorem second_arithmetic_defects:
  "(TimePointSec_SubSec (TimePointSec_AddSec s n) n = s \<longleftrightarrow> n = 0 \<or> n = 0x80000000) \<and>
   (unat s * 1000 < 2 ^ 32 \<longrightarrow> NewBlockTimeStampSec s = NewBlockTimeStamp (TimePointSec_ToTimePoint s)) \<and>
   NewBlockTimeStampSec 1546300800 \<noteq> NewBlockTimeStamp (TimePointSec_ToTimePoint 1546300800)"
proof -
  have "NewBlockTimeStampSec 1546300800 \<noteq> NewBlockTimeStamp (TimePointSec_ToTimePoint 1546300800)"
    by code_simp
  then show ?thesis using SubSec_AddSec NewBlockTimeStampSec_eq by blast
qed

theorem second_arithmetic_defects_witness:
  "unat (86400 :: u32) * 1000 < 2 ^ 32 \<and>
   NewBlockTimeStampSec 86400 = NewBlockTimeStamp (TimePointSec_ToTimePoint 86400)"
  using second_arithmetic_defects [of 86400 0] by simp

end
