(* ===== verification/Eos_Header.thy ===== *)
theory Eos_Header
  imports Eos_Containers Eos_Merkle Eos_Time
begin

unbundle bit_operations_syntax

text \<open>
  Block headers, producer schedules and the header state machine of delegated proof of
  stake: \<open>src/chain/types/block_header.go\<close>, \<open>producer_schedule.go\<close>, \<open>block_header_state.go\<close>
  and the genesis header of \<open>src/chain/controller.go\<close>. Hashing of encoded objects and key
  recovery are fields of the record \<open>Crypto\<close>; the maps of the state are the verified tree
  maps, the block root is the verified incremental tree. Shown: the block number is
  embedded in the block id, the round robin of the schedule, what a validated header
  satisfies, that the last irreversible block has the support of more than two thirds
  of the producers and is the greatest such block, and the invariant that irreversible
  and proposed blocks never pass the head.
\<close>

section \<open>Model\<close>

record PublicKey =
  Curve :: u8
  KeyContent :: "u8 list"

record Signature =
  SigCurve :: u8
  SigContent :: "u8 list"

definition PublicKey_Compare :: "PublicKey \<Rightarrow> PublicKey \<Rightarrow> bool" where
  "PublicKey_Compare p pub =
     (if Curve p \<noteq> Curve pub then False else if KeyContent p \<noteq> KeyContent pub then False else True)"

definition PublicKey_IsEmpty :: "PublicKey \<Rightarrow> bool" where
  "PublicKey_IsEmpty p \<longleftrightarrow> KeyContent p = replicate 33 0"

subsection \<open>Producer schedules\<close>

record ProducerKey =
  ProducerName :: eos_name
  ProducerSigningKey :: PublicKey

record ProducerScheduleType =
  Version :: u32
  Producers :: "ProducerKey list"

record SharedProducerScheduleType =
  SharedVersion :: u32
  SharedProducers :: "ProducerKey list"

fun find_producer :: "ProducerKey list \<Rightarrow> eos_name \<Rightarrow> PublicKey option" where
  "find_producer [] p = None"
| "find_producer (i # ps) p = (if ProducerName i = p then Some (ProducerSigningKey i) else find_producer ps p)"

definition GetProducerKey :: "ProducerScheduleType \<Rightarrow> eos_name \<Rightarrow> PublicKey option" where
  "GetProducerKey ps p = find_producer (Producers ps) p"

definition Schedule_Clear :: SharedProducerScheduleType where
  "Schedule_Clear = \<lparr>SharedVersion = 0, SharedProducers = []\<rparr>"

definition ToShared :: "ProducerScheduleType \<Rightarrow> SharedProducerScheduleType" where
  "ToShared a = \<lparr>SharedVersion = Version a, SharedProducers = Producers a\<rparr>"

definition FromShared :: "SharedProducerScheduleType \<Rightarrow> ProducerScheduleType" where
  "FromShared s = \<lparr>Version = SharedVersion s, Producers = SharedProducers s\<rparr>"

definition emptySchedule :: ProducerScheduleType where
  "emptySchedule = \<lparr>Version = 0, Producers = []\<rparr>"

definition SharedSchedule_IsEmpty :: "SharedProducerScheduleType \<Rightarrow> bool" where
  "SharedSchedule_IsEmpty p \<longleftrightarrow> SharedVersion p = 0 \<and> length (SharedProducers p) = 0"

definition Schedule_IsEmpty :: "ProducerScheduleType \<Rightarrow> bool" where
  "Schedule_IsEmpty p \<longleftrightarrow> Version p = 0 \<and> length (Producers p) = 0"

subsection \<open>Block headers\<close>

record Extension =
  ExtType :: u16
  ExtData :: "u8 list"

record BlockHeader =
  Timestamp :: BlockTimeStamp
  Producer :: eos_name
  Confirmed :: u16
  Previous :: BlockIdType
  TransactionMRoot :: CheckSum256Type
  ActionMRoot :: CheckSum256Type
  ScheduleVersion :: u32
  NewProducers :: "SharedProducerScheduleType option"
  HeaderExtensions :: "Extension list"

record SignedBlockHeader = BlockHeader +
  ProducerSignature :: Signature

record HeaderConfirmation =
  ConfBlockId :: BlockIdType
  ConfProducer :: eos_name
  ConfSignature :: Signature

text \<open>Hashing of encoded objects (\<open>crypto.Hash256\<close>) and recovery of a key from a signature.\<close>

record Crypto =
  HashPair :: pair_hash
  HashHeader :: "BlockHeader \<Rightarrow> Sha256"
  HashSchedule :: "ProducerScheduleType \<Rightarrow> Sha256"
  HashShared :: "SharedProducerScheduleType \<Rightarrow> Sha256"
  RecoverKey :: "Signature \<Rightarrow> u8 list \<Rightarrow> PublicKey option"

definition NumFromID :: "BlockIdType \<Rightarrow> u32" where
  "NumFromID i = EndianReverseU32 (ucast (Hash0 i))"

definition BlockNumber :: "'a BlockHeader_scheme \<Rightarrow> u32" where
  "BlockNumber b = NumFromID (Previous b) + 1"

definition Digest :: "Crypto \<Rightarrow> 'a BlockHeader_scheme \<Rightarrow> Sha256" where
  "Digest C b = HashHeader C (BlockHeader.truncate b)"

definition BlockID :: "Crypto \<Rightarrow> 'a BlockHeader_scheme \<Rightarrow> BlockIdType" where
  "BlockID C b =
     (let result = Digest C b;
          result = result\<lparr>Hash0 := Hash0 result AND 0xffffffff00000000\<rparr>
      in result\<lparr>Hash0 := Hash0 result + ucast (EndianReverseU32 (BlockNumber b))\<rparr>)"

definition NewSignedBlockHeader :: SignedBlockHeader where
  "NewSignedBlockHeader =
     \<lparr>Timestamp = 0, Producer = 0, Confirmed = 1, Previous = NewSha256Nil,
      TransactionMRoot = NewSha256Nil, ActionMRoot = NewSha256Nil, ScheduleVersion = 0,
      NewProducers = None, HeaderExtensions = [], ProducerSignature = \<lparr>SigCurve = 0, SigContent = []\<rparr>\<rparr>"

definition BlockHeader_IsEmpty :: "'a BlockHeader_scheme \<Rightarrow> bool" where
  "BlockHeader_IsEmpty b \<longleftrightarrow>
     Timestamp b = 0 \<and> Name_IsEmpty (Producer b) \<and> Confirmed b = 0 \<and> Sha256_IsEmpty (Previous b) \<and>
     Sha256_IsEmpty (TransactionMRoot b) \<and> Sha256_IsEmpty (ActionMRoot b) \<and> ScheduleVersion b = 0 \<and>
     NewProducers b = None \<and> length (HeaderExtensions b) = 0"

definition SignedBlockHeader_IsEmpty :: "SignedBlockHeader \<Rightarrow> bool" where
  "SignedBlockHeader_IsEmpty s \<longleftrightarrow> length (SigContent (ProducerSignature s)) = 0 \<and> BlockHeader_IsEmpty s"

subsection \<open>Header state\<close>

record BlockHeaderState =
  ID :: i64
  BlockId :: BlockIdType
  BlockNum :: u32
  Header :: SignedBlockHeader
  DposProposedIrreversibleBlocknum :: u32
  DposIrreversibleBlocknum :: u32
  BftIrreversibleBlocknum :: u32
  PendingScheduleLibNum :: u32
  PendingScheduleHash :: Sha256
  PendingSchedule :: ProducerScheduleType
  ActiveSchedule :: ProducerScheduleType
  BlockrootMerkle :: IncrementalMerkle
  ProducerToLastProduced :: AccountNameUint32Map
  ProducerToLastImpliedIrb :: AccountNameUint32Map
  BlockSigningKey :: PublicKey
  ConfirmCount :: "u8 list"
  Confirmations :: "HeaderConfirmation list"

definition ProducerRepetitions :: nat where "ProducerRepetitions = 12"
definition MaxTrackedDposConfirmations :: nat where "MaxTrackedDposConfirmations = 1024"

text \<open>
  \<open>len(...) * ProducerRepetitions\<close> is converted to 32 bits before the division; a zero divisor and
  an index out of range panic.
\<close>

definition GetScheduledProducer :: "'a BlockHeaderState_scheme \<Rightarrow> BlockTimeStamp \<Rightarrow> ProducerKey result" where
  "GetScheduledProducer b t =
     (let producers = Producers (ActiveSchedule b);
          n = (of_nat (length producers * ProducerRepetitions) :: u32)
      in if n = 0 then Inl GoPanic
         else let index = (t mod n) div of_nat ProducerRepetitions
              in if unat index < length producers then Inr (producers ! unat index) else Inl GoPanic)"

definition CalcDposLastIrreversible :: "'a BlockHeaderState_scheme \<Rightarrow> u32 result" where
  "CalcDposLastIrreversible b =
     rbind (returned (AccountNameUint32Map_Values (ProducerToLastImpliedIrb b))) (\<lambda>blockNums.
       if length blockNums = 0 then Inr 0
       else Inr (sort blockNums ! ((length blockNums - 1) div 3)))"

text \<open>The fields \<open>GenerateNext\<close> sets before the last irreversible block is known.\<close>

definition GenerateNext_result :: "BlockHeaderState \<Rightarrow> BlockTimeStamp \<Rightarrow> ProducerKey \<Rightarrow> IncrementalMerkle
    \<Rightarrow> AccountNameUint32Map \<Rightarrow> AccountNameUint32Map \<Rightarrow> BlockHeaderState" where
  "GenerateNext_result b when proKey merkle lastProduced impliedIrb =
     \<lparr>ID = 0,
      BlockId = NewSha256Nil,
      BlockNum = BlockNum b + 1,
      Header =
        \<lparr>Timestamp = when, Producer = ProducerName proKey, Confirmed = 0, Previous = BlockId b,
         TransactionMRoot = NewSha256Nil, ActionMRoot = NewSha256Nil,
         ScheduleVersion = Version (ActiveSchedule b), NewProducers = None, HeaderExtensions = [],
         ProducerSignature = \<lparr>SigCurve = 0, SigContent = []\<rparr>\<rparr>,
      DposProposedIrreversibleBlocknum = DposProposedIrreversibleBlocknum b,
      DposIrreversibleBlocknum = 0,
      BftIrreversibleBlocknum = BftIrreversibleBlocknum b,
      PendingScheduleLibNum = PendingScheduleLibNum b,
      PendingScheduleHash = PendingScheduleHash b,
      PendingSchedule = PendingSchedule b,
      ActiveSchedule = ActiveSchedule b,
      BlockrootMerkle = merkle,
      ProducerToLastProduced = lastProduced,
      ProducerToLastImpliedIrb = impliedIrb,
      BlockSigningKey = ProducerSigningKey proKey,
      ConfirmCount = [],
      Confirmations = []\<rparr>"

definition grow_ConfirmCount :: "BlockHeaderState \<Rightarrow> u8 list" where
  "grow_ConfirmCount b =
     (let numActiveProducers = length (Producers (ActiveSchedule b));
          requiredConfs = (of_nat (numActiveProducers * 2 div 3) + 1 :: u32)
      in if length (ConfirmCount b) < MaxTrackedDposConfirmations
         then ConfirmCount b @ [ucast requiredConfs]
         else tl (ConfirmCount b) @ [ucast requiredConfs])"

definition GenerateNext :: "Crypto \<Rightarrow> BlockHeaderState \<Rightarrow> BlockTimeStamp \<Rightarrow> BlockHeaderState result" where
  "GenerateNext C b when =
     rbind (if when > 0
            then eos_assert (when > Timestamp (Header b)) BlockValidateException (Inr when)
            else Inr (Timestamp (Header b) + 1)) (\<lambda>when.
     rbind (GetScheduledProducer b when) (\<lambda>proKey.
     rbind (AccountNameUint32Map_Put (CopyFrom (ProducerToLastProduced b)) (ProducerName proKey)
              (BlockNum b + 1)) (\<lambda>lastProduced.
     rbind (Append (HashPair C) (BlockrootMerkle b) (BlockId b)) (\<lambda>(merkle, _).
     rbind (AccountNameUint32Map_Put (CopyFrom (ProducerToLastImpliedIrb b)) (ProducerName proKey)
              (DposProposedIrreversibleBlocknum b)) (\<lambda>impliedIrb.
     let result = GenerateNext_result b when proKey merkle lastProduced impliedIrb
     in rbind (CalcDposLastIrreversible result) (\<lambda>lib.
        Inr (result\<lparr>DposIrreversibleBlocknum := lib, ConfirmCount := grow_ConfirmCount b\<rparr>)))))))"

fun promote_map :: "u32 \<Rightarrow> AccountNameUint32Map \<Rightarrow> ProducerKey list \<Rightarrow> AccountNameUint32Map
    \<Rightarrow> AccountNameUint32Map result" where
  "promote_map lib old [] new = Inr new"
| "promote_map lib old (pro # pros) new =
     rbind (AccountNameUint32Map_Put new (ProducerName pro)
              (case AccountNameUint32Map_Get old (ProducerName pro) of
                 Some blockNum \<Rightarrow> blockNum | None \<Rightarrow> lib))
       (\<lambda>new. promote_map lib old pros new)"

definition MaybePromotePending :: "BlockHeaderState \<Rightarrow> (BlockHeaderState \<times> bool) result" where
  "MaybePromotePending b =
     (if length (Producers (PendingSchedule b)) > 0 \<and>
         DposIrreversibleBlocknum b \<ge> PendingScheduleLibNum b
      then
        let b = b\<lparr>ActiveSchedule := PendingSchedule b, PendingSchedule := emptySchedule\<rparr>;
            pros = Producers (ActiveSchedule b)
        in rbind (promote_map (DposIrreversibleBlocknum b) (ProducerToLastProduced b) pros
                    NewAccountNameUint32Map) (\<lambda>lastProduced.
           rbind (promote_map (DposIrreversibleBlocknum b) (ProducerToLastImpliedIrb b) pros
                    NewAccountNameUint32Map) (\<lambda>impliedIrb.
           rbind (AccountNameUint32Map_Put lastProduced (Producer (Header b)) (BlockNum b)) (\<lambda>lastProduced.
           Inr (b\<lparr>ProducerToLastProduced := lastProduced,
                  ProducerToLastImpliedIrb := impliedIrb\<rparr>, True))))
      else Inr (b, False))"

definition SetNewProducers :: "Crypto \<Rightarrow> BlockHeaderState \<Rightarrow> SharedProducerScheduleType \<Rightarrow> BlockHeaderState result" where
  "SetNewProducers C b pending =
     eos_assert (SharedVersion pending = Version (ActiveSchedule b) + 1) ProducerScheduleException
      (eos_assert (length (Producers (PendingSchedule b)) = 0) ProducerScheduleException
        (Inr (b\<lparr>Header := (Header b)\<lparr>NewProducers := Some pending\<rparr>,
                PendingScheduleHash := HashShared C pending,
                PendingSchedule := FromShared pending,
                PendingScheduleLibNum := BlockNum b\<rparr>)))"

text \<open>The loop of \<open>SetConfirmed\<close> from position \<open>i\<close> (one less than the recursion argument) down.\<close>

primrec SetConfirmed_loop :: "BlockHeaderState \<Rightarrow> nat \<Rightarrow> u16 \<Rightarrow> BlockHeaderState" where
  "SetConfirmed_loop b 0 blocksToConfirm = b"
| "SetConfirmed_loop b (Suc i) blocksToConfirm =
     (if blocksToConfirm > 0 then
        let cc = (ConfirmCount b)[i := ConfirmCount b ! i - 1]
        in if cc ! i = 0
           then b\<lparr>DposProposedIrreversibleBlocknum := BlockNum b - of_nat (length cc - 1 - i),
                  ConfirmCount := drop (i + 1) cc\<rparr>
           else SetConfirmed_loop (b\<lparr>ConfirmCount := cc\<rparr>) i (blocksToConfirm - 1)
      else b)"

definition SetConfirmed :: "BlockHeaderState \<Rightarrow> u16 \<Rightarrow> BlockHeaderState" where
  "SetConfirmed b numPrevBlocks =
     (let b = b\<lparr>Header := (Header b)\<lparr>Confirmed := numPrevBlocks\<rparr>\<rparr>
      in SetConfirmed_loop b (length (ConfirmCount b)) (numPrevBlocks + 1))"

definition SigDigest :: "Crypto \<Rightarrow> BlockHeaderState \<Rightarrow> Sha256 result" where
  "SigDigest C b =
     rbind (GetRoot (BlockrootMerkle b)) (\<lambda>root.
       let headerBmroot = HashPair C (Digest C (Header b), root)
       in Inr (HashPair C (headerBmroot, PendingScheduleHash b)))"

definition recover :: "Crypto \<Rightarrow> Signature \<Rightarrow> Sha256 \<Rightarrow> PublicKey result" where
  "recover C sig d = (case RecoverKey C sig (Bytes d) of None \<Rightarrow> Inl StdException | Some k \<Rightarrow> Inr k)"

definition Signee :: "Crypto \<Rightarrow> BlockHeaderState \<Rightarrow> PublicKey result" where
  "Signee C b = rbind (SigDigest C b) (\<lambda>d. recover C (ProducerSignature (Header b)) d)"

definition Sign :: "Crypto \<Rightarrow> BlockHeaderState \<Rightarrow> (Sha256 \<Rightarrow> Signature) \<Rightarrow> BlockHeaderState result" where
  "Sign C b signer =
     rbind (SigDigest C b) (\<lambda>d.
       let b = b\<lparr>Header := (Header b)\<lparr>ProducerSignature := signer d\<rparr>\<rparr>
       in rbind (recover C (ProducerSignature (Header b)) d) (\<lambda>signKey.
            eos_assert (PublicKey_Compare (BlockSigningKey b) signKey) WrongSigningKey (Inr b)))"

definition Next_checked :: "Crypto \<Rightarrow> BlockHeaderState \<Rightarrow> SignedBlockHeader \<Rightarrow> BlockHeaderState result" where
  "Next_checked C b h =
     eos_assert (Timestamp h \<noteq> 0) BlockValidateException
    (eos_assert (length (HeaderExtensions h) = 0) BlockValidateException
    (eos_assert (Timestamp h > Timestamp (Header b)) BlockValidateException
    (eos_assert (Previous h = BlockId b) UnlinkableBlockException
    (rbind (GenerateNext C b (Timestamp h)) (\<lambda>result.
     eos_assert (Producer (Header result) = Producer h) WrongProducer
    (eos_assert (ScheduleVersion (Header result) = ScheduleVersion h) ProducerScheduleException
    (eos_assert
       (case AccountNameUint32Map_Get (ProducerToLastProduced b) (Producer h) of
          None \<Rightarrow> True
        | Some blockNum \<Rightarrow> blockNum < BlockNum result - ucast (Confirmed h)) ProducerDoubleConfirm
       (Inr result))))))))"

definition Next_new_producers :: "Crypto \<Rightarrow> BlockHeaderState \<Rightarrow> SignedBlockHeader \<Rightarrow> bool \<Rightarrow> BlockHeaderState result" where
  "Next_new_producers C result h wasPendingPromoted =
     (case NewProducers h of
        None \<Rightarrow> Inr result
      | Some np \<Rightarrow>
          eos_assert (\<not> wasPendingPromoted) ProducerScheduleException (SetNewProducers C result np))"

definition Next_sealed :: "Crypto \<Rightarrow> BlockHeaderState \<Rightarrow> SignedBlockHeader \<Rightarrow> BlockHeaderState" where
  "Next_sealed C result h =
     (let header = (Header result)
            \<lparr>ActionMRoot := ActionMRoot h, TransactionMRoot := TransactionMRoot h,
             ProducerSignature := ProducerSignature h\<rparr>
      in result\<lparr>Header := header, BlockId := BlockID C header\<rparr>)"

definition BlockHeaderState_Next ::
  "Crypto \<Rightarrow> BlockHeaderState \<Rightarrow> SignedBlockHeader \<Rightarrow> bool \<Rightarrow> BlockHeaderState result" where
  "BlockHeaderState_Next C b h trust =
     rbind (Next_checked C b h) (\<lambda>result.
     rbind (MaybePromotePending (SetConfirmed result (Confirmed h))) (\<lambda>(result, wasPendingPromoted).
     rbind (Next_new_producers C result h wasPendingPromoted) (\<lambda>result.
     let result = Next_sealed C result h
     in if \<not> trust
        then rbind (Signee C result) (\<lambda>signee.
               eos_assert (PublicKey_Compare (BlockSigningKey result) signee) WrongSigningKey (Inr result))
        else Inr result)))"

definition AddConfirmation :: "Crypto \<Rightarrow> BlockHeaderState \<Rightarrow> HeaderConfirmation \<Rightarrow> BlockHeaderState result" where
  "AddConfirmation C b conf =
     eos_assert (\<forall>c \<in> set (Confirmations b). ConfProducer c \<noteq> ConfProducer conf) ProducerDoubleConfirm
      (case GetProducerKey (ActiveSchedule b) (ConfProducer conf) of
         None \<Rightarrow> Inl ProducerNotInSchedule
       | Some key \<Rightarrow>
           rbind (SigDigest C b) (\<lambda>d.
           rbind (recover C (ConfSignature conf) d) (\<lambda>signer.
           eos_assert (PublicKey_Compare signer key) WrongSigningKey
             (Inr (b\<lparr>Confirmations := Confirmations b @ [conf]\<rparr>)))))"

definition BlockHeaderState_IsEmpty :: "BlockHeaderState \<Rightarrow> bool" where
  "BlockHeaderState_IsEmpty b \<longleftrightarrow>
     ID b = 0 \<and> Sha256_IsEmpty (BlockId b) \<and> BlockNum b = 0 \<and> SignedBlockHeader_IsEmpty (Header b) \<and>
     DposProposedIrreversibleBlocknum b = 0 \<and> DposIrreversibleBlocknum b = 0 \<and>
     BftIrreversibleBlocknum b = 0 \<and> PendingScheduleLibNum b = 0 \<and> Sha256_IsEmpty (PendingScheduleHash b) \<and>
     Schedule_IsEmpty (PendingSchedule b) \<and> Schedule_IsEmpty (ActiveSchedule b) \<and>
     IncrementalMerkle_IsEmpty (BlockrootMerkle b) \<and> Size (ProducerToLastProduced b) = 0 \<and>
     Size (ProducerToLastProduced b) = 0 \<and> PublicKey_IsEmpty (BlockSigningKey b) \<and>
     length (ConfirmCount b) = 0 \<and> length (Confirmations b) = 0"

text \<open>The header state of the genesis block, from \<open>Controller.initializeForkDB\<close>.\<close>

definition genesisHeaderState :: "Crypto \<Rightarrow> eos_name \<Rightarrow> PublicKey \<Rightarrow> TimePoint \<Rightarrow> Sha256 \<Rightarrow> BlockHeaderState" where
  "genesisHeaderState C systemAccount initialKey initialTimestamp chainId =
     (let pst = \<lparr>Version = 0, Producers = [\<lparr>ProducerName = systemAccount, ProducerSigningKey = initialKey\<rparr>]\<rparr>;
          header = NewSignedBlockHeader
            \<lparr>Timestamp := NewBlockTimeStamp initialTimestamp, ActionMRoot := chainId\<rparr>
      in \<lparr>ID = 0, BlockId = BlockID C header, BlockNum = BlockNumber header, Header = header,
          DposProposedIrreversibleBlocknum = 0, DposIrreversibleBlocknum = 0,
          BftIrreversibleBlocknum = 0, PendingScheduleLibNum = 0,
          PendingScheduleHash = HashSchedule C pst, PendingSchedule = pst,
          ActiveSchedule = pst, BlockrootMerkle = emptyMerkle,
          ProducerToLastProduced = NewAccountNameUint32Map,
          ProducerToLastImpliedIrb = NewAccountNameUint32Map,
          BlockSigningKey = \<lparr>Curve = 0, KeyContent = replicate 33 0\<rparr>, ConfirmCount = [], Confirmations = []\<rparr>)"

section \<open>Block numbers and schedules\<close>

lemma NumFromID_BlockID: "NumFromID (BlockID C h) = BlockNumber h"
proof -
  have "Hash0 (BlockID C h) =
      (Hash0 (Digest C h) AND 0xffffffff00000000) + ucast (EndianReverseU32 (BlockNumber h))"
    by (simp add: BlockID_def Let_def)
  moreover have "(ucast ((d AND 0xffffffff00000000) + ucast (x :: u32)) :: u32) = x" for d :: u64 and x
  proof -
    have m: "(0xffffffff00000000 :: u64) = push_bit 32 (mask 32)"
      by (simp add: mask_eq_exp_minus_1 push_bit_eq_mult)
    have hi: "bit (d AND 0xffffffff00000000) n \<longleftrightarrow> bit d n \<and> 32 \<le> n \<and> n < 64" for n
      unfolding m bit_and_iff bit_push_bit_iff bit_mask_iff by (auto dest: bit_imp_le_length)
    have "(d AND 0xffffffff00000000) + ucast x = (d AND 0xffffffff00000000) OR ucast x"
      by (rule disjunctive_add) (auto simp: hi bit_ucast_iff dest: bit_imp_le_length)
    then show ?thesis
      by (intro bit_word_eqI) (simp add: bit_ucast_iff bit_or_iff hi del: and_numerals)
  qed
  ultimately show ?thesis by (simp add: NumFromID_def EndianReverseU32_involution)
qed

lemma GetScheduledProducer_eq:
  assumes "Producers (ActiveSchedule b) = ps" "ps \<noteq> []" "length ps * 12 < 2 ^ 32"
  shows "GetScheduledProducer b t = Inr (ps ! ((unat t div 12) mod length ps))"
proof -
  define n where "n = (of_nat (length ps * 12) :: u32)"
  have n1: "unat n = length ps * 12"
    using assms(3) by (simp only: n_def unsigned_of_nat) (simp add: take_bit_nat_eq_self_iff)
  with assms(2) have n: "unat n = length ps * 12" "n \<noteq> 0" by auto
  have "unat ((t mod n) div 12) = (unat t div 12) mod length ps"
    by (simp add: unat_div unat_mod n(1) mult.commute [of _ 12] mod_mult2_eq)
  then show ?thesis
    unfolding GetScheduledProducer_def ProducerRepetitions_def Let_def assms(1) n_def [symmetric]
    using n assms(2) by simp
qed

section \<open>The last irreversible block\<close>

text \<open>How many producers imply that the blocks up to \<open>s\<close> are irreversible.\<close>

definition support :: "(eos_name \<rightharpoonup> u32) \<Rightarrow> u32 \<Rightarrow> nat" where
  "support f s = card {p. \<exists>v. f p = Some v \<and> s \<le> v}"

lemma length_filter_map_of:
  assumes "distinct (map fst xs)"
  shows "length (filter P (map snd xs)) = card {k. \<exists>v. map_of xs k = Some v \<and> P v}"
proof -
  have "{k. \<exists>v. map_of xs k = Some v \<and> P v} = fst ` set (filter (P \<circ> snd) xs)"
    using assms by (force simp: image_iff)
  moreover have "distinct (map fst (filter (P \<circ> snd) xs))"
    using assms by (rule distinct_map_filter)
  ultimately have "card {k. \<exists>v. map_of xs k = Some v \<and> P v} = length (filter (P \<circ> snd) xs)"
    by (metis distinct_card length_map set_map)
  then show ?thesis by (simp add: filter_map)
qed

lemma sorted_third:
  fixes ys :: "'a::linorder list"
  assumes "sorted ys" "ys \<noteq> []"
  defines "r \<equiv> ys ! ((length ys - 1) div 3)"
  shows "2 * length ys < 3 * length (filter (\<lambda>v. r \<le> v) ys)"
    and "2 * length ys < 3 * length (filter (\<lambda>v. s \<le> v) ys) \<Longrightarrow> s \<le> r"
proof -
  let ?k = "(length ys - 1) div 3"
  have k: "?k < length ys" using assms(2) by (cases ys) auto
  have r_le: "r \<le> v" if "v \<in> set (drop ?k ys)" for v
    using that assms(1) k by (auto simp: r_def in_set_conv_nth sorted_nth_mono)
  have "length ys - ?k = length (filter (\<lambda>v. r \<le> v) (drop ?k ys))" using r_le by simp
  also have "\<dots> \<le> length (filter (\<lambda>v. r \<le> v) ys)"
    by (metis append_take_drop_id filter_append length_append le_add2)
  finally show "2 * length ys < 3 * length (filter (\<lambda>v. r \<le> v) ys)" using k by linarith
  show "s \<le> r" if "2 * length ys < 3 * length (filter (\<lambda>v. s \<le> v) ys)"
  proof (rule ccontr)
    assume "\<not> s \<le> r"
    then have "\<not> s \<le> v" if "v \<in> set (take (Suc ?k) ys)" for v
    proof -
      obtain i where "i \<le> ?k" "v = ys ! i" using \<open>v \<in> _\<close> k by (auto simp: in_set_conv_nth less_Suc_eq_le)
      then have "v \<le> r" using assms(1) k by (auto simp: r_def sorted_nth_mono)
      with \<open>\<not> s \<le> r\<close> show ?thesis by auto
    qed
    then have "filter (\<lambda>v. s \<le> v) (take (Suc ?k) ys) = []" by (simp add: filter_empty_conv)
    then have "length (filter (\<lambda>v. s \<le> v) ys) = length (filter (\<lambda>v. s \<le> v) (drop (Suc ?k) ys))"
      by (metis append_take_drop_id append_Nil filter_append)
    also have "\<dots> \<le> length ys - Suc ?k" by (metis length_drop length_filter_le)
    finally show False using that by linarith
  qed
qed

lemma CalcDpos_greatest:
  assumes "name_map (ProducerToLastImpliedIrb b)"
  defines "f \<equiv> tree_map (ProducerToLastImpliedIrb b)"
  obtains r where "CalcDposLastIrreversible b = Inr r"
    "f = Map.empty \<Longrightarrow> r = 0"
    "f \<noteq> Map.empty \<Longrightarrow> r \<in> ran f"
    "f \<noteq> Map.empty \<Longrightarrow> 2 * card (dom f) < 3 * support f r"
    "\<And>s. 2 * card (dom f) < 3 * support f s \<Longrightarrow> s \<le> r"
proof -
  let ?es = "inorder (Root (ProducerToLastImpliedIrb b))"
  let ?vs = "map snd ?es"
  have dist: "distinct (map fst ?es)" using name_order.keys_distinct assms(1) .
  have f: "f = map_of ?es" by (simp add: f_def tree_map_def)
  have len: "card (dom f) = length ?vs"
    using dist by (simp add: f dom_map_of_conv_image_fst) (metis distinct_card length_map set_map)
  have supp: "support f s = length (filter (\<lambda>v. s \<le> v) (sort ?vs))" for s
    using length_filter_map_of [OF dist, of "\<lambda>v. s \<le> v"] by (simp add: support_def f filter_sort)
  show ?thesis
  proof (cases "?es = []")
    case True
    then show ?thesis
      using that [of 0] name_map_Values [OF assms(1)] supp
      by (simp add: CalcDposLastIrreversible_def f)
  next
    case False
    define ys where "ys = sort ?vs"
    define r where "r = ys ! ((length ys - 1) div 3)"
    have len_ys: "length ys = length ?vs" by (simp add: ys_def)
    have "ys \<noteq> []" using len_ys False by (cases ys) auto
    then have ys: "sorted ys" "ys \<noteq> []" "length ys = length ?vs" "set ys = set ?vs"
      by (simp_all add: ys_def)
    have "CalcDposLastIrreversible b = Inr r"
      unfolding CalcDposLastIrreversible_def name_map_Values [OF assms(1)] returned_Some rbind_simps r_def ys_def
      using False by simp
    moreover have "r \<in> set ys" using ys(2) unfolding r_def by (intro nth_mem) (cases ys, auto)
    then have "r \<in> ran f" using dist by (simp add: ys(4) f ran_distinct)
    moreover have "f \<noteq> Map.empty" using False by (simp add: f)
    ultimately show ?thesis
      using that [of r] sorted_third [OF ys(1, 2), folded r_def] by (simp add: len supp ys(3) flip: ys_def)
  qed
qed

section \<open>The invariant of the header state\<close>

text \<open>The invariant, for a state whose ancestors have the ids \<open>xs\<close>.\<close>

definition dpos_inv :: "Crypto \<Rightarrow> BlockIdType list \<Rightarrow> BlockHeaderState \<Rightarrow> bool" where
  "dpos_inv C xs b \<longleftrightarrow>
     name_map (ProducerToLastProduced b) \<and> name_map (ProducerToLastImpliedIrb b) \<and>
     (\<forall>v \<in> ran (tree_map (ProducerToLastProduced b)). v \<le> BlockNum b) \<and>
     (\<forall>v \<in> ran (tree_map (ProducerToLastImpliedIrb b)). v \<le> DposProposedIrreversibleBlocknum b) \<and>
     DposIrreversibleBlocknum b \<le> DposProposedIrreversibleBlocknum b \<and>
     unat (DposProposedIrreversibleBlocknum b) + length (ConfirmCount b) \<le> unat (BlockNum b) \<and>
     length (ConfirmCount b) \<le> MaxTrackedDposConfirmations \<and>
     represents (HashPair C) (BlockrootMerkle b) xs \<and> length xs + 1 = unat (BlockNum b)"

lemma dpos_invD:
  assumes "dpos_inv C xs b"
  shows "name_map (ProducerToLastProduced b)" "name_map (ProducerToLastImpliedIrb b)"
    "\<And>v. v \<in> ran (tree_map (ProducerToLastProduced b)) \<Longrightarrow> v \<le> BlockNum b"
    "\<And>v. v \<in> ran (tree_map (ProducerToLastImpliedIrb b)) \<Longrightarrow> v \<le> DposProposedIrreversibleBlocknum b"
    "DposIrreversibleBlocknum b \<le> DposProposedIrreversibleBlocknum b"
    "unat (DposProposedIrreversibleBlocknum b) + length (ConfirmCount b) \<le> unat (BlockNum b)"
    "length (ConfirmCount b) \<le> MaxTrackedDposConfirmations"
  using assms unfolding dpos_inv_def by blast+

lemma CalcDpos_le:
  assumes "name_map (ProducerToLastImpliedIrb b)"
    "\<And>v. v \<in> ran (tree_map (ProducerToLastImpliedIrb b)) \<Longrightarrow> v \<le> p"
  obtains r where "CalcDposLastIrreversible b = Inr r" "r \<le> p"
  using CalcDpos_greatest [OF assms(1)] assms(2) word_zero_le by metis

lemma CalcDpos_cong:
  "ProducerToLastImpliedIrb b = ProducerToLastImpliedIrb b' \<Longrightarrow>
    CalcDposLastIrreversible b = CalcDposLastIrreversible b'"
  by (simp add: CalcDposLastIrreversible_def)

text \<open>What \<open>GenerateNext\<close> returns for a producer key and a slot.\<close>

definition next_of :: "BlockHeaderState \<Rightarrow> BlockTimeStamp \<Rightarrow> ProducerKey \<Rightarrow> BlockHeaderState \<Rightarrow> bool" where
  "next_of b when proKey r \<longleftrightarrow>
     BlockNum r = BlockNum b + 1 \<and>
     Header r = \<lparr>Timestamp = when, Producer = ProducerName proKey, Confirmed = 0, Previous = BlockId b,
        TransactionMRoot = NewSha256Nil, ActionMRoot = NewSha256Nil,
        ScheduleVersion = Version (ActiveSchedule b), NewProducers = None, HeaderExtensions = [],
        ProducerSignature = \<lparr>SigCurve = 0, SigContent = []\<rparr>\<rparr> \<and>
     BlockSigningKey r = ProducerSigningKey proKey \<and>
     ActiveSchedule r = ActiveSchedule b \<and> PendingSchedule r = PendingSchedule b \<and>
     PendingScheduleLibNum r = PendingScheduleLibNum b \<and> PendingScheduleHash r = PendingScheduleHash b \<and>
     DposProposedIrreversibleBlocknum r = DposProposedIrreversibleBlocknum b \<and>
     BftIrreversibleBlocknum r = BftIrreversibleBlocknum b \<and>
     tree_map (ProducerToLastProduced r) =
       (tree_map (ProducerToLastProduced b))(ProducerName proKey \<mapsto> BlockNum b + 1) \<and>
     tree_map (ProducerToLastImpliedIrb r) =
       (tree_map (ProducerToLastImpliedIrb b))(ProducerName proKey \<mapsto> DposProposedIrreversibleBlocknum b) \<and>
     CalcDposLastIrreversible r = Inr (DposIrreversibleBlocknum r) \<and> Confirmations r = []"

lemma GenerateNext_ok:
  assumes inv: "dpos_inv C xs b" and num: "unat (BlockNum b) + 1 < 2 ^ 32"
    and sched: "GetScheduledProducer b t = Inr proKey"
    and t: "t = (if when > 0 then when else Timestamp (Header b) + 1)"
      "when > 0 \<longrightarrow> when > Timestamp (Header b)"
  obtains r where "GenerateNext C b when = Inr r" "dpos_inv C (xs @ [BlockId b]) r" "next_of b t proKey r"
proof -
  note D = dpos_invD [OF inv]
  let ?n = "BlockNum b + 1" and ?name = "ProducerName proKey" and ?p = "DposProposedIrreversibleBlocknum b"
  have n: "unat ?n = unat (BlockNum b) + 1" using num by (simp add: unat_word_ariths)
  have le: "BlockNum b \<le> ?n" using n by (simp add: word_le_nat_alt)
  have xs: "represents (HashPair C) (BlockrootMerkle b) xs" "length xs + 1 = unat (BlockNum b)"
    using inv by (auto simp: dpos_inv_def)
  obtain m where m: "Append (HashPair C) (BlockrootMerkle b) (BlockId b) = Inr (m, Merkle (HashPair C) (xs @ [BlockId b]))"
      "represents (HashPair C) m (xs @ [BlockId b])"
    using Append_represents [OF xs(1), of "BlockId b"] xs(2) num by auto
  obtain lp where lp: "AccountNameUint32Map_Put (ProducerToLastProduced b) ?name ?n = Inr lp" "name_map lp"
      "tree_map lp = (tree_map (ProducerToLastProduced b))(?name \<mapsto> ?n)"
    using name_map_Put [OF D(1)] by metis
  obtain irb where irb: "AccountNameUint32Map_Put (ProducerToLastImpliedIrb b) ?name ?p = Inr irb" "name_map irb"
      "tree_map irb = (tree_map (ProducerToLastImpliedIrb b))(?name \<mapsto> ?p)"
    using name_map_Put [OF D(2)] by metis
  have lp_le: "v \<le> ?n" if "v \<in> ran (tree_map lp)" for v
    using that D(3) le unfolding lp(3) by (fastforce simp: ran_def split: if_splits)
  have irb_le: "v \<le> ?p" if "v \<in> ran (tree_map irb)" for v
    using that D(4) unfolding irb(3) by (fastforce simp: ran_def split: if_splits)
  obtain l where l: "CalcDposLastIrreversible (b\<lparr>ProducerToLastImpliedIrb := irb\<rparr>) = Inr l" "l \<le> ?p"
    using CalcDpos_le [of "b\<lparr>ProducerToLastImpliedIrb := irb\<rparr>" ?p] irb(2) irb_le by auto
  have calc: "CalcDposLastIrreversible b' = Inr l" if "ProducerToLastImpliedIrb b' = irb" for b' :: BlockHeaderState
    using that l(1) CalcDpos_cong [of b' "b\<lparr>ProducerToLastImpliedIrb := irb\<rparr>"] by simp
  have cc: "length (grow_ConfirmCount b) \<le> MaxTrackedDposConfirmations"
      "unat ?p + length (grow_ConfirmCount b) \<le> unat ?n"
    using D(6, 7) n by (auto simp: grow_ConfirmCount_def MaxTrackedDposConfirmations_def Let_def)
  let ?r = "(GenerateNext_result b t proKey m lp irb)
    \<lparr>DposIrreversibleBlocknum := l, ConfirmCount := grow_ConfirmCount b\<rparr>"
  show ?thesis
  proof (rule that)
    have w: "(if when > 0 then eos_assert (when > Timestamp (Header b)) BlockValidateException (Inr when)
        else Inr (Timestamp (Header b) + 1)) = Inr t"
      using t by auto
    have "CalcDposLastIrreversible (GenerateNext_result b t proKey m lp irb) = Inr l"
      by (rule calc) (simp add: GenerateNext_result_def)
    then show "GenerateNext C b when = Inr ?r"
      unfolding GenerateNext_def w by (simp add: sched lp(1) irb(1) m(1))
    show "dpos_inv C (xs @ [BlockId b]) ?r"
      using lp(2) irb(2) lp_le irb_le l(2) cc m(2) n xs(2)
      by (auto simp: dpos_inv_def GenerateNext_result_def)
    show "next_of b t proKey ?r"
      using lp(3) irb(3) by (auto simp: next_of_def GenerateNext_result_def calc)
  qed
qed

lemma SetConfirmed_loop_ok:
  assumes "i \<le> length (ConfirmCount b)"
    "unat (DposProposedIrreversibleBlocknum b) + length (ConfirmCount b) \<le> unat (BlockNum b)"
  shows "\<exists>p cc. SetConfirmed_loop b i k = b\<lparr>DposProposedIrreversibleBlocknum := p, ConfirmCount := cc\<rparr> \<and>
     DposProposedIrreversibleBlocknum b \<le> p \<and> unat p + length cc \<le> unat (BlockNum b) \<and>
     length cc \<le> length (ConfirmCount b)"
  using assms
proof (induction i arbitrary: b k)
  case 0
  then show ?case
    by (intro exI [of _ "DposProposedIrreversibleBlocknum b"] exI [of _ "ConfirmCount b"]) simp
next
  case (Suc i)
  let ?cc = "(ConfirmCount b)[i := ConfirmCount b ! i - 1]"
  let ?d = "of_nat (length ?cc - 1 - i) :: u32"
  consider "k = 0" | "0 < k" "?cc ! i = 0" | "0 < k" "?cc ! i \<noteq> 0" using word_gt_0 by blast
  then show ?case
  proof cases
    case 1
    with Suc.prems show ?thesis
      by (intro exI [of _ "DposProposedIrreversibleBlocknum b"] exI [of _ "ConfirmCount b"]) simp
  next
    case 2
    have le: "length ?cc - 1 - i \<le> unat (BlockNum b)" using Suc.prems(2) by simp
    then have d: "unat ?d = length ?cc - 1 - i"
      using unat_less_exp [of "BlockNum b"] by (simp only: unsigned_of_nat) (simp add: take_bit_nat_eq_self_iff)
    with le have "unat (BlockNum b - ?d) = unat (BlockNum b) - (length (ConfirmCount b) - 1 - i)"
      by (simp add: unat_sub_le word_le_nat_alt)
    with 2 Suc.prems show ?thesis
      by (intro exI [of _ "BlockNum b - ?d"] exI [of _ "drop (i + 1) ?cc"])
         (simp add: Let_def word_le_nat_alt)
  next
    case 3
    with Suc.IH [of "b\<lparr>ConfirmCount := ?cc\<rparr>" "k - 1"] Suc.prems show ?thesis
      by (auto simp: Let_def)
  qed
qed

lemma SetConfirmed_ok:
  assumes "dpos_inv C xs b"
  obtains p cc where
    "SetConfirmed b k = b\<lparr>Header := (Header b)\<lparr>Confirmed := k\<rparr>,
       DposProposedIrreversibleBlocknum := p, ConfirmCount := cc\<rparr>"
    "DposProposedIrreversibleBlocknum b \<le> p" "dpos_inv C xs (SetConfirmed b k)"
proof -
  let ?b = "b\<lparr>Header := (Header b)\<lparr>Confirmed := k\<rparr>\<rparr>"
  note D = dpos_invD [OF assms]
  obtain p cc where r: "SetConfirmed b k = ?b\<lparr>DposProposedIrreversibleBlocknum := p, ConfirmCount := cc\<rparr>"
    "DposProposedIrreversibleBlocknum b \<le> p" "unat p + length cc \<le> unat (BlockNum b)"
    "length cc \<le> length (ConfirmCount b)"
    using SetConfirmed_loop_ok [of "length (ConfirmCount b)" ?b "k + 1"] D(6)
    by (auto simp: SetConfirmed_def)
  then have "dpos_inv C xs (SetConfirmed b k)"
    using assms D(4, 5, 7) unfolding dpos_inv_def by (auto dest: order_trans)
  with r show ?thesis using that by simp
qed

lemma promote_map_ok:
  assumes "name_map old" "name_map new"
  obtains m where "promote_map l old pros new = Inr m" "name_map m"
    "ran (tree_map m) \<subseteq> ran (tree_map new) \<union> ran (tree_map old) \<union> {l}"
    "dom (tree_map m) = dom (tree_map new) \<union> ProducerName ` set pros"
  using assms
proof (induction pros arbitrary: new thesis)
  case Nil
  then show ?case by (intro Nil.prems(1) [of new]) auto
next
  case (Cons pro pros)
  let ?v = "case AccountNameUint32Map_Get old (ProducerName pro) of Some blockNum \<Rightarrow> blockNum | None \<Rightarrow> l"
  obtain n where n: "AccountNameUint32Map_Put new (ProducerName pro) ?v = Inr n" "name_map n"
      "tree_map n = (tree_map new)(ProducerName pro \<mapsto> ?v)"
    using name_map_Put [OF Cons.prems(3)] by metis
  have "?v \<in> ran (tree_map old) \<union> {l}"
    by (auto simp: name_map_Get [OF assms(1)] ran_def split: option.split)
  then have ran: "ran (tree_map n) \<subseteq> ran (tree_map new) \<union> ran (tree_map old) \<union> {l}"
    unfolding n(3) by (auto simp: ran_def split: if_splits)
  obtain m where "promote_map l old pros n = Inr m" "name_map m"
    "ran (tree_map m) \<subseteq> ran (tree_map n) \<union> ran (tree_map old) \<union> {l}"
    "dom (tree_map m) = dom (tree_map n) \<union> ProducerName ` set pros"
    using Cons.IH [OF _ assms(1) n(2)] by metis
  with ran n(1) show ?case by (intro Cons.prems(1) [of m]) (auto simp: n(3))
qed

lemma promote_map_New_ok:
  assumes "name_map old"
  shows "\<exists>m. promote_map l old pros NewAccountNameUint32Map = Inr m \<and> name_map m \<and>
    ran (tree_map m) \<subseteq> ran (tree_map old) \<union> {l} \<and> dom (tree_map m) = ProducerName ` set pros"
  by (rule promote_map_ok [OF assms name_map_New(1), of l pros]) (auto simp: name_map_New(2))

lemma MaybePromotePending_ok:
  assumes "dpos_inv C xs b"
  obtains act pend lp irb flag where
    "MaybePromotePending b = Inr (b\<lparr>ActiveSchedule := act, PendingSchedule := pend,
       ProducerToLastProduced := lp, ProducerToLastImpliedIrb := irb\<rparr>, flag)"
    "dpos_inv C xs (b\<lparr>ActiveSchedule := act, PendingSchedule := pend,
       ProducerToLastProduced := lp, ProducerToLastImpliedIrb := irb\<rparr>)"
    "flag \<longleftrightarrow> Producers (PendingSchedule b) \<noteq> [] \<and> PendingScheduleLibNum b \<le> DposIrreversibleBlocknum b"
    "flag \<Longrightarrow> act = PendingSchedule b \<and> pend = emptySchedule \<and>
       dom (tree_map irb) = ProducerName ` set (Producers act)"
    "\<not> flag \<Longrightarrow> act = ActiveSchedule b \<and> pend = PendingSchedule b"
proof (cases "Producers (PendingSchedule b) \<noteq> [] \<and> PendingScheduleLibNum b \<le> DposIrreversibleBlocknum b")
  case False
  then show ?thesis
    using that [where act = "ActiveSchedule b" and pend = "PendingSchedule b" and
        lp = "ProducerToLastProduced b" and irb = "ProducerToLastImpliedIrb b" and flag = False]
      assms by (auto simp: MaybePromotePending_def)
next
  case True
  note D = dpos_invD [OF assms]
  let ?l = "DposIrreversibleBlocknum b" and ?ps = "Producers (PendingSchedule b)"
  have "unat ?l \<le> unat (BlockNum b)" using D(5, 6) by (simp add: word_le_nat_alt)
  then have l: "?l \<le> BlockNum b" by (simp add: word_le_nat_alt)
  obtain lp where lp: "promote_map ?l (ProducerToLastProduced b) ?ps NewAccountNameUint32Map = Inr lp"
      "name_map lp" "ran (tree_map lp) \<subseteq> ran (tree_map (ProducerToLastProduced b)) \<union> {?l}"
    using promote_map_New_ok [OF D(1), of ?l ?ps] by auto
  obtain irb where irb: "promote_map ?l (ProducerToLastImpliedIrb b) ?ps NewAccountNameUint32Map = Inr irb"
      "name_map irb" "ran (tree_map irb) \<subseteq> ran (tree_map (ProducerToLastImpliedIrb b)) \<union> {?l}"
      "dom (tree_map irb) = ProducerName ` set ?ps"
    using promote_map_New_ok [OF D(2), of ?l ?ps] by auto
  obtain lp' where lp': "AccountNameUint32Map_Put lp (Producer (Header b)) (BlockNum b) = Inr lp'"
      "name_map lp'" "tree_map lp' = (tree_map lp)(Producer (Header b) \<mapsto> BlockNum b)"
    using name_map_Put [OF lp(2)] by metis
  have "v \<le> BlockNum b" if "v \<in> ran (tree_map lp')" for v
    using that lp(3) D(3) l unfolding lp'(3) by (fastforce simp: ran_def split: if_splits)
  then have "dpos_inv C xs (b\<lparr>ActiveSchedule := PendingSchedule b, PendingSchedule := emptySchedule,
      ProducerToLastProduced := lp', ProducerToLastImpliedIrb := irb\<rparr>)"
    using assms lp'(2) irb(2, 3) D(4, 5) unfolding dpos_inv_def by auto
  with True lp(1) irb(1, 4) lp'(1) show ?thesis
    by (intro that [where act = "PendingSchedule b" and pend = emptySchedule and lp = lp' and irb = irb
          and flag = True])
       (simp_all add: MaybePromotePending_def Let_def)
qed

lemma MaybePromotePending_keeps:
  assumes "dpos_inv C xs b" "MaybePromotePending b = Inr (r, flag)"
  shows "dpos_inv C xs r" "Header r = Header b" "BlockNum r = BlockNum b" "BlockSigningKey r = BlockSigningKey b"
    "DposProposedIrreversibleBlocknum r = DposProposedIrreversibleBlocknum b"
    "DposIrreversibleBlocknum r = DposIrreversibleBlocknum b"
  by (rule MaybePromotePending_ok [OF assms(1)]; use assms(2) in simp)+

section \<open>Validation of a header\<close>

text \<open>
  The guards in the order of the code. The comparison with the last block of the producer
  is written over the naturals: the 32-bit difference wraps when the header claims to
  confirm more blocks than there are, and the guard then accepts.
\<close>

definition double_confirms :: "BlockHeaderState \<Rightarrow> 'a BlockHeader_scheme \<Rightarrow> bool" where
  "double_confirms b h \<longleftrightarrow>
     unat (Confirmed h) \<le> unat (BlockNum b) + 1 \<and>
     (\<exists>n. tree_map (ProducerToLastProduced b) (Producer h) = Some n \<and>
        unat (BlockNum b) + 1 \<le> unat n + unat (Confirmed h))"

lemma unat_ucast_16_32: "unat (ucast (x :: u16) :: u32) = unat x"
  by (simp add: unat_ucast_up)

lemma double_confirms_guard:
  assumes "dpos_inv C xs b" "unat (BlockNum b) + 1 < 2 ^ 32" "BlockNum r = BlockNum b + 1"
  shows "(case AccountNameUint32Map_Get (ProducerToLastProduced b) (Producer h) of
          None \<Rightarrow> True
        | Some blockNum \<Rightarrow> blockNum < BlockNum r - ucast (Confirmed h)) \<longleftrightarrow> \<not> double_confirms b h"
proof -
  have n: "unat (BlockNum r) = unat (BlockNum b) + 1" using assms(2, 3) by (simp add: unat_word_ariths)
  have "(v < BlockNum r - ucast (Confirmed h)) \<longleftrightarrow>
      \<not> (unat (Confirmed h) \<le> unat (BlockNum b) + 1 \<and> unat (BlockNum b) + 1 \<le> unat v + unat (Confirmed h))"
    if "v \<le> BlockNum b" for v
  proof (cases "ucast (Confirmed h) \<le> BlockNum r")
    case True
    then have "unat (Confirmed h) \<le> unat (BlockNum b) + 1"
      using n by (simp add: word_le_nat_alt unat_ucast_16_32)
    with True show ?thesis
      using n unat_sub_le [OF True] by (auto simp: word_less_nat_alt unat_ucast_16_32)
  next
    case False
    then have big: "unat (BlockNum b) + 1 < unat (Confirmed h)"
      using n by (simp add: word_le_nat_alt unat_ucast_16_32)
    let ?c = "ucast (Confirmed h) :: u32"
    have "unat (Confirmed h) < 65536" using unat_less_exp [of "Confirmed h"] by simp
    have "unat v \<le> unat (BlockNum b)" using that by (simp add: word_le_nat_alt)
    moreover have "unat (BlockNum r - ?c) = unat (BlockNum r) + 4294967296 - unat ?c"
      using False unat_sub_if' [of "BlockNum r" ?c] by (simp add: word_le_nat_alt)
    ultimately have "v < BlockNum r - ?c"
      using n big \<open>unat (Confirmed h) < 65536\<close> unfolding word_less_nat_alt unat_ucast_16_32 by linarith
    with big show ?thesis by simp
  qed
  then show ?thesis
    using dpos_invD(3) [OF assms(1)]
    by (auto simp: name_map_Get [OF dpos_invD(1) [OF assms(1)]] double_confirms_def ran_def
        split: option.split)
qed

lemma Next_checked_eq:
  assumes "dpos_inv C xs b" "unat (BlockNum b) + 1 < 2 ^ 32"
    and sched: "GetScheduledProducer b (Timestamp h) = Inr proKey"
  shows "Next_checked C b h =
      (if Timestamp h = 0 \<or> HeaderExtensions h \<noteq> [] \<or> Timestamp h \<le> Timestamp (Header b)
       then Inl BlockValidateException
       else if Previous h \<noteq> BlockId b then Inl UnlinkableBlockException
       else if Producer h \<noteq> ProducerName proKey then Inl WrongProducer
       else if ScheduleVersion h \<noteq> Version (ActiveSchedule b) then Inl ProducerScheduleException
       else if double_confirms b h then Inl ProducerDoubleConfirm
       else GenerateNext C b (Timestamp h))"
proof (cases "Timestamp (Header b) < Timestamp h")
  case True
  then have "Timestamp h > 0" using word_gt_0 by (metis word_not_simps(1))
  with True obtain r where r: "GenerateNext C b (Timestamp h) = Inr r" "next_of b (Timestamp h) proKey r"
    using GenerateNext_ok [OF assms(1, 2) sched, of "Timestamp h"] by auto
  then have n: "BlockNum r = BlockNum b + 1" by (simp add: next_of_def)
  show ?thesis
    unfolding Next_checked_def r(1) rbind_simps double_confirms_guard [OF assms(1, 2) n]
    using True r(2) by (auto simp: next_of_def eos_assert_def)
next
  case False
  then show ?thesis by (auto simp: Next_checked_def eos_assert_def)
qed

lemma GenerateNext_scheduled:
  "GenerateNext C b when = Inr r \<Longrightarrow> when > 0 \<Longrightarrow> \<exists>proKey. GetScheduledProducer b when = Inr proKey"
  by (auto simp: GenerateNext_def result_iffs)

lemma Next_checked_Inr:
  assumes "dpos_inv C xs b" "unat (BlockNum b) + 1 < 2 ^ 32" "Next_checked C b h = Inr r"
  obtains proKey where "GetScheduledProducer b (Timestamp h) = Inr proKey"
    "Timestamp (Header b) < Timestamp h" "HeaderExtensions h = []" "Previous h = BlockId b"
    "Producer h = ProducerName proKey" "ScheduleVersion h = Version (ActiveSchedule b)"
    "\<not> double_confirms b h" "dpos_inv C (xs @ [BlockId b]) r" "next_of b (Timestamp h) proKey r"
proof -
  have pos: "Timestamp h > 0" and gen: "GenerateNext C b (Timestamp h) = Inr r"
    using assms(3) by (auto simp: Next_checked_def result_iffs word_gt_0)
  then obtain proKey where sched: "GetScheduledProducer b (Timestamp h) = Inr proKey"
    using GenerateNext_scheduled by blast
  have g: "Timestamp (Header b) < Timestamp h" "HeaderExtensions h = []" "Previous h = BlockId b"
    "Producer h = ProducerName proKey" "ScheduleVersion h = Version (ActiveSchedule b)"
    "\<not> double_confirms b h"
    using assms(3) unfolding Next_checked_eq [OF assms(1, 2) sched] by (auto split: if_splits)
  obtain r' where "GenerateNext C b (Timestamp h) = Inr r'" "dpos_inv C (xs @ [BlockId b]) r'" "next_of b (Timestamp h) proKey r'"
    using GenerateNext_ok [OF assms(1, 2) sched, of "Timestamp h"] pos g(1) by auto
  with gen sched g show ?thesis using that by simp
qed

text \<open>What a state produced by a validated header satisfies.\<close>

definition validated_by :: "Crypto \<Rightarrow> BlockHeaderState \<Rightarrow> SignedBlockHeader \<Rightarrow> bool \<Rightarrow> BlockHeaderState \<Rightarrow> bool" where
  "validated_by C b h trust r \<longleftrightarrow>
     (\<exists>proKey. GetScheduledProducer b (Timestamp h) = Inr proKey \<and> Producer h = ProducerName proKey \<and>
        (\<not> trust \<longrightarrow> Signee C r = Inr (ProducerSigningKey proKey))) \<and>
     Timestamp (Header b) < Timestamp h \<and> Previous h = BlockId b \<and>
     ScheduleVersion h = Version (ActiveSchedule b) \<and> \<not> double_confirms b h \<and>
     Header r = h \<and> BlockNum r = BlockNum b + 1 \<and> BlockId r = BlockID C h \<and>
     DposProposedIrreversibleBlocknum b \<le> DposProposedIrreversibleBlocknum r"

lemma PublicKey_Compare_iff: "PublicKey_Compare p q \<longleftrightarrow> p = q"
  by (cases p; cases q) (simp add: PublicKey_Compare_def)

lemma Next_new_producers_Inr:
  assumes "Next_new_producers C b h flag = Inr r" "NewProducers (Header b) = None"
  obtains ph ps pl where "r = b\<lparr>Header := (Header b)\<lparr>NewProducers := NewProducers h\<rparr>,
    PendingScheduleHash := ph, PendingSchedule := ps, PendingScheduleLibNum := pl\<rparr>"
proof (cases "NewProducers h")
  case None
  with assms have "r = b\<lparr>Header := (Header b)\<lparr>NewProducers := NewProducers h\<rparr>,
    PendingScheduleHash := PendingScheduleHash b, PendingSchedule := PendingSchedule b,
    PendingScheduleLibNum := PendingScheduleLibNum b\<rparr>"
    by (simp add: Next_new_producers_def)
  then show ?thesis by (rule that)
next
  case (Some np)
  with assms show ?thesis
    by (intro that) (auto simp: Next_new_producers_def SetNewProducers_def result_iffs)
qed

lemma Next_Inr:
  assumes "dpos_inv C xs b" "unat (BlockNum b) + 1 < 2 ^ 32" "BlockHeaderState_Next C b h trust = Inr r"
  shows "dpos_inv C (xs @ [BlockId b]) r \<and> validated_by C b h trust r"
proof -
  obtain r1 r3 flag r4 where r1: "Next_checked C b h = Inr r1"
    and r3: "MaybePromotePending (SetConfirmed r1 (Confirmed h)) = Inr (r3, flag)"
    and r4: "Next_new_producers C r3 h flag = Inr r4" and r: "r = Next_sealed C r4 h"
    and sig: "\<not> trust \<longrightarrow> Signee C r = Inr (BlockSigningKey r)"
    using assms(3)
    by (auto simp: BlockHeaderState_Next_def result_iffs Let_def PublicKey_Compare_iff split: if_splits)
  obtain proKey where g: "GetScheduledProducer b (Timestamp h) = Inr proKey"
    "Timestamp (Header b) < Timestamp h" "HeaderExtensions h = []" "Previous h = BlockId b"
    "Producer h = ProducerName proKey" "ScheduleVersion h = Version (ActiveSchedule b)"
    "\<not> double_confirms b h" "dpos_inv C (xs @ [BlockId b]) r1" "next_of b (Timestamp h) proKey r1"
    using Next_checked_Inr [OF assms(1, 2) r1] by blast
  obtain p cc where r2: "SetConfirmed r1 (Confirmed h) = r1\<lparr>Header := (Header r1)\<lparr>Confirmed := Confirmed h\<rparr>,
       DposProposedIrreversibleBlocknum := p, ConfirmCount := cc\<rparr>"
    "DposProposedIrreversibleBlocknum r1 \<le> p" "dpos_inv C (xs @ [BlockId b]) (SetConfirmed r1 (Confirmed h))"
    using SetConfirmed_ok [OF g(8)] by metis
  have inv3: "dpos_inv C (xs @ [BlockId b]) r3" and f3: "Header r3 = (Header r1)\<lparr>Confirmed := Confirmed h\<rparr>"
    "DposProposedIrreversibleBlocknum r3 = p" "BlockNum r3 = BlockNum r1" "BlockSigningKey r3 = BlockSigningKey r1"
    using MaybePromotePending_keeps [OF r2(3) r3] r2(1) by simp_all
  have none: "NewProducers (Header r3) = None" using f3(1) g(9) by (simp add: next_of_def)
  obtain ph ps pl where f4: "r4 = r3\<lparr>Header := (Header r3)\<lparr>NewProducers := NewProducers h\<rparr>,
    PendingScheduleHash := ph, PendingSchedule := ps, PendingScheduleLibNum := pl\<rparr>"
    by (rule Next_new_producers_Inr [OF r4 none])
  have "Header r = h"
    using g f3(1) by (cases h) (auto simp: r Next_sealed_def f4 next_of_def Let_def)
  moreover have "dpos_inv C (xs @ [BlockId b]) r" using inv3 by (auto simp: dpos_inv_def r Next_sealed_def f4 Let_def)
  moreover have "BlockId r = BlockID C (Header r)" "BlockNum r = BlockNum r3"
    "BlockSigningKey r = BlockSigningKey r3"
    "DposProposedIrreversibleBlocknum r = DposProposedIrreversibleBlocknum r3"
    by (simp_all add: r Next_sealed_def f4 Let_def)
  ultimately show ?thesis using g f3 sig r2(2) by (auto simp: validated_by_def next_of_def)
qed

lemma Next_accepts:
  assumes "dpos_inv C xs b" "unat (BlockNum b) + 1 < 2 ^ 32" "Next_checked C b h = Inr r1"
    "NewProducers h = None" trust
  shows "\<exists>r. BlockHeaderState_Next C b h trust = Inr r"
proof -
  have "dpos_inv C (xs @ [BlockId b]) r1" by (rule Next_checked_Inr [OF assms(1-3)])
  then have "dpos_inv C (xs @ [BlockId b]) (SetConfirmed r1 (Confirmed h))" by (rule SetConfirmed_ok)
  then obtain r3 flag where "MaybePromotePending (SetConfirmed r1 (Confirmed h)) = Inr (r3, flag)"
    by (rule MaybePromotePending_ok)
  then show ?thesis using assms(3-5) by (simp add: BlockHeaderState_Next_def Next_new_producers_def)
qed

text \<open>A state reached from another by accepted headers, with the ids of the blocks between.\<close>

inductive descends :: "Crypto \<Rightarrow> BlockHeaderState \<Rightarrow> BlockIdType list \<Rightarrow> BlockHeaderState \<Rightarrow> bool" where
  descends_refl: "descends C b [] b"
| descends_step: "descends C b ids r \<Longrightarrow> BlockHeaderState_Next C r h trust = Inr r' \<Longrightarrow>
    descends C b (ids @ [BlockId r]) r'"

lemma descends_inv:
  assumes "descends C g ids r" "dpos_inv C [] g" "NumFromID (BlockId g) = BlockNum g" "length ids + 1 < 2 ^ 32"
  shows "dpos_inv C ids r \<and> NumFromID (BlockId r) = BlockNum r \<and>
    DposProposedIrreversibleBlocknum g \<le> DposProposedIrreversibleBlocknum r"
  using assms
proof (induction rule: descends.induct)
  case (descends_step C b ids r h trust r')
  then have IH: "dpos_inv C ids r" "NumFromID (BlockId r) = BlockNum r"
      "DposProposedIrreversibleBlocknum b \<le> DposProposedIrreversibleBlocknum r" by simp_all
  then have "unat (BlockNum r) + 1 < 2 ^ 32" using descends_step.prems(3) by (simp add: dpos_inv_def)
  with Next_Inr [OF IH(1) _ descends_step.hyps(2)] IH show ?case
    by (auto simp: validated_by_def NumFromID_BlockID BlockNumber_def)
qed simp

lemma GenerateNext_Inr:
  assumes "dpos_inv C xs b" "unat (BlockNum b) + 1 < 2 ^ 32" "GenerateNext C b when = Inr r"
  obtains t proKey where "GetScheduledProducer b t = Inr proKey" "dpos_inv C (xs @ [BlockId b]) r" "next_of b t proKey r"
proof -
  let ?t = "if when > 0 then when else Timestamp (Header b) + 1"
  have w: "when > 0 \<longrightarrow> when > Timestamp (Header b)"
    using assms(3) by (auto simp: GenerateNext_def result_iffs)
  moreover have "\<exists>proKey. GetScheduledProducer b ?t = Inr proKey"
    using assms(3) by (cases "when > 0") (auto simp: GenerateNext_def result_iffs)
  then obtain proKey where "GetScheduledProducer b ?t = Inr proKey" ..
  ultimately show ?thesis
    using GenerateNext_ok [OF assms(1, 2), of ?t proKey "when"] assms(3) that by auto
qed

lemma support_update:
  assumes "finite (dom f)" "\<And>v. v \<in> ran f \<Longrightarrow> v \<le> p" "s \<le> p" "2 * card (dom f) < 3 * support f s"
  shows "2 * card (dom (f(k \<mapsto> p))) < 3 * support (f(k \<mapsto> p)) s"
proof -
  let ?A = "\<lambda>f. {q. \<exists>v. f q = Some v \<and> s \<le> v}"
  have fin: "finite (?A f)" by (rule finite_subset [OF _ assms(1)]) auto
  have A: "?A (f(k \<mapsto> p)) = insert k (?A f)" using assms(3) by (auto split: if_splits)
  show ?thesis
  proof (cases "k \<in> dom f")
    case True
    then have "dom (f(k \<mapsto> p)) = dom f" by auto
    moreover have "support f s \<le> support (f(k \<mapsto> p)) s"
      using A fin by (auto simp: support_def intro: card_mono)
    ultimately show ?thesis using assms(4) by simp
  next
    case False
    then have "k \<notin> ?A f" by auto
    then have "support (f(k \<mapsto> p)) s = Suc (support f s)" using A fin by (simp add: support_def)
    moreover have "card (dom (f(k \<mapsto> p))) = Suc (card (dom f))" using False assms(1) by simp
    ultimately show ?thesis using assms(4) by simp
  qed
qed

lemma GenerateNext_monotone:
  assumes "dpos_inv C xs b" "unat (BlockNum b) + 1 < 2 ^ 32" "GenerateNext C b when = Inr r"
    "CalcDposLastIrreversible b = Inr l"
  shows "l \<le> DposIrreversibleBlocknum r"
proof -
  let ?f = "tree_map (ProducerToLastImpliedIrb b)" and ?p = "DposProposedIrreversibleBlocknum b"
  note D = dpos_invD [OF assms(1)]
  obtain t proKey where r: "dpos_inv C (xs @ [BlockId b]) r" "next_of b t proKey r"
    using GenerateNext_Inr [OF assms(1-3)] by blast
  then have f: "tree_map (ProducerToLastImpliedIrb r) = ?f(ProducerName proKey \<mapsto> ?p)"
    and calc: "CalcDposLastIrreversible r = Inr (DposIrreversibleBlocknum r)" by (simp_all add: next_of_def)
  have fin: "finite (dom ?f)" by (simp add: tree_map_def finite_dom_map_of)
  obtain l' where l': "CalcDposLastIrreversible b = Inr l'" "?f = Map.empty \<Longrightarrow> l' = 0"
    "?f \<noteq> Map.empty \<Longrightarrow> l' \<in> ran ?f" "?f \<noteq> Map.empty \<Longrightarrow> 2 * card (dom ?f) < 3 * support ?f l'"
    by (rule CalcDpos_greatest [OF D(2)]) blast
  obtain m where m: "CalcDposLastIrreversible r = Inr m"
    "\<And>s. 2 * card (dom (?f(ProducerName proKey \<mapsto> ?p))) < 3 * support (?f(ProducerName proKey \<mapsto> ?p)) s \<Longrightarrow> s \<le> m"
    by (rule CalcDpos_greatest [OF dpos_invD(2) [OF r(1)], unfolded f]) blast
  show ?thesis
  proof (cases "?f = Map.empty")
    case False
    with l'(3, 4) support_update [OF fin D(4)] D(4) m(2) have "l' \<le> m" by blast
    with l'(1) m(1) calc assms(4) show ?thesis by simp
  qed (use l' assms(4) in simp)
qed

text \<open>The confirmations of a block: distinct scheduled producers, each signing the digest with its key.\<close>

definition confirmations_ok :: "Crypto \<Rightarrow> BlockHeaderState \<Rightarrow> bool" where
  "confirmations_ok C b \<longleftrightarrow>
     distinct (map ConfProducer (Confirmations b)) \<and>
     (\<forall>c \<in> set (Confirmations b). \<exists>d key. SigDigest C b = Inr d \<and>
        RecoverKey C (ConfSignature c) (Bytes d) = Some key \<and>
        GetProducerKey (ActiveSchedule b) (ConfProducer c) = Some key)"

lemma find_producer_Some: "find_producer ps p = Some k \<Longrightarrow> \<exists>i \<in> set ps. ProducerName i = p \<and> ProducerSigningKey i = k"
  by (induction ps) (auto split: if_splits)

lemma SigDigest_Confirmations [simp]: "SigDigest C (b\<lparr>Confirmations := cs\<rparr>) = SigDigest C b"
  by (simp add: SigDigest_def)

lemma AddConfirmation_ok:
  assumes "confirmations_ok C b" "AddConfirmation C b conf = Inr r"
  shows "confirmations_ok C r \<and> r = b\<lparr>Confirmations := Confirmations b @ [conf]\<rparr>"
  using assms
  by (auto simp: AddConfirmation_def confirmations_ok_def result_iffs recover_def PublicKey_Compare_iff
      split: option.splits) blast

lemma confirmations_bounded:
  assumes "confirmations_ok C b"
  shows "length (Confirmations b) \<le> length (Producers (ActiveSchedule b))"
proof -
  have "set (map ConfProducer (Confirmations b)) \<subseteq> ProducerName ` set (Producers (ActiveSchedule b))"
  proof -
    have "ConfProducer c \<in> ProducerName ` set (Producers (ActiveSchedule b))" if "c \<in> set (Confirmations b)" for c
      using assms that find_producer_Some unfolding confirmations_ok_def GetProducerKey_def by (metis imageI)
    then show ?thesis by auto
  qed
  then have "card (set (map ConfProducer (Confirmations b))) \<le> card (set (Producers (ActiveSchedule b)))"
    by (meson card_image_le card_mono finite_imageI finite_set order_trans)
  also have "\<dots> \<le> length (Producers (ActiveSchedule b))" by (rule card_length)
  also have "card (set (map ConfProducer (Confirmations b))) = length (Confirmations b)"
    using assms distinct_card unfolding confirmations_ok_def by (metis length_map)
  finally show ?thesis .
qed

lemma NumFromID_nil: "NumFromID NewSha256Nil = 0"
  by (simp add: NumFromID_def EndianReverseU32_def NewSha256Nil_def)

lemma genesis_inv: "dpos_inv C [] (genesisHeaderState C acc key t chainId)"
  by (auto simp: dpos_inv_def genesisHeaderState_def name_map_New NewSignedBlockHeader_def BlockNumber_def
      NumFromID_nil MaxTrackedDposConfirmations_def Let_def
      intro: represents_empty)

lemma genesis_fields:
  "BlockNum (genesisHeaderState C acc key t chainId) = 1"
  "NumFromID (BlockId (genesisHeaderState C acc key t chainId)) = 1"
  "Producers (ActiveSchedule (genesisHeaderState C acc key t chainId)) =
     [\<lparr>ProducerName = acc, ProducerSigningKey = key\<rparr>]"
  "Timestamp (Header (genesisHeaderState C acc key t chainId)) = NewBlockTimeStamp t"
  by (simp_all add: genesisHeaderState_def NewSignedBlockHeader_def BlockNumber_def NumFromID_BlockID
      NumFromID_nil Let_def)

text \<open>A concrete crypto record for the witnesses: every hash is the first component or zero.\<close>

definition toyCrypto :: Crypto where
  "toyCrypto = \<lparr>HashPair = fst, HashHeader = (\<lambda>_. NewSha256Nil), HashSchedule = (\<lambda>_. NewSha256Nil),
     HashShared = (\<lambda>_. NewSha256Nil), RecoverKey = (\<lambda>s _. Some \<lparr>Curve = SigCurve s, KeyContent = SigContent s\<rparr>)\<rparr>"

lemma toy_recover: "RecoverKey toyCrypto s d = Some \<lparr>Curve = SigCurve s, KeyContent = SigContent s\<rparr>"
  by (simp add: toyCrypto_def)

abbreviation toyGenesis :: BlockHeaderState where
  "toyGenesis \<equiv> genesisHeaderState toyCrypto 6 \<lparr>Curve = 0, KeyContent = []\<rparr> 946684800000000 NewSha256Nil"

definition toyHeader :: SignedBlockHeader where
  "toyHeader = NewSignedBlockHeader\<lparr>Timestamp := 1, Producer := 6, Confirmed := 0,
     Previous := BlockId toyGenesis\<rparr>"

lemma toyGenesis_time: "NewBlockTimeStamp 946684800000000 = 0" by code_simp

lemma toy_next: "\<exists>r. BlockHeaderState_Next toyCrypto toyGenesis toyHeader True = Inr r"
proof -
  have inv: "dpos_inv toyCrypto [] toyGenesis" by (rule genesis_inv)
  have sched: "GetScheduledProducer toyGenesis 1 =
      Inr \<lparr>ProducerName = 6, ProducerSigningKey = \<lparr>Curve = 0, KeyContent = []\<rparr>\<rparr>"
    using GetScheduledProducer_eq [of toyGenesis, OF refl, of 1] by (simp add: genesis_fields)
  have "ProducerToLastProduced toyGenesis = NewAccountNameUint32Map" "Version (ActiveSchedule toyGenesis) = 0"
    by (simp_all add: genesisHeaderState_def Let_def)
  then have "Next_checked toyCrypto toyGenesis toyHeader = GenerateNext toyCrypto toyGenesis 1"
    using Next_checked_eq [OF inv _ , of toyHeader] sched
    by (simp add: toyHeader_def NewSignedBlockHeader_def genesis_fields toyGenesis_time double_confirms_def name_map_New)
  moreover obtain r1 where "GenerateNext toyCrypto toyGenesis 1 = Inr r1"
    using GenerateNext_ok [OF inv _ sched, of 1] by (auto simp: genesis_fields toyGenesis_time)
  ultimately show ?thesis
    using Next_accepts [OF inv, of toyHeader r1 True]
    by (simp add: genesis_fields) (simp add: toyHeader_def NewSignedBlockHeader_def)
qed

section \<open>Properties\<close>

text \<open>
  The block number is embedded in the block id and survives the hash: the number read
  from the id of a header is the number of that header, one more than the number read from
  the id of its predecessor, whatever the hash function.
\<close>

theorem block_id_carries_number:
  "NumFromID (BlockID C h) = BlockNumber h \<and> BlockNumber h = NumFromID (Previous h) + 1"
  by (simp add: NumFromID_BlockID BlockNumber_def)

text \<open>
  The schedule is a round robin: with a non-empty active schedule whose slots fit 32 bits,
  slot \<open>t\<close> belongs to the producer at position \<open>(t div 12) mod n\<close>, without panic; twelve
  consecutive slots belong to one producer and every producer has its turn in each round. An
  empty schedule panics (division by zero).
\<close>

theorem scheduled_producer_round_robin:
  "length (Producers (ActiveSchedule b)) * 12 < 2 ^ 32 \<Longrightarrow>
   GetScheduledProducer b t =
     (if Producers (ActiveSchedule b) = [] then Inl GoPanic
      else Inr (Producers (ActiveSchedule b) ! ((unat t div 12) mod length (Producers (ActiveSchedule b)))))"
  using GetScheduledProducer_eq [of b, OF refl, of t]
  by (cases "Producers (ActiveSchedule b) = []") (simp add: GetScheduledProducer_def, simp)

theorem scheduled_producer_round_robin_witness:
  "GetScheduledProducer toyGenesis 25 = Inr \<lparr>ProducerName = 6, ProducerSigningKey = \<lparr>Curve = 0, KeyContent = []\<rparr>\<rparr>"
  using scheduled_producer_round_robin [of toyGenesis 25] by (simp add: genesis_fields)

text \<open>
  C17. The last irreversible block computed from a well-formed map is the greatest block
  number that more than two thirds of the producers of the map imply to be irreversible,
  and 0 for an empty map: it is one of the implied numbers, it has that support, and no
  greater number has.
\<close>

theorem last_irreversible_is_greatest:
  assumes "name_map (ProducerToLastImpliedIrb b)"
  shows "\<exists>r. CalcDposLastIrreversible b = Inr r \<and>
    (let f = tree_map (ProducerToLastImpliedIrb b) in
     if f = Map.empty then r = 0
     else r \<in> ran f \<and> 2 * card (dom f) < 3 * support f r \<and>
          (\<forall>s. 2 * card (dom f) < 3 * support f s \<longrightarrow> s \<le> r))"
  by (rule CalcDpos_greatest [OF assms]) (auto simp: Let_def)

theorem last_irreversible_is_greatest_witness:
  "CalcDposLastIrreversible toyGenesis = Inr 0"
proof -
  have "ProducerToLastImpliedIrb toyGenesis = NewAccountNameUint32Map"
    by (simp add: genesisHeaderState_def Let_def)
  then show ?thesis using last_irreversible_is_greatest [of toyGenesis] name_map_New by auto
qed

text \<open>
  C14. A header accepted by \<open>Next\<close> is the header of the new state, unchanged; it is later than
  its predecessor, links to it, carries the schedule version in force, comes from the
  producer scheduled for its slot and, unless trusted, is signed with that producer's key;
  it does not confirm a range the producer has confirmed. The state is one block higher.
\<close>

theorem next_validates_header:
  assumes "dpos_inv C xs b" "unat (BlockNum b) + 1 < 2 ^ 32"
    and "BlockHeaderState_Next C b h trust = Inr r"
  shows "validated_by C b h trust r"
  using Next_Inr [OF assms] by simp

theorem next_validates_header_witness:
  "\<exists>r. BlockHeaderState_Next toyCrypto toyGenesis toyHeader True = Inr r \<and>
     validated_by toyCrypto toyGenesis toyHeader True r"
  using toy_next next_validates_header [OF genesis_inv, of toyCrypto 6 _ 946684800000000 NewSha256Nil toyHeader True]
  by (fastforce simp: genesis_fields)

text \<open>
  C28. The errors of \<open>Next\<close>, in the order of its checks: on a well-formed state with a schedule
  whose slots fit 32 bits, a header without time, with extensions or not later than its
  predecessor gives \<open>BlockValidateException\<close>; one that does not link gives
  \<open>UnlinkableBlockException\<close>; a producer that is not scheduled gives \<open>WrongProducer\<close>; a wrong
  schedule version \<open>ProducerScheduleException\<close>; a range confirmed before
  \<open>ProducerDoubleConfirm\<close>; and a trusted header that passes and announces no producers is
  accepted.
\<close>

theorem next_errors:
  assumes "dpos_inv C xs b" "unat (BlockNum b) + 1 < 2 ^ 32"
    and "Producers (ActiveSchedule b) = ps" "ps \<noteq> []" "length ps * 12 < 2 ^ 32"
  shows "(if Timestamp h = 0 \<or> HeaderExtensions h \<noteq> [] \<or> Timestamp h \<le> Timestamp (Header b)
          then BlockHeaderState_Next C b h trust = Inl BlockValidateException
          else if Previous h \<noteq> BlockId b
          then BlockHeaderState_Next C b h trust = Inl UnlinkableBlockException
          else if Producer h \<noteq> ProducerName (ps ! ((unat (Timestamp h) div 12) mod length ps))
          then BlockHeaderState_Next C b h trust = Inl WrongProducer
          else if ScheduleVersion h \<noteq> Version (ActiveSchedule b)
          then BlockHeaderState_Next C b h trust = Inl ProducerScheduleException
          else if double_confirms b h
          then BlockHeaderState_Next C b h trust = Inl ProducerDoubleConfirm
          else trust \<and> NewProducers h = None \<longrightarrow> (\<exists>r. BlockHeaderState_Next C b h trust = Inr r))"
proof -
  let ?pk = "ps ! ((unat (Timestamp h) div 12) mod length ps)"
  have sched: "GetScheduledProducer b (Timestamp h) = Inr ?pk"
    by (rule GetScheduledProducer_eq [OF assms(3-5)])
  note eq = Next_checked_eq [OF assms(1, 2) sched]
  have err: "Next_checked C b h = Inl e \<Longrightarrow> BlockHeaderState_Next C b h trust = Inl e" for e
    by (simp add: BlockHeaderState_Next_def)
  have ok: "\<exists>r1. GenerateNext C b (Timestamp h) = Inr r1" if "Timestamp (Header b) < Timestamp h" "Timestamp h \<noteq> 0"
    using GenerateNext_ok [OF assms(1, 2) sched, of "Timestamp h"] that by (auto simp: word_gt_0)
  show ?thesis
    using eq err ok Next_accepts [OF assms(1, 2)] by (auto simp: not_le)
qed

theorem next_errors_witness:
  "BlockHeaderState_Next toyCrypto toyGenesis (toyHeader\<lparr>Producer := 7\<rparr>) False = Inl WrongProducer"
  using next_errors [OF genesis_inv, of toyCrypto 6 "\<lparr>Curve = 0, KeyContent = []\<rparr>" 946684800000000 NewSha256Nil _
      "toyHeader\<lparr>Producer := 7\<rparr>" False]
  by (simp add: genesis_fields toyGenesis_time toyHeader_def NewSignedBlockHeader_def)

text \<open>
  C2. Every state reached from the genesis state by accepted headers keeps the invariant: its
  block number is the number embedded in its id and counts its ancestors, the irreversible
  block never passes the proposed one and the proposed one never passes the head, the
  proposed block never goes back, the tracked confirmations are bounded, and the block
  root is the Merkle root of the ids of all ancestors. The bound is the 32-bit block
  number.
\<close>

theorem header_chain_invariant:
  assumes "descends C (genesisHeaderState C acc key t chainId) ids r" "length ids + 1 < 2 ^ 32"
  shows "dpos_inv C ids r \<and> NumFromID (BlockId r) = BlockNum r \<and> unat (BlockNum r) = length ids + 1 \<and>
    DposIrreversibleBlocknum r \<le> DposProposedIrreversibleBlocknum r \<and>
    DposProposedIrreversibleBlocknum r \<le> BlockNum r \<and> length (ConfirmCount r) \<le> 1024 \<and>
    GetRoot (BlockrootMerkle r) = Inr (Merkle (HashPair C) ids)"
proof -
  have inv: "dpos_inv C ids r" "NumFromID (BlockId r) = BlockNum r"
    using descends_inv [OF assms(1) genesis_inv _ assms(2)] by (simp_all add: genesis_fields)
  with dpos_invD [OF inv(1)] show ?thesis
    by (auto simp: dpos_inv_def word_le_nat_alt MaxTrackedDposConfirmations_def intro: GetRoot_represents)
qed

theorem header_chain_invariant_witness:
  "\<exists>r. descends toyCrypto toyGenesis [BlockId toyGenesis] r \<and> BlockNum r = 2 \<and> dpos_inv toyCrypto [BlockId toyGenesis] r"
proof -
  obtain r where "BlockHeaderState_Next toyCrypto toyGenesis toyHeader True = Inr r" using toy_next ..
  then have d: "descends toyCrypto toyGenesis [BlockId toyGenesis] r"
    using descends_step [OF descends_refl] by fastforce
  then have "unat (BlockNum r) = unat (2 :: u32)" "dpos_inv toyCrypto [BlockId toyGenesis] r"
    using header_chain_invariant [OF d] by simp_all
  with d show ?thesis by (auto simp only: word_unat_eq_iff)
qed

text \<open>
  C15. Finality does not go back while a schedule is in force: the last irreversible block of
  the state \<open>GenerateNext\<close> returns is at least the one its predecessor's confirmations imply.
\<close>

theorem finality_monotone:
  assumes "dpos_inv C xs b" "unat (BlockNum b) + 1 < 2 ^ 32" "GenerateNext C b when = Inr r"
    and "CalcDposLastIrreversible b = Inr l"
  shows "l \<le> DposIrreversibleBlocknum r \<and> DposIrreversibleBlocknum r \<le> DposProposedIrreversibleBlocknum b"
proof -
  obtain t proKey where "dpos_inv C (xs @ [BlockId b]) r" "next_of b t proKey r"
    using GenerateNext_Inr [OF assms(1-3)] by blast
  then show ?thesis using GenerateNext_monotone [OF assms] dpos_invD(5) by (metis next_of_def)
qed

theorem finality_monotone_witness:
  "\<exists>l r. GenerateNext toyCrypto toyGenesis 1 = Inr r \<and> CalcDposLastIrreversible toyGenesis = Inr l \<and>
     l \<le> DposIrreversibleBlocknum r"
proof -
  obtain r where r: "GenerateNext toyCrypto toyGenesis 1 = Inr r"
    using toy_next by (auto simp: BlockHeaderState_Next_def Next_checked_def toyHeader_def result_iffs)
  obtain l where l: "CalcDposLastIrreversible toyGenesis = Inr l"
    by (rule CalcDpos_greatest [OF dpos_invD(2) [OF genesis_inv]]) blast
  show ?thesis using finality_monotone [OF genesis_inv _ r l] r l by (simp add: genesis_fields)
qed

text \<open>
  C29. The confirmation of a block by the block itself and its boundary: a block that needs one
  more confirmation becomes the proposed irreversible block as soon as it is confirmed,
  whatever number of earlier blocks the header claims to confirm, except 65535: there the
  16-bit counter of blocks to confirm wraps to zero and no block is confirmed at all.
\<close>

theorem confirmation_wraps:
  "SetConfirmed b 0xFFFF = b\<lparr>Header := (Header b)\<lparr>Confirmed := 0xFFFF\<rparr>\<rparr> \<and>
   (k \<noteq> 0xFFFF \<and> ConfirmCount b \<noteq> [] \<and> last (ConfirmCount b) = 1 \<longrightarrow>
      SetConfirmed b k = b\<lparr>Header := (Header b)\<lparr>Confirmed := k\<rparr>,
        DposProposedIrreversibleBlocknum := BlockNum b, ConfirmCount := []\<rparr>)"
proof (intro conjI impI)
  show "SetConfirmed b 0xFFFF = b\<lparr>Header := (Header b)\<lparr>Confirmed := 0xFFFF\<rparr>\<rparr>"
    by (cases "length (ConfirmCount b)") (simp_all add: SetConfirmed_def)
next
  assume k: "k \<noteq> 0xFFFF \<and> ConfirmCount b \<noteq> [] \<and> last (ConfirmCount b) = 1"
  then obtain i where i: "length (ConfirmCount b) = Suc i" by (cases "ConfirmCount b") auto
  have "k + 1 \<noteq> 0"
  proof
    assume "k + 1 = 0"
    then have "k = - 1" by (simp add: eq_neg_iff_add_eq_0)
    with k show False by simp
  qed
  then have "0 < k + 1" by (simp add: word_gt_0)
  with k i show "SetConfirmed b k = b\<lparr>Header := (Header b)\<lparr>Confirmed := k\<rparr>,
        DposProposedIrreversibleBlocknum := BlockNum b, ConfirmCount := []\<rparr>"
    by (auto simp: SetConfirmed_def last_conv_nth)
qed

theorem confirmation_wraps_witness:
  "SetConfirmed (toyGenesis\<lparr>ConfirmCount := [1]\<rparr>) 3 = toyGenesis\<lparr>Header := (Header toyGenesis)\<lparr>Confirmed := 3\<rparr>,
     DposProposedIrreversibleBlocknum := 1, ConfirmCount := []\<rparr>"
  using confirmation_wraps [of "toyGenesis\<lparr>ConfirmCount := [1]\<rparr>" 3] by (simp add: genesis_fields)

text \<open>
  C18. \<open>AddConfirmation\<close> keeps the confirmations sound: they come from distinct producers of
  the active schedule, each signature recovers the key the schedule gives to that
  producer for the digest of the block, and so there are never more than producers.
\<close>

theorem confirmations_sound:
  assumes "confirmations_ok C b" "AddConfirmation C b conf = Inr r"
  shows "confirmations_ok C r \<and> r = b\<lparr>Confirmations := Confirmations b @ [conf]\<rparr> \<and>
     length (Confirmations r) \<le> length (Producers (ActiveSchedule r))"
  using AddConfirmation_ok [OF assms] confirmations_bounded by blast

theorem confirmations_sound_witness:
  "\<exists>r. AddConfirmation toyCrypto toyGenesis
     \<lparr>ConfBlockId = NewSha256Nil, ConfProducer = 6, ConfSignature = \<lparr>SigCurve = 0, SigContent = []\<rparr>\<rparr> = Inr r \<and>
     confirmations_ok toyCrypto r"
proof -
  let ?conf = "\<lparr>ConfBlockId = NewSha256Nil, ConfProducer = 6, ConfSignature = \<lparr>SigCurve = 0, SigContent = []\<rparr>\<rparr>"
  have c: "Confirmations toyGenesis = []" by (simp add: genesisHeaderState_def Let_def)
  obtain d where "SigDigest toyCrypto toyGenesis = Inr d"
    by (auto simp: SigDigest_def genesisHeaderState_def GetRoot_def emptyMerkle_def Let_def)
  then have "AddConfirmation toyCrypto toyGenesis ?conf = Inr (toyGenesis\<lparr>Confirmations := [?conf]\<rparr>)"
    by (simp add: AddConfirmation_def c GetProducerKey_def genesis_fields recover_def toy_recover
        PublicKey_Compare_iff)
  then show ?thesis using confirmations_sound [of toyCrypto toyGenesis ?conf] c by (auto simp: confirmations_ok_def)
qed

end
