(* ===== verification/Eos_ForkIndex.thy ===== *)
theory Eos_ForkIndex
  imports Eos_Header
begin

text \<open>
  The multi index of block states: \<open>src/chain/types/block_state.go\<close> and the generated
  container under \<open>src/chain/types/generated_containers/forkdb_multi_index\<close>. Block states are
  objects of an explicit heap, pointers are references into it. The ordered indices are
  generated from the red-black tree template verified in \<open>Eos_RBTree\<close> and stand here for
  their in-order sequence of references: insertion after the elements that are not greater
  (\<open>tree_put_correct\<close>), removal of one node, and the bounds as first elements (\<open>tree_bounds_correct\<close>). Keys are read through
  the heap, as the code keeps pointers to the fields of the states. Shown: the comparators
  are orders on complete keys, and every operation keeps the indices sorted and consistent.
\<close>

section \<open>Model\<close>

text \<open>The contents of receipts and of cached transactions are not looked at here.\<close>

typedecl TransactionReceipt

typedecl TransactionMetadata

record SignedBlock =
  SignedBlockHeaderOf :: SignedBlockHeader
  Transactions :: "TransactionReceipt list"
  BlockExtensions :: "Extension list"

record BlockState =
  HeaderState :: BlockHeaderState
  BlockOf :: SignedBlock
  Validated :: bool
  InCurrentChain :: bool
  Trxs :: "TransactionMetadata list"

definition emptySignedBlock :: SignedBlock where
  "emptySignedBlock =
     \<lparr>SignedBlockHeaderOf = NewSignedBlockHeader\<lparr>Confirmed := 0\<rparr>, Transactions = [], BlockExtensions = []\<rparr>"

definition NewBlockState :: "BlockHeaderState \<Rightarrow> BlockState" where
  "NewBlockState cur =
     \<lparr>HeaderState = cur, BlockOf = emptySignedBlock, Validated = False, InCurrentChain = False, Trxs = []\<rparr>"

definition NewBlockState2 :: "Crypto \<Rightarrow> BlockHeaderState \<Rightarrow> BlockTimeStamp \<Rightarrow> BlockState result" where
  "NewBlockState2 C prev when =
     rbind (GenerateNext C prev when) (\<lambda>s.
       Inr \<lparr>HeaderState = s, BlockOf = emptySignedBlock\<lparr>SignedBlockHeaderOf := Header s\<rparr>,
            Validated = False, InCurrentChain = False, Trxs = []\<rparr>)"

definition NewBlockState3 :: "Crypto \<Rightarrow> BlockHeaderState \<Rightarrow> SignedBlock \<Rightarrow> bool \<Rightarrow> BlockState result" where
  "NewBlockState3 C prev b trust =
     rbind (BlockHeaderState_Next C prev (SignedBlockHeaderOf b) trust) (\<lambda>s.
       Inr \<lparr>HeaderState = s, BlockOf = b, Validated = False, InCurrentChain = False, Trxs = []\<rparr>)"

definition SignedBlock_IsEmpty :: "SignedBlock \<Rightarrow> bool" where
  "SignedBlock_IsEmpty b \<longleftrightarrow>
     length (Transactions b) = 0 \<and> length (BlockExtensions b) = 0 \<and> SignedBlockHeader_IsEmpty (SignedBlockHeaderOf b)"

definition BlockState_IsEmpty :: "BlockState \<Rightarrow> bool" where
  "BlockState_IsEmpty b \<longleftrightarrow>
     SignedBlock_IsEmpty (BlockOf b) \<and> \<not> Validated b \<and> \<not> InCurrentChain b \<and> length (Trxs b) = 0"

subsection \<open>Composite keys\<close>

type_synonym ByBlockNumComposite = "u32 option \<times> bool option"
type_synonym ByLibBlockNumComposite = "u32 option \<times> u32 option \<times> u32 option"

text \<open>One field of a composite key: absent fields do not decide.\<close>

definition by_field :: "('a \<Rightarrow> 'a \<Rightarrow> bool) \<Rightarrow> 'a option \<Rightarrow> 'a option \<Rightarrow> int \<Rightarrow> int" where
  "by_field lt a b k =
     (case (a, b) of (Some x, Some y) \<Rightarrow> if lt x y then -1 else if lt y x then 1 else k | _ \<Rightarrow> k)"

definition ByBlockNumCompare :: "ByBlockNumComposite \<Rightarrow> ByBlockNumComposite \<Rightarrow> int" where
  "ByBlockNumCompare a b =
     by_field (<) (fst a) (fst b) (by_field (\<lambda>x y. x \<and> \<not> y) (snd a) (snd b) 0)"

definition ByLibBlockNumCompare :: "ByLibBlockNumComposite \<Rightarrow> ByLibBlockNumComposite \<Rightarrow> int" where
  "ByLibBlockNumCompare a b =
     by_field (>) (fst a) (fst b)
      (by_field (>) (fst (snd a)) (fst (snd b))
       (by_field (>) (snd (snd a)) (snd (snd b)) 0))"

type_synonym ref = nat
type_synonym bs_heap = "BlockState list"

definition ByBlockIdFunc :: "bs_heap \<Rightarrow> ref \<Rightarrow> BlockIdType" where
  "ByBlockIdFunc h n = BlockId (HeaderState (h ! n))"

definition ByPrevFunc :: "bs_heap \<Rightarrow> ref \<Rightarrow> BlockIdType" where
  "ByPrevFunc h n = Previous (Header (HeaderState (h ! n)))"

definition ByBlockNumFunc :: "bs_heap \<Rightarrow> ref \<Rightarrow> ByBlockNumComposite" where
  "ByBlockNumFunc h n = (Some (BlockNum (HeaderState (h ! n))), Some (InCurrentChain (h ! n)))"

definition ByLibBlockNumFunc :: "bs_heap \<Rightarrow> ref \<Rightarrow> ByLibBlockNumComposite" where
  "ByLibBlockNumFunc h n =
     (Some (DposIrreversibleBlocknum (HeaderState (h ! n))),
      Some (BftIrreversibleBlocknum (HeaderState (h ! n))),
      Some (BlockNum (HeaderState (h ! n))))"

subsection \<open>An ordered index with repeated keys\<close>

definition index_put :: "('k \<Rightarrow> 'k \<Rightarrow> int) \<Rightarrow> (ref \<Rightarrow> 'k) \<Rightarrow> ref \<Rightarrow> ref list \<Rightarrow> ref list" where
  "index_put cmp key n xs =
     takeWhile (\<lambda>y. cmp (key n) (key y) \<ge> 0) xs @ n # dropWhile (\<lambda>y. cmp (key n) (key y) \<ge> 0) xs"

definition index_LowerBound :: "('k \<Rightarrow> 'k \<Rightarrow> int) \<Rightarrow> (ref \<Rightarrow> 'k) \<Rightarrow> 'k \<Rightarrow> ref list \<Rightarrow> ref list" where
  "index_LowerBound cmp key k xs = dropWhile (\<lambda>y. cmp k (key y) > 0) xs"

definition index_UpperBound :: "('k \<Rightarrow> 'k \<Rightarrow> int) \<Rightarrow> (ref \<Rightarrow> 'k) \<Rightarrow> 'k \<Rightarrow> ref list \<Rightarrow> ref list" where
  "index_UpperBound cmp key k xs = dropWhile (\<lambda>y. cmp k (key y) \<ge> 0) xs"

definition index_inPlace :: "('k \<Rightarrow> 'k \<Rightarrow> int) \<Rightarrow> (ref \<Rightarrow> 'k) \<Rightarrow> ref \<Rightarrow> ref list \<Rightarrow> bool" where
  "index_inPlace cmp key n xs =
     (let prev = takeWhile (\<lambda>y. y \<noteq> n) xs; succ = tl (dropWhile (\<lambda>y. y \<noteq> n) xs);
          prevResult = (if prev = [] then 1 else cmp (key n) (key (last prev)));
          nextResult = (if succ = [] then -1 else cmp (key n) (key (hd succ)))
      in prevResult \<ge> 0 \<and> nextResult \<le> 0)"

definition index_modify :: "('k \<Rightarrow> 'k \<Rightarrow> int) \<Rightarrow> (ref \<Rightarrow> 'k) \<Rightarrow> ref \<Rightarrow> ref list \<Rightarrow> ref list" where
  "index_modify cmp key n xs =
     (if index_inPlace cmp key n xs then xs else index_put cmp key n (remove1 n xs))"

subsection \<open>The multi index\<close>

record MultiIndex =
  inner :: "(BlockIdType \<times> ref) list"
  byPrev :: "ref list"
  byBlockNum :: "ref list"
  byLibBlockNum :: "ref list"
  index_count :: int

definition NewMultiIndex :: MultiIndex where
  "NewMultiIndex = \<lparr>inner = [], byPrev = [], byBlockNum = [], byLibBlockNum = [], index_count = 0\<rparr>"

definition MultiIndex_Clear :: "MultiIndex \<Rightarrow> MultiIndex" where
  "MultiIndex_Clear m = m\<lparr>inner := [], byPrev := [], byBlockNum := [], byLibBlockNum := [], index_count := 0\<rparr>"

definition MultiIndex_Size :: "MultiIndex \<Rightarrow> int" where
  "MultiIndex_Size m = index_count m"

definition ByBlockId_Find :: "MultiIndex \<Rightarrow> BlockIdType \<Rightarrow> ref option" where
  "ByBlockId_Find m k = map_of (inner m) k"

definition MultiIndex_Insert :: "bs_heap \<Rightarrow> MultiIndex \<Rightarrow> ref \<Rightarrow> MultiIndex \<times> bool" where
  "MultiIndex_Insert h m v =
     (let hash = ByBlockIdFunc h v
      in if ByBlockId_Find m hash \<noteq> None then (m, False)
         else (m\<lparr>inner := (hash, v) # inner m,
                 byPrev := index_put Sha256Compare (ByPrevFunc h) v (byPrev m),
                 byBlockNum := index_put ByBlockNumCompare (ByBlockNumFunc h) v (byBlockNum m),
                 byLibBlockNum := index_put ByLibBlockNumCompare (ByLibBlockNumFunc h) v (byLibBlockNum m),
                 index_count := index_count m + 1\<rparr>, True))"

definition MultiIndex_Erase :: "MultiIndex \<Rightarrow> ref \<Rightarrow> MultiIndex" where
  "MultiIndex_Erase m n =
     m\<lparr>inner := filter (\<lambda>e. snd e \<noteq> n) (inner m),
       byPrev := remove1 n (byPrev m),
       byBlockNum := remove1 n (byBlockNum m),
       byLibBlockNum := remove1 n (byLibBlockNum m),
       index_count := index_count m - 1\<rparr>"

text \<open>
  \<open>Modify\<close> of a node that is in the index: the object changes, the hash entry is moved and each
  ordered index moves the node unless it is still in place. When another node owns the new
  hash, the node leaves the ordered indices.
\<close>

definition MultiIndex_Modify :: "bs_heap \<Rightarrow> MultiIndex \<Rightarrow> ref \<Rightarrow> (BlockState \<Rightarrow> BlockState)
    \<Rightarrow> bs_heap \<times> MultiIndex \<times> bool" where
  "MultiIndex_Modify h m n mod' =
     (let h = h[n := mod' (h ! n)];
          hash = ByBlockIdFunc h n;
          inner' = filter (\<lambda>e. snd e \<noteq> n) (inner m)
      in if map_of inner' hash \<noteq> None
         then (h, m\<lparr>inner := inner', byPrev := remove1 n (byPrev m), byBlockNum := remove1 n (byBlockNum m),
                    byLibBlockNum := remove1 n (byLibBlockNum m), index_count := index_count m - 1\<rparr>, False)
         else (h, m\<lparr>inner := (hash, n) # inner',
                    byPrev := index_modify Sha256Compare (ByPrevFunc h) n (byPrev m),
                    byBlockNum := index_modify ByBlockNumCompare (ByBlockNumFunc h) n (byBlockNum m),
                    byLibBlockNum := index_modify ByLibBlockNumCompare (ByLibBlockNumFunc h) n (byLibBlockNum m)\<rparr>,
               True))"

section \<open>Ordered indices\<close>

lemma while_filter:
  assumes "sorted_wrt (\<lambda>x y. P y \<longrightarrow> P x) xs"
  shows "takeWhile P xs = filter P xs" "dropWhile P xs = filter (\<lambda>x. \<not> P x) xs"
  using assms by (induction xs) (auto simp: filter_empty_conv filter_id_conv)

definition index_sorted :: "('k \<Rightarrow> 'k \<Rightarrow> int) \<Rightarrow> (ref \<Rightarrow> 'k) \<Rightarrow> ref list \<Rightarrow> bool" where
  "index_sorted cmp key = sorted_wrt (\<lambda>x y. cmp (key x) (key y) \<le> 0)"

lemma index_sorted_remove1: "index_sorted cmp key xs \<Longrightarrow> index_sorted cmp key (remove1 n xs)"
  by (induction xs) (auto simp: index_sorted_def dest: notin_set_remove1)

lemma index_sorted_cong:
  "(\<And>x. x \<in> set xs \<Longrightarrow> key x = key' x) \<Longrightarrow> index_sorted cmp key xs \<Longrightarrow> index_sorted cmp key' xs"
  unfolding index_sorted_def by (erule sorted_wrt_mono_rel [rotated]) auto

lemma index_put_perm: "set (index_put cmp key n xs) = insert n (set xs)"
  "n \<notin> set xs \<Longrightarrow> distinct xs \<Longrightarrow> distinct (index_put cmp key n xs)"
  "length (index_put cmp key n xs) = Suc (length xs)"
proof -
  let ?P = "\<lambda>y. cmp (key n) (key y) \<ge> 0"
  have xs: "xs = takeWhile ?P xs @ dropWhile ?P xs" by simp
  have "set xs = set (takeWhile ?P xs) \<union> set (dropWhile ?P xs)" by (subst xs) (simp only: set_append)
  then show set: "set (index_put cmp key n xs) = insert n (set xs)" by (auto simp: index_put_def)
  have "length xs = length (takeWhile ?P xs) + length (dropWhile ?P xs)" by (subst xs) (simp only: length_append)
  then show len: "length (index_put cmp key n xs) = Suc (length xs)" by (simp add: index_put_def)
  show "distinct (index_put cmp key n xs)" if "n \<notin> set xs" "distinct xs"
    using set len that by (metis card_distinct card_insert_disjoint distinct_card finite_set)
qed

locale index_order =
  fixes cmp :: "'k \<Rightarrow> 'k \<Rightarrow> int" and full :: "'k \<Rightarrow> bool"
  assumes flip: "full a \<Longrightarrow> full b \<Longrightarrow> cmp a b < 0 \<longleftrightarrow> cmp b a > 0"
    and chain: "full a \<Longrightarrow> full b \<Longrightarrow> full c \<Longrightarrow> cmp a b \<le> 0 \<Longrightarrow> cmp b c \<le> 0 \<Longrightarrow> cmp a c \<le> 0"
begin

lemma not_greater: "full a \<Longrightarrow> full b \<Longrightarrow> 0 \<le> cmp a b \<longleftrightarrow> cmp b a \<le> 0"
  using flip [of a b] by linarith

lemma while_keys:
  assumes "\<And>r. full (key r)" "full k" "index_sorted cmp key xs"
  shows "takeWhile (\<lambda>y. 0 \<le> cmp k (key y)) xs = filter (\<lambda>y. 0 \<le> cmp k (key y)) xs"
    "dropWhile (\<lambda>y. 0 \<le> cmp k (key y)) xs = filter (\<lambda>y. cmp k (key y) < 0) xs"
    "takeWhile (\<lambda>y. 0 < cmp k (key y)) xs = filter (\<lambda>y. 0 < cmp k (key y)) xs"
    "dropWhile (\<lambda>y. 0 < cmp k (key y)) xs = filter (\<lambda>y. cmp k (key y) \<le> 0) xs"
proof -
  have "sorted_wrt (\<lambda>x y. 0 \<le> cmp k (key y) \<longrightarrow> 0 \<le> cmp k (key x)) xs"
    using assms(3) unfolding index_sorted_def
    by (rule sorted_wrt_mono_rel [rotated]) (use assms(1, 2) chain not_greater in blast)
  note w = while_filter [OF this]
  have "sorted_wrt (\<lambda>x y. 0 < cmp k (key y) \<longrightarrow> 0 < cmp k (key x)) xs"
    using assms(3) unfolding index_sorted_def
    by (rule sorted_wrt_mono_rel [rotated]) (use assms(1, 2) chain not_less in metis)
  note v = while_filter [OF this]
  show "takeWhile (\<lambda>y. 0 \<le> cmp k (key y)) xs = filter (\<lambda>y. 0 \<le> cmp k (key y)) xs"
    "dropWhile (\<lambda>y. 0 \<le> cmp k (key y)) xs = filter (\<lambda>y. cmp k (key y) < 0) xs"
    "takeWhile (\<lambda>y. 0 < cmp k (key y)) xs = filter (\<lambda>y. 0 < cmp k (key y)) xs"
    "dropWhile (\<lambda>y. 0 < cmp k (key y)) xs = filter (\<lambda>y. cmp k (key y) \<le> 0) xs"
    using w v by (simp_all add: not_le not_less)
qed

lemma put_sorted:
  assumes "\<And>r. full (key r)" "index_sorted cmp key xs"
  shows "index_sorted cmp key (index_put cmp key n xs)"
proof -
  have "index_put cmp key n xs =
      filter (\<lambda>y. 0 \<le> cmp (key n) (key y)) xs @ n # filter (\<lambda>y. cmp (key n) (key y) < 0) xs"
    unfolding index_put_def while_keys(1, 2) [OF assms(1) assms(1) assms(2)] ..
  moreover have "cmp (key x) (key y) \<le> 0" if "0 \<le> cmp (key n) (key x)" "cmp (key n) (key y) < 0" for x y
    using that not_greater chain assms(1) by (meson less_imp_le)
  ultimately show ?thesis
    using assms by (auto simp: index_sorted_def sorted_wrt_append sorted_wrt_filter not_greater)
qed

lemma modify_sorted:
  assumes full: "\<And>r. full (key' r)" and srt: "index_sorted cmp key xs" and d: "distinct xs" "n \<in> set xs"
    and same: "\<And>r. r \<noteq> n \<Longrightarrow> key' r = key r"
  shows "index_sorted cmp key' (index_modify cmp key' n xs)"
proof (cases "index_inPlace cmp key' n xs")
  case False
  have "index_sorted cmp key (remove1 n xs)" using srt by (rule index_sorted_remove1)
  then have "index_sorted cmp key' (remove1 n xs)"
    by (rule index_sorted_cong [rotated]) (use d same in \<open>auto simp: set_remove1_eq\<close>)
  with False show ?thesis by (simp add: index_modify_def put_sorted full)
next
  case True
  obtain as bs where xs: "xs = as @ n # bs" "n \<notin> set as" using d(2) by (meson split_list_first)
  have "n \<notin> set bs" using d(1) xs(1) by simp
  have w: "takeWhile (\<lambda>y. y \<noteq> n) xs = as" "tl (dropWhile (\<lambda>y. y \<noteq> n) xs) = bs"
    using xs by (simp_all add: takeWhile_append dropWhile_append)
  have s: "sorted_wrt (\<lambda>x y. cmp (key' x) (key' y) \<le> 0) as" "sorted_wrt (\<lambda>x y. cmp (key' x) (key' y) \<le> 0) bs"
      "\<And>x y. x \<in> set as \<Longrightarrow> y \<in> set bs \<Longrightarrow> cmp (key' x) (key' y) \<le> 0"
  proof -
    have eq: "key x = key' x" if "x \<in> set as \<union> set bs" for x
      using that same [of x] xs(2) \<open>n \<notin> set bs\<close> by (cases "x = n") auto
    have "index_sorted cmp key as" "index_sorted cmp key bs"
      using srt by (auto simp: index_sorted_def sorted_wrt_append xs(1))
    then have "index_sorted cmp key' as" "index_sorted cmp key' bs"
      using index_sorted_cong [of as key key' cmp] index_sorted_cong [of bs key key' cmp] eq by blast+
    then show "sorted_wrt (\<lambda>x y. cmp (key' x) (key' y) \<le> 0) as" "sorted_wrt (\<lambda>x y. cmp (key' x) (key' y) \<le> 0) bs"
      by (simp_all add: index_sorted_def)
    show "cmp (key' x) (key' y) \<le> 0" if "x \<in> set as" "y \<in> set bs" for x y
      using srt that unfolding eq [of x, symmetric, OF UnI1, OF that(1)] eq [of y, symmetric, OF UnI2, OF that(2)]
      by (simp add: index_sorted_def sorted_wrt_append xs(1))
  qed
  have p: "cmp (key' x) (key' n) \<le> 0" if "x \<in> set as" for x
  proof -
    from that have ne: "as \<noteq> []" by auto
    then have "cmp (key' (last as)) (key' n) \<le> 0"
      using True w not_greater full by (simp add: index_inPlace_def Let_def)
    moreover have "x = last as \<or> cmp (key' x) (key' (last as)) \<le> 0"
      using s(1) that ne by (metis append_butlast_last_id in_set_conv_decomp set_ConsD sorted_wrt_append
          append_Nil list.set_intros(1) Un_iff set_append empty_iff list.set(1))
    ultimately show ?thesis using chain full by blast
  qed
  have q: "cmp (key' n) (key' y) \<le> 0" if "y \<in> set bs" for y
  proof -
    from that obtain b bs' where bs: "bs = b # bs'" by (cases bs) auto
    then have "cmp (key' n) (key' b) \<le> 0" using True w by (simp add: index_inPlace_def Let_def)
    moreover have "y = b \<or> cmp (key' b) (key' y) \<le> 0" using s(2) that bs by auto
    ultimately show ?thesis using chain full by blast
  qed
  show ?thesis
    using True s p q by (auto simp: index_modify_def index_sorted_def sorted_wrt_append xs(1))
qed

end

definition full_num :: "ByBlockNumComposite \<Rightarrow> bool" where
  "full_num k \<longleftrightarrow> fst k \<noteq> None \<and> snd k \<noteq> None"

definition full_lib :: "ByLibBlockNumComposite \<Rightarrow> bool" where
  "full_lib k \<longleftrightarrow> fst k \<noteq> None \<and> fst (snd k) \<noteq> None \<and> snd (snd k) \<noteq> None"

interpretation prev_index: index_order Sha256Compare "\<lambda>_. True"
proof
  show "Sha256Compare a b < 0 \<longleftrightarrow> 0 < Sha256Compare b a" for a b
    using Sha256Compare_antisym [of a b] by simp
  show "Sha256Compare a c \<le> 0" if "Sha256Compare a b \<le> 0" "Sha256Compare b c \<le> 0" for a b c
    using Sha256Compare_trans that by blast
qed

lemma by_field_Some [simp]:
  "by_field lt (Some x) (Some y) k = (if lt x y then -1 else if lt y x then 1 else k)"
  by (simp add: by_field_def)

lemma full_num_Some: "full_num k \<Longrightarrow> \<exists>a b. k = (Some a, Some b)"
  by (cases k) (auto simp: full_num_def)

lemma full_lib_Some: "full_lib k \<Longrightarrow> \<exists>a b c. k = (Some a, Some b, Some c)"
  by (cases k) (auto simp: full_lib_def)

lemma lex2_trans:
  fixes a1 :: "'a::linorder"
  assumes "a1 < b1 \<or> a1 = b1 \<and> P a2 b2" "b1 < c1 \<or> b1 = c1 \<and> P b2 c2" "P a2 b2 \<Longrightarrow> P b2 c2 \<Longrightarrow> P a2 c2"
  shows "a1 < c1 \<or> a1 = c1 \<and> P a2 c2"
  using assms less_trans by metis

lemma ByBlockNumCompare_le:
  "ByBlockNumCompare (Some a1, Some a2) (Some b1, Some b2) \<le> 0 \<longleftrightarrow> a1 < b1 \<or> a1 = b1 \<and> (b2 \<longrightarrow> a2)"
  by (cases a1 b1 rule: linorder_cases) (auto simp: ByBlockNumCompare_def dest: less_asym)

lemma ByLibBlockNumCompare_le:
  "ByLibBlockNumCompare (Some a1, Some a2, Some a3) (Some b1, Some b2, Some b3) \<le> 0 \<longleftrightarrow>
     b1 < a1 \<or> b1 = a1 \<and> (b2 < a2 \<or> b2 = a2 \<and> b3 \<le> a3)"
  by (cases a1 b1 rule: linorder_cases; cases a2 b2 rule: linorder_cases; cases a3 b3 rule: linorder_cases;
      auto simp: ByLibBlockNumCompare_def dest: less_asym)

lemma compare_flips:
  "ByBlockNumCompare (Some a1, Some a2) (Some b1, Some b2) = - ByBlockNumCompare (Some b1, Some b2) (Some a1, Some a2)"
  "ByLibBlockNumCompare (Some a1, Some a3, Some a4) (Some b1, Some b3, Some b4) =
     - ByLibBlockNumCompare (Some b1, Some b3, Some b4) (Some a1, Some a3, Some a4)"
proof -
  show "ByBlockNumCompare (Some a1, Some a2) (Some b1, Some b2) = - ByBlockNumCompare (Some b1, Some b2) (Some a1, Some a2)"
    by (cases a1 b1 rule: linorder_cases; auto simp: ByBlockNumCompare_def dest: less_asym)
  show "ByLibBlockNumCompare (Some a1, Some a3, Some a4) (Some b1, Some b3, Some b4) =
     - ByLibBlockNumCompare (Some b1, Some b3, Some b4) (Some a1, Some a3, Some a4)"
    by (cases a1 b1 rule: linorder_cases; cases a3 b3 rule: linorder_cases; cases a4 b4 rule: linorder_cases;
      auto simp: ByLibBlockNumCompare_def dest: less_asym)
qed

interpretation num_index: index_order ByBlockNumCompare full_num
proof
  fix a b c
  assume "full_num a" "full_num b"
  then obtain a1 a2 b1 b2 where ab: "a = (Some a1, Some a2)" "b = (Some b1, Some b2)"
    using full_num_Some by metis
  show "ByBlockNumCompare a b < 0 \<longleftrightarrow> 0 < ByBlockNumCompare b a"
    unfolding ab compare_flips(1) [of a1 a2 b1 b2] by simp
  assume "full_num c"
  then obtain c1 c2 where c: "c = (Some c1, Some c2)" using full_num_Some by metis
  assume "ByBlockNumCompare a b \<le> 0" "ByBlockNumCompare b c \<le> 0"
  then show "ByBlockNumCompare a c \<le> 0" unfolding ab c ByBlockNumCompare_le by (rule lex2_trans) blast
qed

interpretation lib_index: index_order ByLibBlockNumCompare full_lib
proof
  fix a b c
  assume "full_lib a" "full_lib b"
  then obtain a1 a2 a3 b1 b2 b3 where ab: "a = (Some a1, Some a2, Some a3)" "b = (Some b1, Some b2, Some b3)"
    using full_lib_Some by metis
  show "ByLibBlockNumCompare a b < 0 \<longleftrightarrow> 0 < ByLibBlockNumCompare b a"
    unfolding ab compare_flips(2) [of a1 a2 a3 b1 b2 b3] by simp
  assume "full_lib c"
  then obtain c1 c2 c3 where c: "c = (Some c1, Some c2, Some c3)" using full_lib_Some by metis
  assume "ByLibBlockNumCompare a b \<le> 0" "ByLibBlockNumCompare b c \<le> 0"
  then show "ByLibBlockNumCompare a c \<le> 0"
    unfolding ab c ByLibBlockNumCompare_le by (elim disjE conjE) (auto intro: less_trans order_trans)
qed

lemma full_keys [simp]: "full_num (ByBlockNumFunc h r)" "full_lib (ByLibBlockNumFunc h r)"
  by (simp_all add: full_num_def full_lib_def ByBlockNumFunc_def ByLibBlockNumFunc_def)

section \<open>Consistency of the indices\<close>

definition index_ok :: "bs_heap \<Rightarrow> MultiIndex \<Rightarrow> bool" where
  "index_ok h m \<longleftrightarrow>
     distinct (map fst (inner m)) \<and> (\<forall>(i, r) \<in> set (inner m). ByBlockIdFunc h r = i \<and> r < length h) \<and>
     distinct (byPrev m) \<and> distinct (byBlockNum m) \<and> distinct (byLibBlockNum m) \<and>
     set (byPrev m) = snd ` set (inner m) \<and> set (byBlockNum m) = snd ` set (inner m) \<and>
     set (byLibBlockNum m) = snd ` set (inner m) \<and>
     index_sorted Sha256Compare (ByPrevFunc h) (byPrev m) \<and>
     index_sorted ByBlockNumCompare (ByBlockNumFunc h) (byBlockNum m) \<and>
     index_sorted ByLibBlockNumCompare (ByLibBlockNumFunc h) (byLibBlockNum m) \<and>
     index_count m = int (length (inner m))"

text \<open>The references in the index.\<close>

definition refs :: "MultiIndex \<Rightarrow> ref set" where
  "refs m = snd ` set (inner m)"

lemma index_okD:
  assumes "index_ok h m"
  shows "set (byPrev m) = refs m" "set (byBlockNum m) = refs m" "set (byLibBlockNum m) = refs m"
    "distinct (byPrev m)" "distinct (byBlockNum m)" "distinct (byLibBlockNum m)"
    "index_sorted Sha256Compare (ByPrevFunc h) (byPrev m)"
    "index_sorted ByBlockNumCompare (ByBlockNumFunc h) (byBlockNum m)"
    "index_sorted ByLibBlockNumCompare (ByLibBlockNumFunc h) (byLibBlockNum m)"
    "distinct (map fst (inner m))" "index_count m = int (length (inner m))"
  using assms by (simp_all add: index_ok_def refs_def)

lemma index_ok_inner:
  assumes "index_ok h m"
  shows "(i, r) \<in> set (inner m) \<Longrightarrow> ByBlockIdFunc h r = i" "(i, r) \<in> set (inner m) \<Longrightarrow> r < length h"
    "r \<in> refs m \<Longrightarrow> r < length h"
proof -
  have a: "\<forall>(i, r) \<in> set (inner m). ByBlockIdFunc h r = i \<and> r < length h"
    using assms by (simp add: index_ok_def)
  then show "(i, r) \<in> set (inner m) \<Longrightarrow> ByBlockIdFunc h r = i" "(i, r) \<in> set (inner m) \<Longrightarrow> r < length h"
    by auto
  from a show "r \<in> refs m \<Longrightarrow> r < length h" by (auto simp: refs_def)
qed

lemma inner_unique:
  assumes "index_ok h m"
  shows "(i, r) \<in> set (inner m) \<longleftrightarrow> r \<in> refs m \<and> ByBlockIdFunc h r = i"
    and "ByBlockId_Find m i = Some r \<longleftrightarrow> r \<in> refs m \<and> ByBlockIdFunc h r = i"
    and "ByBlockId_Find m i = None \<longleftrightarrow> (\<forall>r \<in> refs m. ByBlockIdFunc h r \<noteq> i)"
proof -
  show a: "(i, r) \<in> set (inner m) \<longleftrightarrow> r \<in> refs m \<and> ByBlockIdFunc h r = i" for r
  proof
    show "(i, r) \<in> set (inner m) \<Longrightarrow> r \<in> refs m \<and> ByBlockIdFunc h r = i"
      using index_ok_inner(1) [OF assms] unfolding refs_def by (metis imageI snd_conv)
    assume "r \<in> refs m \<and> ByBlockIdFunc h r = i"
    then obtain j where "(j, r) \<in> set (inner m)" "ByBlockIdFunc h r = i" by (auto simp: refs_def)
    then show "(i, r) \<in> set (inner m)" using index_ok_inner(1) [OF assms] by metis
  qed
  note d = index_okD(10) [OF assms]
  show b: "ByBlockId_Find m i = Some r \<longleftrightarrow> r \<in> refs m \<and> ByBlockIdFunc h r = i" for r
    using a [of r] map_of_eq_Some_iff [OF d, of i r] by (simp add: ByBlockId_Find_def)
  show "ByBlockId_Find m i = None \<longleftrightarrow> (\<forall>r \<in> refs m. ByBlockIdFunc h r \<noteq> i)"
    using b by (metis not_None_eq)
qed

lemma refs_inject:
  "index_ok h m \<Longrightarrow> r \<in> refs m \<Longrightarrow> s \<in> refs m \<Longrightarrow> ByBlockIdFunc h r = ByBlockIdFunc h s \<Longrightarrow> r = s"
  using inner_unique(2) by (metis option.inject)

lemma NewMultiIndex_ok: "index_ok h NewMultiIndex" "refs NewMultiIndex = {}"
  by (simp_all add: index_ok_def NewMultiIndex_def index_sorted_def refs_def)

lemma MultiIndex_Insert_ok:
  assumes "index_ok h m" "v < length h"
  obtains m' b where "MultiIndex_Insert h m v = (m', b)" "index_ok h m'"
    "b \<longleftrightarrow> (\<forall>r \<in> refs m. ByBlockIdFunc h r \<noteq> ByBlockIdFunc h v)"
    "refs m' = (if b then insert v (refs m) else refs m)"
proof (cases "ByBlockId_Find m (ByBlockIdFunc h v)")
  case None
  note D = index_okD [OF assms(1)]
  have fresh: "\<forall>r \<in> refs m. ByBlockIdFunc h r \<noteq> ByBlockIdFunc h v" using None inner_unique(3) [OF assms(1)] by blast
  then have v: "v \<notin> refs m" by auto
  let ?m = "fst (MultiIndex_Insert h m v)"
  have m: "MultiIndex_Insert h m v = (?m, True)" "refs ?m = insert v (refs m)"
    using None by (simp_all add: MultiIndex_Insert_def refs_def)
  have "index_ok h ?m"
    unfolding index_ok_def
  proof (intro conjI)
    have "ByBlockIdFunc h v \<notin> fst ` set (inner m)"
      using None by (simp add: ByBlockId_Find_def map_of_eq_None_iff)
    then show "distinct (map fst (inner ?m))" using D(10) None by (simp add: MultiIndex_Insert_def)
    show "\<forall>(i, r) \<in> set (inner ?m). ByBlockIdFunc h r = i \<and> r < length h"
      using assms(2) index_ok_inner(1, 2) [OF assms(1)] None by (auto simp: MultiIndex_Insert_def)
    show "index_count ?m = int (length (inner ?m))" using D(11) None by (simp add: MultiIndex_Insert_def)
  qed (use None D v in \<open>simp_all add: MultiIndex_Insert_def index_put_perm prev_index.put_sorted
        num_index.put_sorted lib_index.put_sorted refs_def\<close>)
  with m fresh show ?thesis by (intro that [OF m(1)]) auto
next
  case (Some r)
  then have "r \<in> refs m" "ByBlockIdFunc h r = ByBlockIdFunc h v" using inner_unique(2) [OF assms(1)] by auto
  with Some assms show ?thesis by (intro that [of m False]) (auto simp: MultiIndex_Insert_def)
qed

lemma Erase_ok:
  assumes "index_ok h m" "n \<in> refs m"
  shows "index_ok h (MultiIndex_Erase m n)" "refs (MultiIndex_Erase m n) = refs m - {n}"
proof -
  note D = index_okD [OF assms(1)]
  show r: "refs (MultiIndex_Erase m n) = refs m - {n}" by (auto simp: MultiIndex_Erase_def refs_def)
  have inj: "inj_on snd (set (inner m))"
    by (rule inj_onI) (metis index_ok_inner(1) [OF assms(1)] prod.collapse)
  have "distinct (inner m)" using D(10) by (simp add: distinct_map)
  with inj have ds: "distinct (map snd (inner m))" by (simp add: distinct_map)
  have "length (filter (\<lambda>e. snd e \<noteq> n) (inner m)) = length (removeAll n (map snd (inner m)))"
    by (simp add: removeAll_filter_not_eq filter_map o_def eq_commute [of n])
  also have "\<dots> = length (map snd (inner m)) - 1"
    using assms(2) unfolding distinct_remove1_removeAll [OF ds, symmetric] by (simp add: length_remove1 refs_def)
  finally have "length (filter (\<lambda>e. snd e \<noteq> n) (inner m)) = length (inner m) - 1" by simp
  moreover have "inner m \<noteq> []" using assms(2) by (auto simp: refs_def)
  ultimately have len: "int (length (filter (\<lambda>e. snd e \<noteq> n) (inner m))) = int (length (inner m)) - 1"
    by (cases "inner m") simp_all
  show "index_ok h (MultiIndex_Erase m n)"
    unfolding index_ok_def
  proof (intro conjI)
    show "distinct (map fst (inner (MultiIndex_Erase m n)))"
      "\<forall>(i, r) \<in> set (inner (MultiIndex_Erase m n)). ByBlockIdFunc h r = i \<and> r < length h"
      "index_count (MultiIndex_Erase m n) = int (length (inner (MultiIndex_Erase m n)))"
      using D(10, 11) len index_ok_inner(1, 2) [OF assms(1)]
      by (auto simp: MultiIndex_Erase_def distinct_map_filter)
    have l: "set (byPrev (MultiIndex_Erase m n)) = refs m - {n}"
      "set (byBlockNum (MultiIndex_Erase m n)) = refs m - {n}"
      "set (byLibBlockNum (MultiIndex_Erase m n)) = refs m - {n}"
      using D(1-6) by (simp_all add: MultiIndex_Erase_def set_remove1_eq)
    show "set (byPrev (MultiIndex_Erase m n)) = snd ` set (inner (MultiIndex_Erase m n))"
      "set (byBlockNum (MultiIndex_Erase m n)) = snd ` set (inner (MultiIndex_Erase m n))"
      "set (byLibBlockNum (MultiIndex_Erase m n)) = snd ` set (inner (MultiIndex_Erase m n))"
      unfolding l r [symmetric] by (simp_all only: refs_def)
  qed (use D in \<open>simp_all add: MultiIndex_Erase_def index_sorted_remove1\<close>)
qed

text \<open>The index depends on the heap through the keys of its own objects only.\<close>

definition same_keys :: "bs_heap \<Rightarrow> bs_heap \<Rightarrow> ref \<Rightarrow> bool" where
  "same_keys h h' r \<longleftrightarrow> ByBlockIdFunc h r = ByBlockIdFunc h' r \<and> ByPrevFunc h r = ByPrevFunc h' r \<and>
     ByBlockNumFunc h r = ByBlockNumFunc h' r \<and> ByLibBlockNumFunc h r = ByLibBlockNumFunc h' r"

lemma index_ok_cong:
  assumes "index_ok h m" "length h \<le> length h'" "\<And>r. r \<in> refs m \<Longrightarrow> same_keys h h' r"
  shows "index_ok h' m"
proof -
  note D = index_okD [OF assms(1)]
  have "index_sorted Sha256Compare (ByPrevFunc h') (byPrev m)"
    by (rule index_sorted_cong [OF _ D(7)]) (use assms(3) D(1) in \<open>simp add: same_keys_def\<close>)
  moreover have "index_sorted ByBlockNumCompare (ByBlockNumFunc h') (byBlockNum m)"
    by (rule index_sorted_cong [OF _ D(8)]) (use assms(3) D(2) in \<open>simp add: same_keys_def\<close>)
  moreover have "index_sorted ByLibBlockNumCompare (ByLibBlockNumFunc h') (byLibBlockNum m)"
    by (rule index_sorted_cong [OF _ D(9)]) (use assms(3) D(3) in \<open>simp add: same_keys_def\<close>)
  moreover have "\<forall>(i, r) \<in> set (inner m). ByBlockIdFunc h' r = i \<and> r < length h'"
  proof clarify
    fix i r assume "(i, r) \<in> set (inner m)"
    then have "ByBlockIdFunc h r = i" "r < length h" "r \<in> refs m"
      using index_ok_inner(1, 2) [OF assms(1)] by (force simp: refs_def)+
    then show "ByBlockIdFunc h' r = i \<and> r < length h'" using assms(2) assms(3) [of r] by (simp add: same_keys_def)
  qed
  ultimately show ?thesis using D unfolding index_ok_def by (simp add: refs_def)
qed

lemma index_modify_perm:
  assumes "distinct xs" "n \<in> set xs"
  shows "set (index_modify cmp key n xs) = set xs" "distinct (index_modify cmp key n xs)"
  using assms by (auto simp: index_modify_def index_put_perm)

lemma key_update:
  "r \<noteq> n \<Longrightarrow> ByBlockIdFunc (h[n := s]) r = ByBlockIdFunc h r"
  "r \<noteq> n \<Longrightarrow> ByPrevFunc (h[n := s]) r = ByPrevFunc h r"
  "r \<noteq> n \<Longrightarrow> ByBlockNumFunc (h[n := s]) r = ByBlockNumFunc h r"
  "r \<noteq> n \<Longrightarrow> ByLibBlockNumFunc (h[n := s]) r = ByLibBlockNumFunc h r"
  by (simp_all add: ByBlockIdFunc_def ByPrevFunc_def ByBlockNumFunc_def ByLibBlockNumFunc_def)

lemma MultiIndex_Modify_ok:
  assumes ok: "index_ok h m" and n: "n \<in> refs m"
    and keep: "BlockId (HeaderState (g (h ! n))) = BlockId (HeaderState (h ! n))"
  obtains m' where "MultiIndex_Modify h m n g = (h[n := g (h ! n)], m', True)"
    "index_ok (h[n := g (h ! n)]) m'" "refs m' = refs m"
proof -
  note D = index_okD [OF ok]
  let ?h = "h[n := g (h ! n)]" and ?e = "MultiIndex_Erase m n"
  note E = Erase_ok [OF ok n]
  note DE = index_okD [OF E(1)]
  have len: "n < length h" using index_ok_inner(3) [OF ok n] .
  have hash: "ByBlockIdFunc ?h n = ByBlockIdFunc h n" using keep len by (simp add: ByBlockIdFunc_def)
  have free: "map_of (filter (\<lambda>e. snd e \<noteq> n) (inner m)) (ByBlockIdFunc ?h n) = None"
  proof -
    have "\<forall>r \<in> refs ?e. ByBlockIdFunc h r \<noteq> ByBlockIdFunc h n" using E(2) refs_inject [OF ok _ n] by auto
    then show ?thesis using inner_unique(3) [OF E(1)] by (simp add: ByBlockId_Find_def MultiIndex_Erase_def hash)
  qed
  define m' where "m' = m\<lparr>inner := (ByBlockIdFunc ?h n, n) # filter (\<lambda>e. snd e \<noteq> n) (inner m),
      byPrev := index_modify Sha256Compare (ByPrevFunc ?h) n (byPrev m),
      byBlockNum := index_modify ByBlockNumCompare (ByBlockNumFunc ?h) n (byBlockNum m),
      byLibBlockNum := index_modify ByLibBlockNumCompare (ByLibBlockNumFunc ?h) n (byLibBlockNum m)\<rparr>"
  have mod: "MultiIndex_Modify h m n g = (?h, m', True)"
    using free by (simp add: MultiIndex_Modify_def m'_def Let_def)
  have refs: "refs m' = refs m" using n E(2) by (auto simp: m'_def refs_def MultiIndex_Erase_def)
  have "index_ok ?h m'"
    unfolding index_ok_def
  proof (intro conjI)
    show "distinct (map fst (inner m'))"
      using DE(10) free by (simp add: m'_def MultiIndex_Erase_def map_of_eq_None_iff)
    show "\<forall>(i, r) \<in> set (inner m'). ByBlockIdFunc ?h r = i \<and> r < length ?h"
      using index_ok_inner(1, 2) [OF ok] len by (auto simp: m'_def key_update)
    show "index_count m' = int (length (inner m'))"
      using DE(11) D(11) by (simp add: m'_def MultiIndex_Erase_def)
    have s: "set (byPrev m') = refs m'" "set (byBlockNum m') = refs m'" "set (byLibBlockNum m') = refs m'"
      unfolding refs using D(1-6) n by (simp_all add: m'_def index_modify_perm)
    then show "set (byPrev m') = snd ` set (inner m')" "set (byBlockNum m') = snd ` set (inner m')"
      "set (byLibBlockNum m') = snd ` set (inner m')" by (simp_all only: refs_def)
    show "distinct (byPrev m')" "distinct (byBlockNum m')" "distinct (byLibBlockNum m')"
      using D(1-6) n by (simp_all add: m'_def index_modify_perm)
    show "index_sorted Sha256Compare (ByPrevFunc ?h) (byPrev m')"
      using prev_index.modify_sorted [OF _ D(7) D(4), where key' = "ByPrevFunc ?h" and n = n] D(1) n key_update(2)
      by (simp add: m'_def)
    show "index_sorted ByBlockNumCompare (ByBlockNumFunc ?h) (byBlockNum m')"
      using num_index.modify_sorted [OF _ D(8) D(5), where key' = "ByBlockNumFunc ?h" and n = n] D(2) n key_update(3)
      by (simp add: m'_def)
    show "index_sorted ByLibBlockNumCompare (ByLibBlockNumFunc ?h) (byLibBlockNum m')"
      using lib_index.modify_sorted [OF _ D(9) D(6), where key' = "ByLibBlockNumFunc ?h" and n = n] D(3) n key_update(4)
      by (simp add: m'_def)
  qed
  with mod refs show ?thesis by (intro that)
qed

end
