(* ===== verification/Eos_ForkDb.thy ===== *)
theory Eos_ForkDb
  imports Eos_ForkIndex
begin

text \<open>
  The fork database: \<open>src/chain/fork_database.go\<close> over the multi index of \<open>Eos_ForkIndex\<close>. A
  block state stays in the heap when its node leaves the index. Shown: the indices stay
  consistent under every operation, the head is the best block of the fork choice rule,
  removal takes exactly a block and its descendants, pruning leaves only higher blocks,
  confirmations reach all descendants, branches meet in a common parent, and which
  look-ups of missing blocks crash.
\<close>

section \<open>Model\<close>

subsection \<open>The fork database\<close>

record ForkDatabase =
  heap :: bs_heap
  Index :: MultiIndex
  Head :: "ref option"
  Irreversible :: "ref list"

abbreviation bstate :: "ForkDatabase \<Rightarrow> ref \<Rightarrow> BlockState" where
  "bstate f r \<equiv> heap f ! r"

abbreviation hstate :: "ForkDatabase \<Rightarrow> ref \<Rightarrow> BlockHeaderState" where
  "hstate f r \<equiv> HeaderState (heap f ! r)"

definition NewForkDatabase :: ForkDatabase where
  "NewForkDatabase = \<lparr>heap = [], Index = NewMultiIndex, Head = None, Irreversible = []\<rparr>"

text \<open>A new object and the pointer to it.\<close>

definition alloc :: "ForkDatabase \<Rightarrow> BlockState \<Rightarrow> ForkDatabase \<times> ref" where
  "alloc f s = (f\<lparr>heap := heap f @ [s]\<rparr>, length (heap f))"

text \<open>\<open>Begin().Value()\<close> of an empty index dereferences a nil node.\<close>

definition Begin_Value :: "ref list \<Rightarrow> ref result" where
  "Begin_Value xs = (case xs of [] \<Rightarrow> Inl GoPanic | r # _ \<Rightarrow> Inr r)"

text \<open>The state is inserted before the checks: it stays in the index when one of them fails.\<close>

definition SetHead :: "Crypto \<Rightarrow> ForkDatabase \<Rightarrow> ref \<Rightarrow> ForkDatabase \<times> unit result" where
  "SetHead C f s =
     (let (index, inserted) = MultiIndex_Insert (heap f) (Index f) s;
          f = f\<lparr>Index := index\<rparr>
      in if BlockId (hstate f s) \<noteq> BlockID C (Header (hstate f s)) then (f, Inl ForkDatabaseException)
         else if \<not> inserted then (f, Inl ForkDatabaseException)
         else case Head f of
             None \<Rightarrow> (f\<lparr>Head := Some s\<rparr>, Inr ())
           | Some r \<Rightarrow>
               if BlockNum (hstate f r) < BlockNum (hstate f s) then (f\<lparr>Head := Some s\<rparr>, Inr ())
               else (f, Inr ()))"

definition GetBlock :: "ForkDatabase \<Rightarrow> BlockIdType \<Rightarrow> ref option" where
  "GetBlock f i = ByBlockId_Find (Index f) i"

definition ByBlockNum_LowerBound :: "ForkDatabase \<Rightarrow> u32 \<Rightarrow> ref option" where
  "ByBlockNum_LowerBound f n =
     (case index_LowerBound ByBlockNumCompare (ByBlockNumFunc (heap f)) (Some n, None) (byBlockNum (Index f)) of
        [] \<Rightarrow> None | r # _ \<Rightarrow> Some r)"

definition GetBlockInCurrentChainByNum :: "ForkDatabase \<Rightarrow> u32 \<Rightarrow> ref option" where
  "GetBlockInCurrentChainByNum f n =
     (case ByBlockNum_LowerBound f n of
        None \<Rightarrow> None
      | Some r \<Rightarrow>
          if BlockNum (hstate f r) \<noteq> n \<or> InCurrentChain (bstate f r) \<noteq> True then None else Some r)"

text \<open>
  The work list of \<open>Remove\<close>: the entry at position \<open>i\<close> of \<open>removeQueue\<close> is the first of the list;
  the children found in the index by previous id are appended.
\<close>

definition children_of :: "ForkDatabase \<Rightarrow> BlockIdType \<Rightarrow> ref list" where
  "children_of f i =
     takeWhile (\<lambda>r. ByPrevFunc (heap f) r = i)
       (index_LowerBound Sha256Compare (ByPrevFunc (heap f)) i (byPrev (Index f)))"

definition erase_id :: "ForkDatabase \<Rightarrow> BlockIdType \<Rightarrow> ForkDatabase" where
  "erase_id f i =
     (case ByBlockId_Find (Index f) i of
        None \<Rightarrow> f
      | Some n \<Rightarrow> f\<lparr>Index := MultiIndex_Erase (Index f) n\<rparr>)"

partial_function (option) Remove_loop :: "ForkDatabase \<Rightarrow> BlockIdType list \<Rightarrow> ForkDatabase option" where
  "Remove_loop f removeQueue =
     (case removeQueue of
        [] \<Rightarrow> Some f
      | i # queue \<Rightarrow>
          (let f' = erase_id f i
           in Remove_loop f' (queue @ map (ByBlockIdFunc (heap f')) (children_of f' i))))"

definition Remove :: "ForkDatabase \<Rightarrow> BlockIdType \<Rightarrow> ForkDatabase result" where
  "Remove f i =
     rbind (returned (map_option Inr (Remove_loop f [i]))) (\<lambda>f.
     rbind (Begin_Value (byLibBlockNum (Index f))) (\<lambda>r. Inr (f\<lparr>Head := Some r\<rparr>)))"

definition SetValidity :: "ForkDatabase \<Rightarrow> ref \<Rightarrow> bool \<Rightarrow> ForkDatabase result" where
  "SetValidity f r valid =
     (if \<not> valid then Remove f (BlockId (hstate f r))
      else Inr (f\<lparr>heap := (heap f)[r := (bstate f r)\<lparr>Validated := True\<rparr>]\<rparr>))"

definition fork_modify :: "ForkDatabase \<Rightarrow> ref \<Rightarrow> (BlockState \<Rightarrow> BlockState) \<Rightarrow> ForkDatabase" where
  "fork_modify f n mod' =
     (let (h, m, _) = MultiIndex_Modify (heap f) (Index f) n mod' in f\<lparr>heap := h, Index := m\<rparr>)"

definition MarkInCurrentChain :: "ForkDatabase \<Rightarrow> ref \<Rightarrow> bool \<Rightarrow> ForkDatabase result" where
  "MarkInCurrentChain f r inCurrentChain =
     (if InCurrentChain (bstate f r) = inCurrentChain then Inr f
      else case ByBlockId_Find (Index f) (BlockId (hstate f r)) of
          None \<Rightarrow> Inl ForkDbBlockNotFound
        | Some n \<Rightarrow> Inr (fork_modify f n (\<lambda>s. s\<lparr>InCurrentChain := inCurrentChain\<rparr>)))"

text \<open>
  The second loop of \<open>Prune\<close>, over the blocks of one height. The iterator is advanced before the
  removal; reading through an iterator whose node has been erased dereferences nil.
\<close>

partial_function (option) Prune_siblings ::
  "ForkDatabase \<Rightarrow> u32 \<Rightarrow> ref option \<Rightarrow> ForkDatabase result option" where
  "Prune_siblings f num nitr =
     (case nitr of
        None \<Rightarrow> Some (Inr f)
      | Some r \<Rightarrow>
          if r \<notin> set (byBlockNum (Index f)) then Some (Inl GoPanic)
          else if BlockNum (hstate f r) \<noteq> num then Some (Inr f)
          else
            (let rest = tl (dropWhile (\<lambda>x. x \<noteq> r) (byBlockNum (Index f)));
                 nitr = (case rest of [] \<Rightarrow> None | x # _ \<Rightarrow> Some x)
             in case Remove f (BlockId (hstate f r)) of
                  Inl e \<Rightarrow> Some (Inl e)
                | Inr f \<Rightarrow> Prune_siblings f num nitr))"

definition Prune_height :: "ForkDatabase \<Rightarrow> ref \<Rightarrow> ForkDatabase result" where
  "Prune_height f r =
     (let num = BlockNum (hstate f r);
          f = (case ByBlockId_Find (Index f) (BlockId (hstate f r)) of
                 None \<Rightarrow> f
               | Some n \<Rightarrow> f\<lparr>Irreversible := Irreversible f @ [n], Index := MultiIndex_Erase (Index f) n\<rparr>);
          nitr = ByBlockNum_LowerBound f num
      in returned (Prune_siblings f num nitr))"

text \<open>
  The first loop of \<open>Prune\<close> calls it on the first block of the index as long as that is lower;
  one iteration and the loop after it are the two recursive calls.
\<close>

partial_function (option) Prune_rec :: "ForkDatabase \<Rightarrow> ref \<Rightarrow> ForkDatabase result option" where
  "Prune_rec f r =
     (case byBlockNum (Index f) of
        [] \<Rightarrow> Some (Prune_height f r)
      | bni # _ \<Rightarrow>
          if BlockNum (hstate f bni) < BlockNum (hstate f r)
          then Option.bind (Prune_rec f bni)
                 (\<lambda>res. case res of Inl e \<Rightarrow> Some (Inl e) | Inr f \<Rightarrow> Prune_rec f r)
          else Some (Prune_height f r))"

definition Prune :: "ForkDatabase \<Rightarrow> ref \<Rightarrow> ForkDatabase result" where
  "Prune f r = returned (Prune_rec f r)"

definition AddBlockState :: "ForkDatabase \<Rightarrow> ref \<Rightarrow> ForkDatabase result" where
  "AddBlockState f b =
     (let (index, inserted) = MultiIndex_Insert (heap f) (Index f) b
      in eos_assert inserted ForkDatabaseException
        (let f = f\<lparr>Index := index\<rparr>
         in rbind (Begin_Value (byLibBlockNum (Index f))) (\<lambda>r.
            let f = f\<lparr>Head := Some r\<rparr>; lib = DposIrreversibleBlocknum (hstate f r)
            in rbind (Begin_Value (byBlockNum (Index f))) (\<lambda>oldest.
               if BlockNum (hstate f oldest) < lib then Prune f oldest else Inr f))))"

definition AddSignedBlock :: "Crypto \<Rightarrow> ForkDatabase \<Rightarrow> SignedBlock option \<Rightarrow> bool \<Rightarrow> (ForkDatabase \<times> ref) result" where
  "AddSignedBlock C f blk trust =
     (case blk of
        None \<Rightarrow> Inl ForkDatabaseException
      | Some b \<Rightarrow>
          eos_assert (Head f \<noteq> None) ForkDbBlockNotFound
         (eos_assert (ByBlockId_Find (Index f) (BlockID C (SignedBlockHeaderOf b)) = None) ForkDatabaseException
           (case ByBlockId_Find (Index f) (Previous (SignedBlockHeaderOf b)) of
              None \<Rightarrow> Inl ForkDatabaseException
            | Some prior \<Rightarrow>
                rbind (NewBlockState3 C (hstate f prior) b trust) (\<lambda>s.
                let (f, r) = alloc f s
                in rbind (AddBlockState f r) (\<lambda>f. Inr (f, r))))))"

subsection \<open>Branches\<close>

text \<open>
  A missing parent is a nil pointer, and the message of the assertion that tests it reads
  the previous id through that pointer.
\<close>

partial_function (option) FetchBranch_down ::
  "ForkDatabase \<Rightarrow> u32 \<Rightarrow> ref \<Rightarrow> ref list \<Rightarrow> (ref list \<times> ref) result option" where
  "FetchBranch_down f num b branch =
     (if BlockNum (hstate f b) > num
      then case GetBlock f (Previous (Header (hstate f b))) of
          None \<Rightarrow> Some (Inl GoPanic)
        | Some p \<Rightarrow> FetchBranch_down f num p (branch @ [b])
      else Some (Inr (branch, b)))"

partial_function (option) FetchBranch_meet ::
  "ForkDatabase \<Rightarrow> ref \<Rightarrow> ref \<Rightarrow> ref list \<Rightarrow> ref list \<Rightarrow> (ref list \<times> ref list) result option" where
  "FetchBranch_meet f b1 b2 first second =
     (if Previous (Header (hstate f b1)) \<noteq> Previous (Header (hstate f b2))
      then case (GetBlock f (Previous (Header (hstate f b1))), GetBlock f (Previous (Header (hstate f b2)))) of
          (Some p1, Some p2) \<Rightarrow> FetchBranch_meet f p1 p2 (first @ [b1]) (second @ [b2])
        | _ \<Rightarrow> Some (Inl GoPanic)
      else Some (Inr (first @ [b1], second @ [b2])))"

definition FetchBranchFrom :: "ForkDatabase \<Rightarrow> BlockIdType \<Rightarrow> BlockIdType \<Rightarrow> (ref list \<times> ref list) result" where
  "FetchBranchFrom f i1 i2 =
     (case (GetBlock f i1, GetBlock f i2) of
        (Some b1, Some b2) \<Rightarrow>
          rbind (returned (FetchBranch_down f (BlockNum (hstate f b2)) b1 [])) (\<lambda>(first, b1).
          rbind (returned (FetchBranch_down f (BlockNum (hstate f b1)) b2 [])) (\<lambda>(second, b2).
          returned (FetchBranch_meet f b1 b2 first second)))
      | _ \<Rightarrow> Inl GoPanic)"

subsection \<open>Irreversibility by confirmations\<close>

text \<open>One block of a layer: the children between the bounds of its id, in index order.\<close>

definition bft_children :: "ForkDatabase \<Rightarrow> BlockIdType \<Rightarrow> ref list" where
  "bft_children f i =
     (let lower = index_LowerBound Sha256Compare (ByPrevFunc (heap f)) i (byPrev (Index f));
          upper = index_UpperBound Sha256Compare (ByPrevFunc (heap f)) i (byPrev (Index f))
      in take (length lower - length upper) lower)"

definition bft_update_one :: "u32 \<Rightarrow> ref \<Rightarrow> ForkDatabase \<times> BlockIdType list \<Rightarrow> ForkDatabase \<times> BlockIdType list" where
  "bft_update_one num r fu =
     (let (f, updated) = fu
      in if BftIrreversibleBlocknum (hstate f r) < num
         then (fork_modify f r (\<lambda>s. s\<lparr>HeaderState := (HeaderState s)\<lparr>BftIrreversibleBlocknum := num\<rparr>\<rparr>),
               updated @ [BlockId (hstate f r)])
         else (fork_modify f r (\<lambda>s. s), updated))"

definition bft_update :: "u32 \<Rightarrow> ForkDatabase \<Rightarrow> BlockIdType list \<Rightarrow> ForkDatabase \<times> BlockIdType list" where
  "bft_update num f layer =
     fold (\<lambda>i (f, updated). fold (bft_update_one num) (bft_children f i) (f, updated)) layer (f, [])"

partial_function (option) bft_loop :: "u32 \<Rightarrow> ForkDatabase \<Rightarrow> BlockIdType list \<Rightarrow> ForkDatabase option" where
  "bft_loop num f queue =
     (if queue = [] then Some f
      else let (f', queue') = bft_update num f queue in bft_loop num f' queue')"

definition SetBftIrreversible :: "ForkDatabase \<Rightarrow> BlockIdType \<Rightarrow> ForkDatabase result" where
  "SetBftIrreversible f i =
     (case ByBlockId_Find (Index f) i of
        None \<Rightarrow> Inl GoPanic
      | Some n \<Rightarrow>
          let blockNum = BlockNum (hstate f n);
              f = fork_modify f n (\<lambda>s. s\<lparr>HeaderState := (HeaderState s)
                    \<lparr>BftIrreversibleBlocknum := BlockNum (HeaderState s)\<rparr>\<rparr>)
          in returned (map_option Inr (bft_loop blockNum f [i])))"

definition ForkDb_AddConfirmation :: "Crypto \<Rightarrow> ForkDatabase \<Rightarrow> HeaderConfirmation \<Rightarrow> ForkDatabase result" where
  "ForkDb_AddConfirmation C f c =
     (case GetBlock f (ConfBlockId c) of
        None \<Rightarrow> Inl ForkDbBlockNotFound
      | Some r \<Rightarrow>
          rbind (AddConfirmation C (hstate f r) c) (\<lambda>hs.
          let f = f\<lparr>heap := (heap f)[r := (bstate f r)\<lparr>HeaderState := hs\<rparr>]\<rparr>
          in if BftIrreversibleBlocknum hs < BlockNum hs \<and>
                length (Confirmations hs) \<ge> length (Producers (ActiveSchedule hs)) * 2 div 3 + 1
             then SetBftIrreversible f (ConfBlockId c)
             else Inr f))"

section \<open>Removal\<close>

abbreviation fork_ok :: "ForkDatabase \<Rightarrow> bool" where
  "fork_ok f \<equiv> index_ok (heap f) (Index f)"

abbreviation frefs :: "ForkDatabase \<Rightarrow> ref set" where
  "frefs f \<equiv> refs (Index f)"

abbreviation ident :: "ForkDatabase \<Rightarrow> ref \<Rightarrow> BlockIdType" where
  "ident f \<equiv> ByBlockIdFunc (heap f)"

abbreviation parent_id :: "ForkDatabase \<Rightarrow> ref \<Rightarrow> BlockIdType" where
  "parent_id f \<equiv> ByPrevFunc (heap f)"

lemma finite_refs [simp]: "finite (refs m)" by (simp add: refs_def)

lemma Sha256Compare_refl [simp]: "Sha256Compare a a = 0"
  by (simp add: Sha256Compare_eq)

lemma children_filter:
  assumes "fork_ok f"
  shows "children_of f i = filter (\<lambda>r. parent_id f r = i) (byPrev (Index f))"
proof -
  note D = index_okD [OF assms]
  let ?xs = "filter (\<lambda>y. Sha256Compare i (parent_id f y) \<le> 0) (byPrev (Index f))"
  have lower: "index_LowerBound Sha256Compare (parent_id f) i (byPrev (Index f)) = ?xs"
    unfolding index_LowerBound_def by (rule prev_index.while_keys(4) [OF _ _ D(7)]) simp_all
  have "sorted_wrt (\<lambda>x y. parent_id f y = i \<longrightarrow> parent_id f x = i) ?xs"
  proof (rule sorted_wrt_mono_rel)
    show "sorted_wrt (\<lambda>x y. Sha256Compare (parent_id f x) (parent_id f y) \<le> 0) ?xs"
      using D(7) by (auto simp: index_sorted_def sorted_wrt_filter)
    fix x y assume "x \<in> set ?xs" and le: "Sha256Compare (parent_id f x) (parent_id f y) \<le> 0"
    then have "Sha256Compare i (parent_id f x) \<le> 0" by simp
    with le show "parent_id f y = i \<longrightarrow> parent_id f x = i"
      using Sha256Compare_antisym [of i "parent_id f x"] Sha256Compare_eq [of i "parent_id f x"] by auto
  qed
  note w = while_filter(1) [OF this]
  show ?thesis unfolding children_of_def lower w
    using Sha256Compare_eq [of i i] by (auto intro!: filter_cong)
qed

text \<open>The ids a removal reaches: those of the queue and of blocks whose parent is reached.\<close>

inductive_set doomed :: "ForkDatabase \<Rightarrow> ref set \<Rightarrow> BlockIdType set \<Rightarrow> BlockIdType set" for f R q where
  doomed_queue: "i \<in> q \<Longrightarrow> i \<in> doomed f R q"
| doomed_child: "r \<in> R \<Longrightarrow> parent_id f r \<in> doomed f R q \<Longrightarrow> ident f r \<in> doomed f R q"

lemma doomed_step:
  assumes "R1 = {r \<in> R. ident f r \<noteq> i}" "q1 = qs \<union> ident f ` {r \<in> R1. parent_id f r = i}"
  shows "doomed f R (insert i qs) = insert i (doomed f R1 q1)"
proof (intro equalityI subsetI)
  fix x assume "x \<in> doomed f R (insert i qs)"
  then show "x \<in> insert i (doomed f R1 q1)"
  proof induction
    case (doomed_queue j)
    then show ?case using assms by (auto intro: doomed.doomed_queue)
  next
    case (doomed_child r)
    show ?case
    proof (cases "ident f r = i")
      case False
      with doomed_child have "r \<in> R1" by (simp add: assms(1))
      with doomed_child.IH show ?thesis
        by (auto simp: assms(2) intro: doomed.doomed_queue doomed.doomed_child)
    qed simp
  qed
next
  fix x assume "x \<in> insert i (doomed f R1 q1)"
  then consider "x = i" | "x \<in> doomed f R1 q1" by auto
  then show "x \<in> doomed f R (insert i qs)"
  proof cases
    case 2
    then show ?thesis
      by induction (auto simp: assms intro: doomed.intros)
  qed (auto intro: doomed.intros)
qed

lemma erase_id_ok:
  assumes "fork_ok f"
  shows "fork_ok (erase_id f i)" "frefs (erase_id f i) = {r \<in> frefs f. ident f r \<noteq> i}"
    "byBlockNum (Index (erase_id f i)) = filter (\<lambda>r. r \<in> frefs (erase_id f i)) (byBlockNum (Index f))"
    "heap (erase_id f i) = heap f" "Head (erase_id f i) = Head f" "Irreversible (erase_id f i) = Irreversible f"
proof -
  have "fork_ok (erase_id f i) \<and> frefs (erase_id f i) = {r \<in> frefs f. ident f r \<noteq> i}"
  proof (cases "ByBlockId_Find (Index f) i")
    case None
    then have "\<forall>r \<in> frefs f. ident f r \<noteq> i" "erase_id f i = f"
      using inner_unique(3) [OF assms, of i] by (auto simp: erase_id_def)
    then show ?thesis using assms by auto
  next
    case (Some n)
    then have n: "n \<in> frefs f" "ident f n = i" using inner_unique(2) [OF assms] by auto
    then have "frefs f - {n} = {r \<in> frefs f. ident f r \<noteq> i}" using refs_inject [OF assms] by auto
    with Some n Erase_ok [OF assms n(1)] show ?thesis by (simp add: erase_id_def)
  qed
  then show ok: "fork_ok (erase_id f i)" "frefs (erase_id f i) = {r \<in> frefs f. ident f r \<noteq> i}" by auto
  note D = index_okD [OF assms]
  show "byBlockNum (Index (erase_id f i)) = filter (\<lambda>r. r \<in> frefs (erase_id f i)) (byBlockNum (Index f))"
  proof (cases "ByBlockId_Find (Index f) i")
    case None
    then show ?thesis using D(2) by (simp add: erase_id_def filter_id_conv)
  next
    case (Some n)
    then have "n \<in> frefs f" using inner_unique(2) [OF assms] by blast
    then have "refs (MultiIndex_Erase (Index f) n) = frefs f - {n}" by (rule Erase_ok(2) [OF assms])
    then have "filter (\<lambda>r. r \<in> refs (MultiIndex_Erase (Index f) n)) (byBlockNum (Index f)) =
        filter (\<lambda>r. n \<noteq> r) (byBlockNum (Index f))"
      using D(2) by (intro filter_cong) auto
    with Some show ?thesis
      by (simp add: erase_id_def MultiIndex_Erase_def distinct_remove1_removeAll [OF D(5)] removeAll_filter_not_eq)
  qed
  show "heap (erase_id f i) = heap f" "Head (erase_id f i) = Head f" "Irreversible (erase_id f i) = Irreversible f"
    by (simp_all add: erase_id_def split: option.split)
qed

lemma doomed_mono: "q \<subseteq> doomed f R q' \<Longrightarrow> x \<in> doomed f R q \<Longrightarrow> x \<in> doomed f R q'"
proof -
  assume q: "q \<subseteq> doomed f R q'"
  assume "x \<in> doomed f R q"
  then show "x \<in> doomed f R q'" by induction (use q in \<open>auto intro: doomed.intros\<close>)
qed

lemma doomed_keys:
  assumes "\<And>r. ident f r = ident g r" "\<And>r. parent_id f r = parent_id g r"
  shows "doomed f R q \<subseteq> doomed g R q"
proof
  fix x assume "x \<in> doomed f R q"
  then show "x \<in> doomed g R q"
  proof induction
    case (doomed_child r)
    then show ?case using doomed.doomed_child [of r R g q] by (simp add: assms)
  qed (rule doomed.doomed_queue)
qed

lemma doomed_cong: "heap f = heap g \<Longrightarrow> doomed f R q = doomed g R q"
  by (intro equalityI doomed_keys) simp_all

text \<open>The loop ends: each step erases a block or takes an unknown id from the queue.\<close>

lemma Remove_loop_ok:
  assumes "fork_ok f"
  shows "\<exists>f'. Remove_loop f q = Some f' \<and> fork_ok f' \<and> frefs f' = {r \<in> frefs f. ident f r \<notin> doomed f (frefs f) (set q)} \<and>
    heap f' = heap f \<and> Head f' = Head f \<and> Irreversible f' = Irreversible f \<and>
    byBlockNum (Index f') = filter (\<lambda>r. r \<in> frefs f') (byBlockNum (Index f))"
  using assms
proof (induction "(card (frefs f), length (filter (\<lambda>i. i \<notin> ident f ` frefs f) q))" arbitrary: f q
    rule: wf_induct_rule [OF wf_lex_prod [OF wf_less_than wf_less_than]])
  case (1 f q)
  show ?case
  proof (cases q)
    case Nil
    have "doomed f (frefs f) {} = {}" by (auto elim: doomed.induct)
    with Nil 1(2) index_okD(2) [OF 1(2)] show ?thesis by (simp add: Remove_loop.simps filter_id_conv)
  next
    case (Cons i qs)
    let ?f = "erase_id f i"
    let ?q = "qs @ map (ident ?f) (children_of ?f i)"
    note E = erase_id_ok [OF 1(2), of i]
    have ch: "set (children_of ?f i) = {r \<in> frefs ?f. parent_id f r = i}"
      using index_okD(1) [OF E(1)] by (auto simp: children_filter [OF E(1)] E(4))
    have dec: "((card (frefs ?f), length (filter (\<lambda>i. i \<notin> ident ?f ` frefs ?f) ?q)),
        (card (frefs f), length (filter (\<lambda>i. i \<notin> ident f ` frefs f) q))) \<in> less_than <*lex*> less_than"
    proof (cases "i \<in> ident f ` frefs f")
      case True
      then have "frefs ?f \<subset> frefs f" unfolding E(2) by auto
      then have "card (frefs ?f) < card (frefs f)" by (rule psubset_card_mono [rotated]) simp
      then show ?thesis by simp
    next
      case False
      then have R: "frefs ?f = frefs f" unfolding E(2) by auto
      have "filter (\<lambda>i. i \<notin> ident f ` frefs f) (map (ident f) (children_of ?f i)) = []"
        using ch R by (auto simp: filter_empty_conv)
      with False Cons R show ?thesis by (simp add: E(4))
    qed
    obtain f' where f': "Remove_loop ?f ?q = Some f'" "fork_ok f'"
      "frefs f' = {r \<in> frefs ?f. ident ?f r \<notin> doomed ?f (frefs ?f) (set ?q)}"
      "heap f' = heap ?f" "Head f' = Head ?f" "Irreversible f' = Irreversible ?f"
      "byBlockNum (Index f') = filter (\<lambda>r. r \<in> frefs f') (byBlockNum (Index ?f))"
      using 1(1) [OF dec E(1)] by blast
    have "doomed f (frefs f) (insert i (set qs)) = insert i (doomed f (frefs ?f) (set ?q))"
      by (rule doomed_step [OF E(2)]) (simp add: ch E(4))
    then have "frefs f' = {r \<in> frefs f. ident f r \<notin> doomed f (frefs f) (set q)}"
      unfolding f'(3) using Cons E(2) doomed_cong [OF E(4)] by (auto simp: E(4))
    moreover have "Remove_loop f q = Some f'"
      using f'(1) Cons by (subst Remove_loop.simps) simp
    moreover have "byBlockNum (Index f') = filter (\<lambda>r. r \<in> frefs f') (byBlockNum (Index f))"
      unfolding f'(7) E(3) filter_filter using f'(3) by (auto intro!: filter_cong)
    ultimately show ?thesis using f'(2, 4-6) E(4-6) by auto
  qed
qed

text \<open>
  The fork choice: no block of the set has a higher irreversible block, among those with the
  same irreversible block none has a higher confirmed block, and among those with both the
  same none has a higher number.
\<close>

definition best_of :: "bs_heap \<Rightarrow> ref set \<Rightarrow> ref \<Rightarrow> bool" where
  "best_of h R r \<longleftrightarrow>
     (\<forall>s \<in> R. let a = HeaderState (h ! r); b = HeaderState (h ! s) in
        DposIrreversibleBlocknum b \<le> DposIrreversibleBlocknum a \<and>
        (DposIrreversibleBlocknum b = DposIrreversibleBlocknum a \<longrightarrow>
           BftIrreversibleBlocknum b \<le> BftIrreversibleBlocknum a \<and>
           (BftIrreversibleBlocknum b = BftIrreversibleBlocknum a \<longrightarrow> BlockNum b \<le> BlockNum a)))"

lemma best_of_compare:
  "best_of h R r \<longleftrightarrow> (\<forall>s \<in> R. ByLibBlockNumCompare (ByLibBlockNumFunc h r) (ByLibBlockNumFunc h s) \<le> 0)"
  unfolding best_of_def Let_def ByLibBlockNumFunc_def ByLibBlockNumCompare_le by (auto simp: le_less)

lemma best_of_first:
  assumes "index_ok h m" "byLibBlockNum m = r # rs"
  shows "best_of h (refs m) r" "r \<in> refs m"
proof -
  note D = index_okD [OF assms(1)]
  show "r \<in> refs m" using D(3) assms(2) by auto
  show "best_of h (refs m) r"
    unfolding best_of_compare
  proof
    fix s assume "s \<in> refs m"
    then have "s = r \<or> s \<in> set rs" using D(3) assms(2) by auto
    then show "ByLibBlockNumCompare (ByLibBlockNumFunc h r) (ByLibBlockNumFunc h s) \<le> 0"
      using D(9) assms(2) lib_index.flip [of "ByLibBlockNumFunc h r" "ByLibBlockNumFunc h r"]
      by (auto simp: index_sorted_def)
  qed
qed

lemma best_of_mono: "best_of h R r \<Longrightarrow> R' \<subseteq> R \<Longrightarrow> best_of h R' r"
  by (auto simp: best_of_def)

definition survivors :: "ForkDatabase \<Rightarrow> BlockIdType \<Rightarrow> ref set" where
  "survivors f i = {r \<in> frefs f. ident f r \<notin> doomed f (frefs f) {i}}"

lemma fork_Remove_ok:
  assumes "fork_ok f"
  shows "(survivors f i = {} \<and> Remove f i = Inl GoPanic) \<or>
    (survivors f i \<noteq> {} \<and>
     (\<exists>f' r. Remove f i = Inr f' \<and> fork_ok f' \<and> frefs f' = survivors f i \<and> heap f' = heap f \<and>
      Irreversible f' = Irreversible f \<and> Head f' = Some r \<and> r \<in> survivors f i \<and> best_of (heap f) (survivors f i) r \<and>
      byBlockNum (Index f') = filter (\<lambda>r. r \<in> frefs f') (byBlockNum (Index f))))"
proof -
  obtain f' where f': "Remove_loop f [i] = Some f'" "fork_ok f'" "frefs f' = survivors f i" "heap f' = heap f"
      "Irreversible f' = Irreversible f" "byBlockNum (Index f') = filter (\<lambda>r. r \<in> frefs f') (byBlockNum (Index f))"
    using Remove_loop_ok [OF assms(1), of "[i]"] by (auto simp: survivors_def)
  show ?thesis
  proof (cases "byLibBlockNum (Index f')")
    case Nil
    then have "survivors f i = {}" using index_okD(3) [OF f'(2)] f'(3) by simp
    with Nil f' show ?thesis by (simp add: Remove_def Begin_Value_def)
  next
    case (Cons r rs)
    note b = best_of_first [OF f'(2) Cons]
    have "Remove f i = Inr (f'\<lparr>Head := Some r\<rparr>)" using f'(1) Cons by (simp add: Remove_def Begin_Value_def)
    with b f' show ?thesis by auto
  qed
qed

section \<open>Pruning and insertion\<close>

abbreviation bnum :: "ForkDatabase \<Rightarrow> ref \<Rightarrow> u32" where
  "bnum f r \<equiv> BlockNum (hstate f r)"

definition head_best :: "ForkDatabase \<Rightarrow> bool" where
  "head_best f \<longleftrightarrow> (\<exists>r. Head f = Some r \<and> best_of (heap f) (frefs f) r)"

text \<open>What an operation that only takes blocks away leaves intact.\<close>

definition shrinks :: "ForkDatabase \<Rightarrow> ForkDatabase \<Rightarrow> bool" where
  "shrinks f f' \<longleftrightarrow> fork_ok f' \<and> heap f' = heap f \<and> frefs f' \<subseteq> frefs f \<and> (head_best f \<longrightarrow> head_best f') \<and>
     (Head f' = Head f \<or> Head f' \<in> Some ` frefs f)"

lemma shrinksD:
  assumes "shrinks f f'"
  shows "fork_ok f'" "heap f' = heap f" "frefs f' \<subseteq> frefs f" "head_best f \<Longrightarrow> head_best f'"
  using assms unfolding shrinks_def by blast+

lemma shrinks_refl: "fork_ok f \<Longrightarrow> shrinks f f" by (simp add: shrinks_def)

lemma shrinks_trans: "shrinks f g \<Longrightarrow> shrinks g h \<Longrightarrow> shrinks f h" by (auto simp: shrinks_def)

lemma self_doomed: "r \<in> frefs f \<Longrightarrow> r \<notin> survivors f (ident f r)"
  by (auto simp: survivors_def intro: doomed.intros)

lemma num_sorted:
  assumes "fork_ok f"
  shows "sorted_wrt (\<lambda>r s. bnum f r \<le> bnum f s) (byBlockNum (Index f))"
  using index_okD(8) [OF assms] unfolding index_sorted_def
  by (rule sorted_wrt_mono_rel [rotated]) (auto simp: ByBlockNumFunc_def ByBlockNumCompare_le)

lemma lower_num:
  assumes "fork_ok f"
  shows "index_LowerBound ByBlockNumCompare (ByBlockNumFunc (heap f)) (Some n, None) (byBlockNum (Index f)) =
    filter (\<lambda>r. n \<le> bnum f r) (byBlockNum (Index f))"
proof -
  have "sorted_wrt (\<lambda>r s. bnum f s < n \<longrightarrow> bnum f r < n) (byBlockNum (Index f))"
    using num_sorted [OF assms] by (rule sorted_wrt_mono_rel [rotated]) auto
  note w = while_filter(2) [OF this]
  have "ByBlockNumCompare (Some n, None) (ByBlockNumFunc (heap f) r) > 0 \<longleftrightarrow> bnum f r < n" for r
    by (auto simp: ByBlockNumFunc_def ByBlockNumCompare_def by_field_def dest: less_asym)
  with w show ?thesis by (simp add: index_LowerBound_def not_less)
qed

abbreviation after :: "ref \<Rightarrow> ref list \<Rightarrow> ref list" where
  "after r xs \<equiv> tl (dropWhile (\<lambda>x. x \<noteq> r) xs)"

lemma after_filter:
  assumes "distinct xs" "x \<in> set xs" "P x"
  shows "after x (filter P xs) = filter P (after x xs)"
  using assms by (induction xs) auto

lemma after_split: "after r xs = x # ys \<Longrightarrow> \<exists>as. xs = as @ r # x # ys"
proof (induction xs)
  case (Cons a xs)
  show ?case
  proof (cases "a = r")
    case True
    with Cons.prems show ?thesis by (intro exI [of _ "[]"]) simp
  next
    case False
    with Cons obtain as where "xs = as @ r # x # ys" by auto
    then show ?thesis by (intro exI [of _ "a # as"]) simp
  qed
qed simp

lemma after_tail:
  assumes "distinct xs" "after r xs = x # ys"
  shows "after x xs = ys" "x \<in> set xs"
proof -
  obtain as where xs: "xs = as @ r # x # ys" using after_split [OF assms(2)] by blast
  then have "x \<notin> set as" "x \<noteq> r" using assms(1) by auto
  then show "after x xs = ys" "x \<in> set xs" by (auto simp: xs dropWhile_append)
qed

lemma sorted_after:
  assumes "sorted_wrt R xs" "r \<in> set xs" "s \<in> set (after r xs)"
  shows "R r s"
  using assms by (induction xs) (auto split: if_splits)

lemma Prune_siblings_ok:
  assumes "fork_ok f"
    and "\<And>s. s \<in> frefs f \<Longrightarrow> bnum f s = num \<Longrightarrow> 
      \<exists>r. nitr = Some r \<and> (r \<in> frefs f \<longrightarrow> s \<in> insert r (set (after r (byBlockNum (Index f)))))"
    and "\<And>r. nitr = Some r \<Longrightarrow> num \<le> bnum f r"
  shows "Prune_siblings f num nitr = Some (Inl GoPanic) \<or>
    (\<exists>f'. Prune_siblings f num nitr = Some (Inr f') \<and> shrinks f f' \<and> (\<forall>s \<in> frefs f'. bnum f s \<noteq> num))"
  using assms
proof (induction "card (frefs f)" arbitrary: f nitr rule: less_induct)
  case less
  note ok = less.prems(1)
  note D = index_okD [OF ok]
  show ?case
  proof (cases nitr)
    case None
    then have "Prune_siblings f num nitr = Some (Inr f)" by (subst Prune_siblings.simps) simp
    with None less.prems(2) show ?thesis using shrinks_refl [OF ok] by blast
  next
    case (Some r)
    let ?xs = "byBlockNum (Index f)"
    consider "r \<notin> set ?xs" | "r \<in> set ?xs" "bnum f r \<noteq> num" | "r \<in> set ?xs" "bnum f r = num" by blast
    then show ?thesis
    proof cases
      case 1
      then have "Prune_siblings f num nitr = Some (Inl GoPanic)" using Some by (subst Prune_siblings.simps) simp
      then show ?thesis ..
    next
      case 2
      have "bnum f s \<noteq> num" if "s \<in> frefs f" for s
      proof
        assume "bnum f s = num"
        with less.prems(2) [OF that] Some 2 D(2) have "s \<in> set (after r ?xs)" by auto
        with sorted_after [OF num_sorted [OF ok] 2(1)] have "bnum f r \<le> bnum f s" by blast
        with \<open>bnum f s = num\<close> less.prems(3) [OF Some] 2(2) show False by simp
      qed
      moreover have "Prune_siblings f num nitr = Some (Inr f)"
        using 2 Some by (subst Prune_siblings.simps) simp
      ultimately show ?thesis using shrinks_refl [OF ok] by blast
    next
      case 3
      let ?next = "case after r ?xs of [] \<Rightarrow> None | x # _ \<Rightarrow> Some x"
      have r: "r \<in> frefs f" using 3(1) D(2) by simp
      have step: "Prune_siblings f num nitr =
          (case Remove f (ident f r) of Inl e \<Rightarrow> Some (Inl e) | Inr f \<Rightarrow> Prune_siblings f num ?next)"
        using 3 Some by (subst Prune_siblings.simps) (simp add: ByBlockIdFunc_def)
      show ?thesis
      proof (cases "Remove f (ident f r)")
        case (Inl e)
        with fork_Remove_ok [OF ok, of "ident f r"] step show ?thesis by auto
      next
        case (Inr g)
        obtain h0 where g: "fork_ok g" "frefs g = survivors f (ident f r)" "heap g = heap f"
          "Head g = Some h0" "best_of (heap f) (survivors f (ident f r)) h0"
          "byBlockNum (Index g) = filter (\<lambda>r. r \<in> frefs g) ?xs" "h0 \<in> survivors f (ident f r)"
          using fork_Remove_ok [OF ok, of "ident f r"] Inr by auto
        have sub: "frefs g \<subseteq> frefs f" "r \<notin> frefs g" using g(2) self_doomed [OF r] by (auto simp: survivors_def)
        then have less_card: "card (frefs g) < card (frefs f)" using r by (metis finite_refs psubset_card_mono psubsetI)
        have sh: "shrinks f g" using g sub by (auto simp: shrinks_def head_best_def)
        have next_ge: "num \<le> bnum g x" if "?next = Some x" for x
        proof -
          from that have "x \<in> set (after r ?xs)" by (auto split: list.splits)
          with sorted_after [OF num_sorted [OF ok] 3(1)] 3(2) g(3) show ?thesis by metis
        qed
        have next_covers: "\<exists>x. ?next = Some x \<and> (x \<in> frefs g \<longrightarrow> s \<in> insert x (set (after x (byBlockNum (Index g)))))"
          if "s \<in> frefs g" "bnum g s = num" for s
        proof -
          have s: "s \<in> set (after r ?xs)" using less.prems(2) [of s] that sub g(3) Some r by auto
          then obtain x ys where x: "after r ?xs = x # ys" by (cases "after r ?xs") auto
          note t = after_tail [OF D(5) x]
          have "s \<in> insert x (set (after x (byBlockNum (Index g))))" if "x \<in> frefs g"
            using after_filter [OF D(5) t(2), of "\<lambda>r. r \<in> frefs g"] g(6) t(1) s x \<open>s \<in> frefs g\<close> that by auto
          with x show ?thesis by simp
        qed
        have "Prune_siblings g num ?next = Some (Inl GoPanic) \<or>
          (\<exists>f'. Prune_siblings g num ?next = Some (Inr f') \<and> shrinks g f' \<and> (\<forall>s \<in> frefs f'. bnum g s \<noteq> num))"
          by (rule less.hyps [OF less_card g(1) next_covers next_ge])
        with step Inr g(3) shrinks_trans [OF sh] show ?thesis by auto
      qed
    qed
  qed
qed

lemma first_covers:
  assumes "fork_ok f"
  shows "s \<in> frefs f \<Longrightarrow> bnum f s = num \<Longrightarrow>
      \<exists>r. ByBlockNum_LowerBound f num = Some r \<and> (r \<in> frefs f \<longrightarrow> s \<in> insert r (set (after r (byBlockNum (Index f)))))"
    and "ByBlockNum_LowerBound f num = Some r \<Longrightarrow> num \<le> bnum f r"
proof -
  let ?xs = "byBlockNum (Index f)"
  note D = index_okD [OF assms(1)]
  have nitr: "ByBlockNum_LowerBound f num = (case filter (\<lambda>r. num \<le> bnum f r) ?xs of [] \<Rightarrow> None | x # _ \<Rightarrow> Some x)"
    unfolding ByBlockNum_LowerBound_def lower_num [OF assms(1)] ..
  show "num \<le> bnum f r" if "ByBlockNum_LowerBound f num = Some r"
    using that unfolding nitr by (auto split: list.splits dest!: arg_cong [of _ _ set])
  assume s: "s \<in> frefs f" "bnum f s = num"
  then have "s \<in> set (filter (\<lambda>r. num \<le> bnum f r) ?xs)" using D(2) by simp
  then obtain x ys where x: "filter (\<lambda>r. num \<le> bnum f r) ?xs = x # ys" "s \<in> set (x # ys)"
    by (metis list.exhaust empty_iff list.set(1))
  have "s \<in> insert x (set (after x ?xs))"
  proof (cases "s = x")
    case False
    with x have "s \<in> set (after x (filter (\<lambda>r. num \<le> bnum f r) ?xs))" by simp
    moreover have "x \<in> set ?xs" "num \<le> bnum f x" using x(1) by (auto dest!: arg_cong [of _ _ set])
    ultimately show ?thesis using after_filter [OF D(5)] by simp
  qed simp
  with x show "\<exists>r. ByBlockNum_LowerBound f num = Some r \<and> (r \<in> frefs f \<longrightarrow> s \<in> insert r (set (after r ?xs)))" by (simp add: nitr)
qed

lemma Prune_height_ok:
  assumes "fork_ok f"
  shows "Prune_height f r = Inl GoPanic \<or>
    (\<exists>f'. Prune_height f r = Inr f' \<and> shrinks f f' \<and> (\<forall>s \<in> frefs f'. bnum f s \<noteq> bnum f r) \<and>
       (\<forall>s \<in> frefs f'. ident f s \<noteq> ident f r))"
proof -
  define g where "g = (case ByBlockId_Find (Index f) (ident f r) of None \<Rightarrow> f
     | Some n \<Rightarrow> f\<lparr>Irreversible := Irreversible f @ [n], Index := MultiIndex_Erase (Index f) n\<rparr>)"
  define nitr where "nitr = ByBlockNum_LowerBound g (bnum f r)"
  have g: "Index g = Index (erase_id f (ident f r))" "heap g = heap f" "Head g = Head f"
    by (simp_all add: g_def erase_id_def split: option.split)
  note E = erase_id_ok [OF assms, of "ident f r"]
  have ok: "fork_ok g" using E(1, 4) g by simp
  have sh: "shrinks f g"
    using ok g E(2) best_of_mono [of "heap f" "frefs f" _ "frefs g"] by (auto simp: shrinks_def head_best_def)
  have eq: "Prune_height f r = returned (Prune_siblings g (bnum f r) nitr)"
    unfolding Prune_height_def Let_def g_def nitr_def by (simp add: ByBlockIdFunc_def)
  have "Prune_siblings g (bnum f r) nitr = Some (Inl GoPanic) \<or>
    (\<exists>f'. Prune_siblings g (bnum f r) nitr = Some (Inr f') \<and> shrinks g f' \<and> (\<forall>s \<in> frefs f'. bnum g s \<noteq> bnum f r))"
    by (rule Prune_siblings_ok [OF ok, of "bnum f r" nitr])
       (unfold nitr_def, rule first_covers(1) [OF ok], assumption+, rule first_covers(2) [OF ok])
  then show ?thesis
  proof
    assume "\<exists>f'. Prune_siblings g (bnum f r) nitr = Some (Inr f') \<and> shrinks g f' \<and> (\<forall>s \<in> frefs f'. bnum g s \<noteq> bnum f r)"
    then obtain f' where f': "Prune_siblings g (bnum f r) nitr = Some (Inr f')" "shrinks g f'"
      "\<forall>s \<in> frefs f'. bnum g s \<noteq> bnum f r" by blast
    moreover have "ident f s \<noteq> ident f r" if "s \<in> frefs f'" for s
      using f'(2) that E(2) g(1) by (auto simp: shrinks_def)
    ultimately show ?thesis using eq g(2) shrinks_trans [OF sh] by auto
  qed (simp add: eq)
qed

lemma Prune_rec_ok:
  assumes "fork_ok f"
  shows "Prune_rec f r = Some (Inl GoPanic) \<or>
    (\<exists>f'. Prune_rec f r = Some (Inr f') \<and> shrinks f f' \<and> (\<forall>s \<in> frefs f'. bnum f r < bnum f s))"
  using assms
proof (induction "card (frefs f)" arbitrary: f rule: less_induct)
  case less
  note D = index_okD [OF less.prems]
  have base: "Some (Prune_height f r) = Some (Inl GoPanic) \<or>
      (\<exists>f'. Some (Prune_height f r) = Some (Inr f') \<and> shrinks f f' \<and> (\<forall>s \<in> frefs f'. bnum f r < bnum f s))"
    if "\<forall>s \<in> frefs f. bnum f r \<le> bnum f s"
  proof -
    have "bnum f r < bnum f s" if "shrinks f f'" "\<forall>s \<in> frefs f'. bnum f s \<noteq> bnum f r" "s \<in> frefs f'" for f' s
    proof -
      from that(1, 3) have "s \<in> frefs f" by (auto simp: shrinks_def)
      then have "bnum f r \<le> bnum f s" using \<open>\<forall>s \<in> frefs f. _\<close> by blast
      moreover have "bnum f r \<noteq> bnum f s" using that(2, 3) by force
      ultimately show ?thesis by simp
    qed
    then show ?thesis using Prune_height_ok [OF less.prems, of r] by blast
  qed
  show ?case
  proof (cases "byBlockNum (Index f)")
    case Nil
    then have "Prune_rec f r = Some (Prune_height f r)" by (subst Prune_rec.simps) simp
    with Nil D(2) base show ?thesis by simp
  next
    case (Cons b bs)
    have b: "b \<in> frefs f" using D(2) Cons by auto
    have min: "bnum f b \<le> bnum f s" if "s \<in> frefs f" for s
      using that num_sorted [OF less.prems] D(2) Cons by auto
    show ?thesis
    proof (cases "bnum f b < bnum f r")
      case False
      then have "\<forall>s \<in> frefs f. bnum f r \<le> bnum f s" using min by (meson order_trans not_less)
      moreover have "Prune_rec f r = Some (Prune_height f r)" using False Cons by (subst Prune_rec.simps) simp
      ultimately show ?thesis using base by simp
    next
      case True
      have inner: "Prune_rec f b = Some (Prune_height f b)" using Cons by (subst Prune_rec.simps) simp
      have step: "Prune_rec f r = (case Prune_height f b of Inl e \<Rightarrow> Some (Inl e) | Inr f \<Rightarrow> Prune_rec f r)"
        using Cons True inner by (subst Prune_rec.simps) simp
      show ?thesis
      proof (cases "Prune_height f b")
        case (Inl e)
        with Prune_height_ok [OF less.prems, of b] step show ?thesis by auto
      next
        case (Inr g)
        with Prune_height_ok [OF less.prems, of b] have g: "shrinks f g" "\<forall>s \<in> frefs g. ident f s \<noteq> ident f b" by auto
        then have "frefs g \<subset> frefs f" using b by (auto simp: shrinks_def)
        then have "card (frefs g) < card (frefs f)" by (simp add: psubset_card_mono)
        moreover have ok: "fork_ok g" and h: "heap g = heap f" using shrinksD [OF g(1)] by blast+
        ultimately have "Prune_rec g r = Some (Inl GoPanic) \<or>
          (\<exists>f'. Prune_rec g r = Some (Inr f') \<and> shrinks g f' \<and> (\<forall>s \<in> frefs f'. bnum g r < bnum g s))"
          by (intro less.hyps)
        with step Inr h shrinks_trans [OF g(1)] show ?thesis by auto
      qed
    qed
  qed
qed

lemma Prune_ok:
  assumes "fork_ok f"
  shows "Prune f r = Inl GoPanic \<or>
    (\<exists>f'. Prune f r = Inr f' \<and> shrinks f f' \<and> (\<forall>s \<in> frefs f'. bnum f r < bnum f s))"
  using Prune_rec_ok [OF assms, of r] by (auto simp: Prune_def)

lemma AddBlockState_ok:
  assumes "fork_ok f" "b < length (heap f)"
  shows "if ident f b \<in> ident f ` frefs f then AddBlockState f b = Inl ForkDatabaseException
    else AddBlockState f b = Inl GoPanic \<or>
      (\<exists>f'. AddBlockState f b = Inr f' \<and> fork_ok f' \<and> heap f' = heap f \<and> frefs f' \<subseteq> insert b (frefs f) \<and> head_best f' \<and>
         Head f' \<in> Some ` insert b (frefs f))"
proof -
  obtain m ins where m: "MultiIndex_Insert (heap f) (Index f) b = (m, ins)" "index_ok (heap f) m"
    "ins \<longleftrightarrow> (\<forall>r \<in> frefs f. ident f r \<noteq> ident f b)" "refs m = (if ins then insert b (frefs f) else frefs f)"
    by (rule MultiIndex_Insert_ok [OF assms])
  show ?thesis
  proof (cases ins)
    case False
    then have "ident f b \<in> ident f ` frefs f" using m(3) by (metis imageI)
    with False m(1) show ?thesis by (simp add: AddBlockState_def)
  next
    case True
    then have new: "ident f b \<notin> ident f ` frefs f" using m(3) by auto
    have ne: "refs m \<noteq> {}" using m(4) True by simp
    obtain r rs where r: "byLibBlockNum m = r # rs" using index_okD(3) [OF m(2)] ne by (cases "byLibBlockNum m") auto
    obtain q qs where q: "byBlockNum m = q # qs" using index_okD(2) [OF m(2)] ne by (cases "byBlockNum m") auto
    let ?g = "f\<lparr>Index := m, Head := Some r\<rparr>"
    have ok: "fork_ok ?g" "head_best ?g" "frefs ?g = insert b (frefs f)"
      using m(2, 4) True best_of_first [OF m(2) r] by (simp_all add: head_best_def)
    have hd: "Head ?g \<in> Some ` insert b (frefs f)" using best_of_first(2) [OF m(2) r] ok(3) by auto
    have eq: "AddBlockState f b =
        (if bnum f q < DposIrreversibleBlocknum (hstate f r) then Prune ?g q else Inr ?g)"
      using m(1) True r q by (simp add: AddBlockState_def Begin_Value_def)
    show ?thesis
      using eq new ok hd Prune_ok [OF ok(1), of q] by (auto simp: shrinks_def)
  qed
qed

section \<open>Modification and confirmations\<close>

lemma fork_modify_ok:
  assumes "fork_ok f" "n \<in> frefs f" "BlockId (HeaderState (g (bstate f n))) = BlockId (hstate f n)"
  shows "fork_ok (fork_modify f n g)" "frefs (fork_modify f n g) = frefs f"
    "heap (fork_modify f n g) = (heap f)[n := g (bstate f n)]" "Head (fork_modify f n g) = Head f"
    "Irreversible (fork_modify f n g) = Irreversible f"
proof -
  obtain m where "MultiIndex_Modify (heap f) (Index f) n g = ((heap f)[n := g (bstate f n)], m, True)"
    "index_ok ((heap f)[n := g (bstate f n)]) m" "refs m = frefs f"
    by (rule MultiIndex_Modify_ok [where h = "heap f" and m = "Index f" and n = n and g = g, OF assms])
  then show "fork_ok (fork_modify f n g)" "frefs (fork_modify f n g) = frefs f"
    "heap (fork_modify f n g) = (heap f)[n := g (bstate f n)]" "Head (fork_modify f n g) = Head f"
    "Irreversible (fork_modify f n g) = Irreversible f"
    by (simp_all add: fork_modify_def)
qed

lemma bft_children_filter:
  assumes "fork_ok f"
  shows "bft_children f i = filter (\<lambda>r. parent_id f r = i) (byPrev (Index f))"
proof -
  note D = index_okD [OF assms]
  let ?c = "\<lambda>y. Sha256Compare i (parent_id f y)" and ?xs = "byPrev (Index f)"
  have lower: "index_LowerBound Sha256Compare (parent_id f) i ?xs = filter (\<lambda>y. ?c y \<le> 0) ?xs"
    unfolding index_LowerBound_def by (rule prev_index.while_keys(4) [OF _ _ D(7)]) simp_all
  have upper: "index_UpperBound Sha256Compare (parent_id f) i ?xs = filter (\<lambda>y. ?c y < 0) ?xs"
    unfolding index_UpperBound_def by (rule prev_index.while_keys(2) [OF _ _ D(7)]) simp_all
  let ?ys = "filter (\<lambda>y. ?c y \<le> 0) ?xs"
  have srt: "index_sorted Sha256Compare (parent_id f) ?ys"
    using D(7) by (simp add: index_sorted_def sorted_wrt_filter)
  have t: "takeWhile (\<lambda>y. 0 \<le> ?c y) ?ys = filter (\<lambda>y. 0 \<le> ?c y) ?ys"
    by (rule prev_index.while_keys(1) [OF _ _ srt]) simp_all
  have d: "dropWhile (\<lambda>y. 0 \<le> ?c y) ?ys = filter (\<lambda>y. ?c y < 0) ?xs"
    unfolding prev_index.while_keys(2) [OF TrueI TrueI srt, of i] filter_filter by (rule filter_cong) auto
  have ys: "?ys = filter (\<lambda>y. 0 \<le> ?c y) ?ys @ filter (\<lambda>y. ?c y < 0) ?xs"
    using takeWhile_dropWhile_id [of "\<lambda>y. 0 \<le> ?c y" ?ys] unfolding t d by simp
  have "bft_children f i = take (length ?ys - length (filter (\<lambda>y. ?c y < 0) ?xs)) ?ys"
    by (simp add: bft_children_def lower upper Let_def)
  also have "\<dots> = filter (\<lambda>y. 0 \<le> ?c y) ?ys" 
  proof -
    have "take (length zs - length bs) zs = as" if "zs = as @ bs" for zs as bs :: "ref list" using that by simp
    then show ?thesis using ys .
  qed
  also have "\<dots> = filter (\<lambda>r. parent_id f r = i) ?xs"
    unfolding filter_filter using Sha256Compare_eq [of i] by (intro filter_cong) (auto simp: order_antisym)
  finally show ?thesis .
qed

text \<open>Raising the confirmed block number of some objects.\<close>

abbreviation bft_of :: "ForkDatabase \<Rightarrow> ref \<Rightarrow> u32" where
  "bft_of f r \<equiv> BftIrreversibleBlocknum (hstate f r)"

definition with_bft :: "u32 \<Rightarrow> BlockState \<Rightarrow> BlockState" where
  "with_bft num s = s\<lparr>HeaderState := (HeaderState s)\<lparr>BftIrreversibleBlocknum := num\<rparr>\<rparr>"

definition raised :: "u32 \<Rightarrow> ref set \<Rightarrow> ForkDatabase \<Rightarrow> ForkDatabase \<Rightarrow> bool" where
  "raised num U f f' \<longleftrightarrow> fork_ok f' \<and> frefs f' = frefs f \<and> Head f' = Head f \<and> U \<subseteq> frefs f \<and>
     length (heap f') = length (heap f) \<and> (\<forall>r \<in> U. bft_of f r < num) \<and>
     (\<forall>r. bstate f' r = (if r \<in> U then with_bft num (bstate f r) else bstate f r))"

lemma raised_keys:
  assumes "raised num U f f'"
  shows "ident f' r = ident f r" "parent_id f' r = parent_id f r" "bnum f' r = bnum f r"
    "bft_of f' r = (if r \<in> U then num else bft_of f r)"
  using assms by (auto simp: raised_def ByBlockIdFunc_def ByPrevFunc_def with_bft_def)

lemma raised_trans:
  assumes "raised num U f g" "raised num V g h"
  shows "raised num (U \<union> V) f h" "U \<inter> V = {}"
proof -
  show disj: "U \<inter> V = {}"
    using assms(2) raised_keys(4) [OF assms(1)] by (fastforce simp: raised_def)
  have "\<forall>r \<in> V. bft_of f r < num"
    using assms(2) raised_keys(4) [OF assms(1)] disj by (auto simp: raised_def split: if_splits)
  then show "raised num (U \<union> V) f h"
    using assms disj unfolding raised_def by (auto simp: with_bft_def)
qed

lemma bft_update_one_ok:
  assumes "fork_ok f" "r \<in> frefs f"
  obtains f' where "bft_update_one num r (f, u) = (f', u @ (if bft_of f r < num then [ident f r] else []))"
    "raised num (if bft_of f r < num then {r} else {}) f f'"
proof (cases "bft_of f r < num")
  case True
  have len: "r < length (heap f)" using index_ok_inner(3) [OF assms] .
  let ?g = "with_bft num"
  have "BlockId (HeaderState (?g (bstate f r))) = BlockId (hstate f r)" by (simp add: with_bft_def)
  note M = fork_modify_ok [where g = ?g, OF assms this]
  show ?thesis
  proof (rule that)
    show "bft_update_one num r (f, u) = (fork_modify f r ?g, u @ (if bft_of f r < num then [ident f r] else []))"
      using True by (simp add: bft_update_one_def with_bft_def [abs_def] ByBlockIdFunc_def)
    show "raised num (if bft_of f r < num then {r} else {}) f (fork_modify f r ?g)"
      using M True assms(2) len by (auto simp: raised_def nth_list_update)
  qed
next
  case False
  note M = fork_modify_ok [OF assms, of "\<lambda>s. s"]
  show ?thesis
    by (rule that [of "fork_modify f r (\<lambda>s. s)"]) (use False M in \<open>auto simp: bft_update_one_def raised_def\<close>)
qed

text \<open>One layer: all lagging children of the layer are raised and returned.\<close>

lemma bft_children_ok:
  assumes "fork_ok f" "set rs \<subseteq> frefs f" "distinct rs"
  shows "\<exists>f'. fold (bft_update_one num) rs (f, u) = (f', u @ map (ident f) (filter (\<lambda>r. bft_of f r < num) rs)) \<and>
    raised num {r \<in> set rs. bft_of f r < num} f f'"
  using assms
proof (induction rs arbitrary: f u)
  case Nil
  then show ?case by (auto simp: raised_def)
next
  case (Cons r rs)
  obtain g where g: "bft_update_one num r (f, u) = (g, u @ (if bft_of f r < num then [ident f r] else []))"
    "raised num (if bft_of f r < num then {r} else {}) f g"
    by (rule bft_update_one_ok [of f r num u]) (use Cons.prems in auto)
  note K = raised_keys [OF g(2)]
  have gok: "fork_ok g" "frefs g = frefs f" using g(2) by (auto simp: raised_def)
  obtain f' where f': "fold (bft_update_one num) rs (g, u @ (if bft_of f r < num then [ident f r] else [])) =
      (f', (u @ (if bft_of f r < num then [ident f r] else [])) @ map (ident g) (filter (\<lambda>r. bft_of g r < num) rs))"
    "raised num {r \<in> set rs. bft_of g r < num} g f'"
    using Cons.IH [of g "u @ (if bft_of f r < num then [ident f r] else [])"] Cons.prems gok by auto
  have eq: "bft_of g s < num \<longleftrightarrow> bft_of f s < num" if "s \<in> set rs" for s
    using that Cons.prems(3) K(4) [of s] by auto
  then have fl: "filter (\<lambda>r. bft_of g r < num) rs = filter (\<lambda>r. bft_of f r < num) rs"
    "{r \<in> set rs. bft_of g r < num} = {r \<in> set rs. bft_of f r < num}" by (auto intro!: filter_cong)
  have "raised num ((if bft_of f r < num then {r} else {}) \<union> {r \<in> set rs. bft_of f r < num}) f f'"
    using raised_trans(1) [OF g(2) f'(2)] fl(2) by simp
  moreover have "(if bft_of f r < num then {r} else {}) \<union> {r \<in> set rs. bft_of f r < num} =
      {s \<in> set (r # rs). bft_of f s < num}" by auto
  moreover have "map (ident g) xs = map (ident f) xs" for xs using K(1) by simp
  ultimately show ?case using g(1) f'(1) fl(1) by auto
qed

lemma bft_update_ok:
  assumes "fork_ok f"
  obtains f' U where "bft_update num f layer = (f', map (ident f) U)" "raised num (set U) f f'" "distinct U"
    "set U \<subseteq> {r \<in> frefs f. parent_id f r \<in> set layer}"
    "\<And>r. r \<in> frefs f \<Longrightarrow> parent_id f r \<in> set layer \<Longrightarrow> num \<le> bft_of f' r"
proof -
  have "\<exists>f' V. fold (\<lambda>i (f, updated). fold (bft_update_one num) (bft_children f i) (f, updated)) layer (g, u) =
      (f', u @ map (ident g) V) \<and> raised num (set V) g f' \<and> distinct V \<and>
      set V \<subseteq> {r \<in> frefs g. parent_id g r \<in> set layer} \<and>
      (\<forall>r \<in> frefs g. parent_id g r \<in> set layer \<longrightarrow> num \<le> bft_of f' r)" if "fork_ok g" for g u
    using that
  proof (induction layer arbitrary: g u)
    case Nil
    then show ?case by (intro exI [of _ g] exI [of _ "[]"]) (auto simp: raised_def)
  next
    case (Cons i layer)
    note D = index_okD [OF Cons.prems]
    let ?rs = "bft_children g i" and ?low = "\<lambda>r. bft_of g r < num"
    have rs: "set ?rs = {r \<in> frefs g. parent_id g r = i}" "distinct ?rs"
      using D(1, 4) by (simp_all add: bft_children_filter [OF Cons.prems])
    obtain k where k: "fold (bft_update_one num) ?rs (g, u) = (k, u @ map (ident g) (filter ?low ?rs))"
      "raised num {r \<in> set ?rs. ?low r} g k"
      using bft_children_ok [OF Cons.prems, of ?rs num u] rs by auto
    note K = raised_keys [OF k(2)]
    have kok: "fork_ok k" "frefs k = frefs g" using k(2) by (auto simp: raised_def)
    obtain f' V where f': "fold (\<lambda>i (f, updated). fold (bft_update_one num) (bft_children f i) (f, updated)) layer
        (k, u @ map (ident g) (filter ?low ?rs)) = (f', (u @ map (ident g) (filter ?low ?rs)) @ map (ident k) V)"
      "raised num (set V) k f'" "distinct V" "set V \<subseteq> {r \<in> frefs k. parent_id k r \<in> set layer}"
      "\<forall>r \<in> frefs k. parent_id k r \<in> set layer \<longrightarrow> num \<le> bft_of f' r"
      using Cons.IH [OF kok(1)] by blast
    note R = raised_trans [OF k(2) f'(2)]
    have "num \<le> bft_of f' r" if "r \<in> frefs g" "parent_id g r = i" for r
    proof -
      have "num \<le> bft_of k r" using that rs(1) K(4) [of r] by auto
      then show ?thesis using raised_keys(4) [OF f'(2), of r] by auto
    qed
    then have "\<forall>r \<in> frefs g. parent_id g r \<in> set (i # layer) \<longrightarrow> num \<le> bft_of f' r"
      using f'(5) kok(2) K(2) by auto
    moreover have "raised num (set (filter ?low ?rs @ V)) g f'" using R(1) by (simp add: Un_def)
    moreover have "distinct (filter ?low ?rs @ V)" using rs(2) f'(3) R(2) by auto
    moreover have "set (filter ?low ?rs @ V) \<subseteq> {r \<in> frefs g. parent_id g r \<in> set (i # layer)}"
      using rs(1) f'(4) kok(2) K(2) by auto
    moreover have "map (ident k) V = map (ident g) V" using K(1) by simp
    ultimately show ?case using k(1) f'(1)
      by (intro exI [of _ f'] exI [of _ "filter ?low ?rs @ V"]) simp
  qed
  from this [OF assms, of "[]"] show ?thesis using that unfolding bft_update_def by force
qed

text \<open>The blocks of a set that are reached from a queue of ids through blocks of that set only.\<close>

definition reached :: "ForkDatabase \<Rightarrow> ref set \<Rightarrow> BlockIdType set \<Rightarrow> ref set" where
  "reached f L q = {r \<in> L. parent_id f r \<in> doomed f L q}"

lemma reached_closed:
  assumes "r \<in> L" "parent_id f r \<in> q \<union> ident f ` reached f L q"
  shows "r \<in> reached f L q"
proof -
  have "ident f s \<in> doomed f L q" if "s \<in> reached f L q" for s
    using that by (auto simp: reached_def intro: doomed.doomed_child)
  then show ?thesis using assms by (auto simp: reached_def intro: doomed.doomed_queue)
qed

lemma reached_descend:
  assumes "L \<subseteq> R" "r \<in> reached f L q"
  shows "ident f r \<in> doomed f R q"
proof -
  have "x \<in> doomed f R q" if "x \<in> doomed f L q" for x
    using that by induction (use assms(1) in \<open>auto intro: doomed.intros\<close>)
  then show ?thesis using assms by (auto simp: reached_def intro: doomed.doomed_child)
qed

lemma reached_step:
  assumes "V = {r \<in> L. parent_id f r \<in> q}"
  shows "reached f L q = V \<union> reached f (L - V) (ident f ` V)"
proof
  have "x \<in> doomed f L q" if "x \<in> doomed f (L - V) (ident f ` V)" for x
    using that
  proof induction
    case (doomed_queue i)
    then show ?case unfolding assms by (auto intro: doomed.intros)
  qed (auto intro: doomed.doomed_child)
  then show "V \<union> reached f (L - V) (ident f ` V) \<subseteq> reached f L q"
    unfolding reached_def using assms by (auto intro: doomed.doomed_queue)
  have "x \<in> q \<or> x \<in> doomed f (L - V) (ident f ` V)" if "x \<in> doomed f L q" for x
    using that
  proof induction
    case (doomed_child r)
    show ?case
    proof (cases "r \<in> V")
      case True
      then show ?thesis by (auto intro: doomed.doomed_queue)
    next
      case False
      then show ?thesis using doomed_child assms by (auto intro: doomed.doomed_child)
    qed
  qed simp
  then show "reached f L q \<subseteq> V \<union> reached f (L - V) (ident f ` V)"
    unfolding reached_def using assms by auto
qed

lemma reached_cong:
  assumes "\<And>r. ident g r = ident f r" "\<And>r. parent_id g r = parent_id f r"
  shows "reached g L q = reached f L q"
  using doomed_keys [of f g L q] doomed_keys [of g f L q] by (auto simp: reached_def assms)

text \<open>The loop raises exactly the blocks reached from the queue through blocks that are behind.\<close>

lemma bft_loop_ok:
  assumes "fork_ok f"
  shows "\<exists>f'. bft_loop num f q = Some f' \<and> raised num (reached f {r \<in> frefs f. bft_of f r < num} (set q)) f f'"
  using assms
proof (induction "card {r \<in> frefs f. bft_of f r < num}" arbitrary: f q rule: less_induct)
  case less
  let ?L = "\<lambda>f. {r \<in> frefs f. bft_of f r < num}"
  obtain g V where g: "bft_update num f q = (g, map (ident f) V)" "raised num (set V) f g" "distinct V"
    "set V \<subseteq> {r \<in> frefs f. parent_id f r \<in> set q}"
    "\<And>r. r \<in> frefs f \<Longrightarrow> parent_id f r \<in> set q \<Longrightarrow> num \<le> bft_of g r"
    by (rule bft_update_ok [OF less.prems, of num q]) blast
  note K = raised_keys [OF g(2)]
  have gok: "fork_ok g" "frefs g = frefs f" using g(2) by (auto simp: raised_def)
  have low: "bft_of f r < num" if "r \<in> set V" for r using g(2) that unfolding raised_def by blast
  have V: "set V = {r \<in> ?L f. parent_id f r \<in> set q}"
  proof
    show "set V \<subseteq> {r \<in> ?L f. parent_id f r \<in> set q}" using g(4) low by auto
    show "{r \<in> ?L f. parent_id f r \<in> set q} \<subseteq> set V"
      using g(5) K(4) by (force simp: not_le [symmetric] split: if_splits)
  qed
  have L: "?L g = ?L f - set V" using low by (auto simp: gok(2) K(4) split: if_splits)
  consider "q = []" | "q \<noteq> []" "V = []" | "q \<noteq> []" "V \<noteq> []" by blast
  then show ?case
  proof cases
    case 1
    then have "bft_loop num f q = Some f" by (simp add: bft_loop.simps)
    moreover have "reached f L {} = {}" for L by (auto simp: reached_def elim: doomed.induct)
    ultimately show ?thesis using 1 less.prems by (auto simp: raised_def)
  next
    case 2
    then have "bft_loop num f q = Some g" using g(1) by (simp add: bft_loop.simps [of num f q] bft_loop.simps [of num g "[]"])
    moreover have "reached f L {} = {}" for L by (auto simp: reached_def elim: doomed.induct)
    ultimately show ?thesis using 2 g(2) reached_step [OF V] by simp
  next
    case 3
    have "?L g \<subset> ?L f" using 3(2) V unfolding L by (cases V) auto
    then have "card (?L g) < card (?L f)" by (intro psubset_card_mono) auto
    from less.hyps [OF this gok(1), of "map (ident f) V"] obtain f' where f':
      "bft_loop num g (map (ident f) V) = Some f'" "raised num (reached g (?L g) (ident f ` set V)) g f'" by auto
    have "bft_loop num f q = Some f'" using f'(1) g(1) 3(1) by (simp add: bft_loop.simps [of num f q])
    moreover have "raised num (set V \<union> reached f (?L f - set V) (ident f ` set V)) f f'"
      using raised_trans(1) [OF g(2) f'(2)] reached_cong [of g f] by (simp only: L K(1, 2))
    ultimately show ?thesis using reached_step [OF V] by simp
  qed
qed

definition bft_mono :: "ForkDatabase \<Rightarrow> bool" where
  "bft_mono f \<longleftrightarrow> (\<forall>r \<in> frefs f. \<forall>p \<in> frefs f. parent_id f r = ident f p \<longrightarrow> bft_of f p \<le> bft_of f r)"

lemma doomed_ident: "x \<in> doomed f R q \<Longrightarrow> x \<in> q \<or> (\<exists>r \<in> R. x = ident f r)"
  by (induction rule: doomed.induct) auto

lemma SetBft_ok:
  assumes ok: "fork_ok f" and n: "n \<in> frefs f"
  defines "U \<equiv> reached f {r \<in> frefs f - {n}. bft_of f r < bnum f n} {ident f n}"
  shows "\<exists>f'. SetBftIrreversible f (ident f n) = Inr f' \<and> fork_ok f' \<and> frefs f' = frefs f \<and> Head f' = Head f \<and>
    length (heap f') = length (heap f) \<and>
    (\<forall>r. bstate f' r = (if r = n \<or> r \<in> U then with_bft (bnum f n) (bstate f r) else bstate f r))"
proof -
  let ?num = "bnum f n"
  let ?g = "\<lambda>s. s\<lparr>HeaderState := (HeaderState s)\<lparr>BftIrreversibleBlocknum := BlockNum (HeaderState s)\<rparr>\<rparr>"
  define k where "k = fork_modify f n ?g"
  have len: "n < length (heap f)" using index_ok_inner(3) [OF ok n] .
  have M: "fork_ok k" "frefs k = frefs f" "heap k = (heap f)[n := ?g (bstate f n)]" "Head k = Head f"
    using fork_modify_ok [where g = ?g, OF ok n] by (simp_all add: k_def)
  have st: "bstate k r = (if r = n then with_bft ?num (bstate f r) else bstate f r)" for r
    using len by (simp add: M(3) with_bft_def nth_list_update)
  have keys: "ident k r = ident f r" "parent_id k r = parent_id f r" for r
    by (simp_all add: ByBlockIdFunc_def ByPrevFunc_def st with_bft_def)
  have "{r \<in> frefs k. bft_of k r < ?num} = {r \<in> frefs f - {n}. bft_of f r < ?num}"
    by (auto simp: M(2) st with_bft_def split: if_splits)
  then have "reached k {r \<in> frefs k. bft_of k r < ?num} (set [ident f n]) = U"
    using reached_cong [OF keys] by (simp add: U_def)
  then obtain f' where f': "bft_loop ?num k [ident f n] = Some f'" "raised ?num U k f'"
    using bft_loop_ok [OF M(1), of ?num "[ident f n]"] by metis
  have nU: "n \<notin> U" by (simp add: U_def reached_def)
  have "SetBftIrreversible f (ident f n) = Inr f'"
    using f'(1) inner_unique(2) [OF ok, of "ident f n" n] n by (simp add: SetBftIrreversible_def Let_def flip: k_def)
  moreover have "fork_ok f'" "frefs f' = frefs f" "Head f' = Head f" "length (heap f') = length (heap f)"
    using f'(2) M by (auto simp: raised_def)
  moreover have "\<forall>r. bstate f' r = (if r = n \<or> r \<in> U then with_bft ?num (bstate f r) else bstate f r)"
    using f'(2) nU by (auto simp: raised_def st)
  ultimately show ?thesis by blast
qed

end
