(* ===== verification/Eos_ForkRuns.thy ===== *)
theory Eos_ForkRuns
  imports Eos_ForkDb
begin

text \<open>
  Runs of the fork database and its properties. A run is a sequence of allocations of block
  states and of the operations of \<open>src/chain/fork_database.go\<close>; rule induction over
  \<open>fork_step\<close> gives the index invariant of every reachable database. The branches of
  \<open>FetchBranchFrom\<close> are shown to exist in every database whose orphans share a parent.
\<close>

section \<open>Runs\<close>

text \<open>
  One operation on the database. An operation that throws leaves no database, apart from
  \<open>SetHead\<close>, which has inserted the state by then.
\<close>

inductive fork_step :: "Crypto \<Rightarrow> ForkDatabase \<Rightarrow> ForkDatabase \<Rightarrow> bool" for C where
  step_alloc: "alloc f s = (f', r) \<Longrightarrow> fork_step C f f'"
| step_SetHead: "s < length (heap f) \<Longrightarrow> fork_step C f (fst (SetHead C f s))"
| step_AddBlockState: "s < length (heap f) \<Longrightarrow> AddBlockState f s = Inr f' \<Longrightarrow> fork_step C f f'"
| step_AddSignedBlock: "AddSignedBlock C f b trust = Inr (f', r) \<Longrightarrow> fork_step C f f'"
| step_AddConfirmation: "ForkDb_AddConfirmation C f c = Inr f' \<Longrightarrow> fork_step C f f'"
| step_Remove: "Remove f i = Inr f' \<Longrightarrow> fork_step C f f'"
| step_SetValidity: "SetValidity f s valid = Inr f' \<Longrightarrow> fork_step C f f'"
| step_MarkInCurrentChain: "MarkInCurrentChain f s b = Inr f' \<Longrightarrow> fork_step C f f'"
| step_Prune: "Prune f s = Inr f' \<Longrightarrow> fork_step C f f'"
| step_SetBftIrreversible: "SetBftIrreversible f i = Inr f' \<Longrightarrow> fork_step C f f'"

inductive fork_reachable :: "Crypto \<Rightarrow> ForkDatabase \<Rightarrow> bool" for C where
  reach_new: "fork_reachable C NewForkDatabase"
| reach_step: "fork_reachable C f \<Longrightarrow> fork_step C f f' \<Longrightarrow> fork_reachable C f'"

lemma alloc_ok:
  assumes "fork_ok f" "alloc f s = (f', r)"
  shows "fork_ok f'" "heap f' = heap f @ [s]" "frefs f' = frefs f" "r = length (heap f)" "Head f' = Head f"
proof -
  show *: "heap f' = heap f @ [s]" "frefs f' = frefs f" "r = length (heap f)" "Head f' = Head f"
    using assms(2) by (auto simp: alloc_def)
  have "Index f' = Index f" using assms(2) by (auto simp: alloc_def)
  moreover have "index_ok (heap f @ [s]) (Index f)"
    by (rule index_ok_cong [OF assms(1)])
       (use index_ok_inner(3) [OF assms(1)] in \<open>simp_all add: same_keys_def ByBlockIdFunc_def ByPrevFunc_def
         ByBlockNumFunc_def ByLibBlockNumFunc_def nth_append\<close>)
  ultimately show "fork_ok f'" using * by simp
qed

lemma SetHead_ok:
  assumes "fork_ok f" "s < length (heap f)"
  shows "fork_ok (fst (SetHead C f s))"
proof -
  obtain m b where m: "MultiIndex_Insert (heap f) (Index f) s = (m, b)" "index_ok (heap f) m"
    by (rule MultiIndex_Insert_ok [OF assms]) blast
  then show ?thesis by (simp add: SetHead_def Let_def split: option.split)
qed

lemma AddBlockState_keeps:
  assumes "fork_ok f" "b < length (heap f)" "AddBlockState f b = Inr f'"
  shows "fork_ok f'"
  using AddBlockState_ok [OF assms(1, 2)] assms(3) by (auto split: if_splits)

lemma AddSignedBlock_keeps:
  assumes "fork_ok f" "AddSignedBlock C f b trust = Inr (f', r)"
  shows "fork_ok f'"
proof -
  obtain s g where g: "alloc f s = (g, r)" "AddBlockState g r = Inr f'"
    using assms(2) by (auto simp: AddSignedBlock_def alloc_def result_iffs split: option.splits)
  note A = alloc_ok [OF assms(1) g(1)]
  show ?thesis by (rule AddBlockState_keeps [OF A(1) _ g(2)]) (simp add: A)
qed

text \<open>Writing an object without touching a key.\<close>

lemma same_refs_ok:
  assumes "fork_ok f" "HeaderState s = (hstate f r)\<lparr>Confirmations := cs\<rparr>" "InCurrentChain s = InCurrentChain (bstate f r)"
  shows "index_ok ((heap f)[r := s]) (Index f)"
proof (cases "r < length (heap f)")
  case True
  then have "same_keys (heap f) ((heap f)[r := s]) q" for q
    using assms(2, 3) by (simp add: same_keys_def ByBlockIdFunc_def ByPrevFunc_def ByBlockNumFunc_def
       ByLibBlockNumFunc_def nth_list_update)
  then show ?thesis using index_ok_cong [OF assms(1)] by simp
qed (simp add: assms(1) list_update_beyond)

lemma Remove_keeps: "fork_ok f \<Longrightarrow> Remove f i = Inr f' \<Longrightarrow> fork_ok f'"
  using fork_Remove_ok [of f i] by auto

lemma Prune_keeps: "fork_ok f \<Longrightarrow> Prune f r = Inr f' \<Longrightarrow> fork_ok f'"
  using Prune_ok [of f r] by (auto simp: shrinks_def)

lemma SetValidity_keeps:
  assumes "fork_ok f" "SetValidity f r valid = Inr f'"
  shows "fork_ok f'"
proof (cases valid)
  case True
  then show ?thesis using assms(2) same_refs_ok [OF assms(1), where s = "(bstate f r)\<lparr>Validated := True\<rparr>" and r = r and cs = "Confirmations (hstate f r)"]
    by (auto simp: SetValidity_def)
qed (use assms Remove_keeps in \<open>auto simp: SetValidity_def\<close>)

lemma MarkInCurrentChain_keeps:
  assumes "fork_ok f" "MarkInCurrentChain f r b = Inr f'"
  shows "fork_ok f'"
proof (cases "InCurrentChain (bstate f r) = b")
  case False
  then obtain n where n: "ByBlockId_Find (Index f) (ident f r) = Some n"
    "f' = fork_modify f n (\<lambda>s. s\<lparr>InCurrentChain := b\<rparr>)"
    using assms(2) by (auto simp: MarkInCurrentChain_def ByBlockIdFunc_def split: option.splits)
  then have "n \<in> frefs f" using inner_unique(2) [OF assms(1)] by blast
  then show ?thesis using fork_modify_ok(1) [OF assms(1)] n(2) by simp
qed (use assms in \<open>simp add: MarkInCurrentChain_def\<close>)

lemma SetBft_keeps:
  assumes "fork_ok f" "SetBftIrreversible f i = Inr f'"
  shows "fork_ok f'"
proof -
  obtain n where "ByBlockId_Find (Index f) i = Some n"
    using assms(2) by (auto simp: SetBftIrreversible_def split: option.splits)
  then have "n \<in> frefs f" "ident f n = i" using inner_unique(2) [OF assms(1)] by blast+
  then show ?thesis using SetBft_ok [OF assms(1), of n] assms(2) by auto
qed

lemma AddConfirmation_fields:
  assumes "AddConfirmation C b c = Inr b'"
  shows "b' = b\<lparr>Confirmations := Confirmations b @ [c]\<rparr>"
  using assms by (auto simp: AddConfirmation_def result_iffs split: option.splits)

lemma ForkDb_AddConfirmation_keeps:
  assumes "fork_ok f" "ForkDb_AddConfirmation C f c = Inr f'"
  shows "fork_ok f'"
proof -
  obtain r hs where r: "GetBlock f (ConfBlockId c) = Some r" "AddConfirmation C (hstate f r) c = Inr hs"
    using assms(2) by (auto simp: ForkDb_AddConfirmation_def result_iffs split: option.splits)
  let ?g = "f\<lparr>heap := (heap f)[r := (bstate f r)\<lparr>HeaderState := hs\<rparr>]\<rparr>"
  have "fork_ok ?g" using same_refs_ok [OF assms(1)] AddConfirmation_fields [OF r(2)] by simp
  moreover have "f' = ?g \<or> SetBftIrreversible ?g (ConfBlockId c) = Inr f'"
    using assms(2) r by (auto simp: ForkDb_AddConfirmation_def Let_def split: if_splits)
  ultimately show ?thesis using SetBft_keeps by blast
qed

lemma step_keeps: "fork_step C f f' \<Longrightarrow> fork_ok f \<Longrightarrow> fork_ok f'"
proof (induction rule: fork_step.induct)
  case (step_alloc f s f' r)
  then show ?case using alloc_ok(1) by blast
next
  case (step_SetHead s f)
  then show ?case using SetHead_ok by blast
next
  case (step_AddBlockState s f f')
  then show ?case using AddBlockState_keeps by blast
next
  case (step_AddSignedBlock f b trust f' r)
  then show ?case using AddSignedBlock_keeps by blast
next
  case (step_AddConfirmation f c f')
  then show ?case using ForkDb_AddConfirmation_keeps by blast
qed (auto intro: Remove_keeps SetValidity_keeps MarkInCurrentChain_keeps Prune_keeps SetBft_keeps)

lemma reachable_ok: "fork_reachable C f \<Longrightarrow> fork_ok f"
proof (induction rule: fork_reachable.induct)
  case reach_new
  show ?case using NewMultiIndex_ok by (simp add: NewForkDatabase_def)
qed (use step_keeps in blast)

section \<open>Branches\<close>

text \<open>A path from \<open>b\<close> down to \<open>x\<close> along the previous ids, ends included.\<close>

definition path :: "ForkDatabase \<Rightarrow> ref \<Rightarrow> ref list \<Rightarrow> ref \<Rightarrow> bool" where
  "path f b rs x \<longleftrightarrow> rs \<noteq> [] \<and> hd rs = b \<and> last rs = x \<and> set rs \<subseteq> frefs f \<and>
     successively (\<lambda>r s. parent_id f r = ident f s) rs"

lemma path_refl: "r \<in> frefs f \<Longrightarrow> path f r [r] r"
  by (simp add: path_def)

lemma path_Cons: "path f p rs x \<Longrightarrow> b \<in> frefs f \<Longrightarrow> parent_id f b = ident f p \<Longrightarrow> path f b (b # rs) x"
  by (auto simp: path_def successively_Cons)

lemma path_glue: "path f b (xs @ [c]) c \<Longrightarrow> path f c ys x \<Longrightarrow> path f b (xs @ ys) x"
  by (cases xs rule: rev_cases; cases ys) (auto simp: path_def successively_append_iff hd_append)

text \<open>Heights grow by one along a link, and all blocks without a parent in the index are siblings.\<close>

definition numbered :: "ForkDatabase \<Rightarrow> bool" where
  "numbered f \<longleftrightarrow> (\<forall>r \<in> frefs f. \<forall>p \<in> frefs f. parent_id f r = ident f p \<longrightarrow> unat (bnum f r) = Suc (unat (bnum f p)))"

definition rooted :: "ForkDatabase \<Rightarrow> bool" where
  "rooted f \<longleftrightarrow> (\<exists>i n. \<forall>r \<in> frefs f. parent_id f r \<in> ident f ` frefs f \<or> parent_id f r = i \<and> bnum f r = n)"

lemma GetBlock_iff:
  assumes "fork_ok f"
  shows "GetBlock f i = Some r \<longleftrightarrow> r \<in> frefs f \<and> ident f r = i" "GetBlock f i = None \<longleftrightarrow> i \<notin> ident f ` frefs f"
  using inner_unique(2, 3) [OF assms] by (auto simp: GetBlock_def)

lemma orphan_lowest:
  assumes "numbered f" "\<And>r. r \<in> frefs f \<Longrightarrow> parent_id f r \<in> ident f ` frefs f \<or> parent_id f r = i \<and> bnum f r = n"
    and "r \<in> frefs f"
  shows "bnum f r = n \<longleftrightarrow> parent_id f r \<notin> ident f ` frefs f" "n \<le> bnum f r"
proof -
  have "n \<le> bnum f r \<and> (bnum f r = n \<longleftrightarrow> parent_id f r \<notin> ident f ` frefs f)"
    using assms(3)
  proof (induction "unat (bnum f r)" arbitrary: r rule: less_induct)
    case less
    show ?case
    proof (cases "parent_id f r \<in> ident f ` frefs f")
      case True
      then obtain p where p: "p \<in> frefs f" "parent_id f r = ident f p" by blast
      then have "unat (bnum f r) = Suc (unat (bnum f p))" using assms(1) less.prems by (auto simp: numbered_def)
      moreover from this have "n \<le> bnum f p" using less.hyps [OF _ p(1)] by simp
      ultimately have "n < bnum f r" by (simp add: word_less_nat_alt word_le_nat_alt)
      with True show ?thesis by auto
    next
      case False
      then show ?thesis using assms(2) [OF less.prems] by auto
    qed
  qed
  then show "bnum f r = n \<longleftrightarrow> parent_id f r \<notin> ident f ` frefs f" "n \<le> bnum f r" by auto
qed

text \<open>Both walks follow the links until the heights agree, then until the previous ids do.\<close>

lemma FetchBranch_down_ok:
  assumes ok: "fork_ok f" and num: "numbered f"
    and root: "\<And>r. r \<in> frefs f \<Longrightarrow> parent_id f r \<in> ident f ` frefs f \<or> parent_id f r = i \<and> bnum f r = n"
    and "b \<in> frefs f" "n \<le> h"
  shows "\<exists>xs c. FetchBranch_down f h b br = Some (Inr (br @ xs, c)) \<and> path f b (xs @ [c]) c \<and> c \<in> frefs f \<and>
    bnum f c = min (bnum f b) h"
  using assms(4)
proof (induction "unat (bnum f b)" arbitrary: b br rule: less_induct)
  case less
  show ?case
  proof (cases "h < bnum f b")
    case True
    then have "bnum f b \<noteq> n" using assms(5) by auto
    then have "parent_id f b \<in> ident f ` frefs f" using orphan_lowest(1) [OF num root less.prems] by auto
    then obtain p where p: "p \<in> frefs f" "parent_id f b = ident f p" by blast
    then have s: "unat (bnum f b) = Suc (unat (bnum f p))" using num less.prems by (auto simp: numbered_def)
    then obtain xs c where c: "FetchBranch_down f h p (br @ [b]) = Some (Inr ((br @ [b]) @ xs, c))"
      "path f p (xs @ [c]) c" "c \<in> frefs f" "bnum f c = min (bnum f p) h"
      using less.hyps [OF _ p(1), of "br @ [b]"] by auto
    have "GetBlock f (parent_id f b) = Some p" using GetBlock_iff(1) [OF ok] p by simp
    then have "FetchBranch_down f h b br = Some (Inr (br @ (b # xs), c))"
      using True c(1) by (simp add: FetchBranch_down.simps [of f h b br] ByPrevFunc_def)
    moreover have "path f b ((b # xs) @ [c]) c" using path_Cons [OF c(2) less.prems p(2)] by simp
    moreover have "h \<le> bnum f p" using True s by (simp add: word_less_nat_alt word_le_nat_alt)
    then have "bnum f c = min (bnum f b) h" using c(4) True by (auto simp: min_def)
    ultimately show ?thesis using c(3) by blast
  next
    case False
    then have "FetchBranch_down f h b br = Some (Inr (br @ [], b))" by (simp add: FetchBranch_down.simps)
    then show ?thesis using False less.prems path_refl [of b f]
      by (intro exI [of _ "[]"] exI [of _ b]) (simp add: min_def not_less)
  qed
qed

lemma FetchBranch_meet_ok:
  assumes ok: "fork_ok f" and num: "numbered f"
    and root: "\<And>r. r \<in> frefs f \<Longrightarrow> parent_id f r \<in> ident f ` frefs f \<or> parent_id f r = i \<and> bnum f r = n"
    and "b \<in> frefs f" "c \<in> frefs f" "bnum f b = bnum f c"
  shows "\<exists>xs ys x y. FetchBranch_meet f b c br cr = Some (Inr (br @ xs, cr @ ys)) \<and> path f b xs x \<and> path f c ys y \<and>
    parent_id f x = parent_id f y \<and> length xs = length ys"
  using assms(4-6)
proof (induction "unat (bnum f b)" arbitrary: b c br cr rule: less_induct)
  case less
  show ?case
  proof (cases "parent_id f b = parent_id f c")
    case True
    then have "FetchBranch_meet f b c br cr = Some (Inr (br @ [b], cr @ [c]))"
      by (simp add: FetchBranch_meet.simps ByPrevFunc_def)
    with True less.prems show ?thesis
      by (intro exI [of _ "[b]"] exI [of _ "[c]"] exI [of _ b] exI [of _ c]) (simp add: path_refl)
  next
    case False
    have "parent_id f b \<in> ident f ` frefs f \<and> parent_id f c \<in> ident f ` frefs f"
      using orphan_lowest(1) [OF num root less.prems(1)] orphan_lowest(1) [OF num root less.prems(2)] False
        root [OF less.prems(1)] root [OF less.prems(2)] less.prems(3) by auto
    then obtain p q where p: "p \<in> frefs f" "parent_id f b = ident f p" and q: "q \<in> frefs f" "parent_id f c = ident f q"
      by blast
    have s: "unat (bnum f b) = Suc (unat (bnum f p))" "unat (bnum f c) = Suc (unat (bnum f q))"
      using num less.prems(1, 2) p q unfolding numbered_def by blast+
    then have "unat (bnum f p) = unat (bnum f q)" using less.prems(3) by simp
    then have eq: "bnum f p = bnum f q" by (simp only: word_unat_eq_iff)
    obtain xs ys x y where m: "FetchBranch_meet f p q (br @ [b]) (cr @ [c]) = Some (Inr ((br @ [b]) @ xs, (cr @ [c]) @ ys))"
      "path f p xs x" "path f q ys y" "parent_id f x = parent_id f y" "length xs = length ys"
      using less.hyps [OF _ p(1) q(1) eq, of "br @ [b]" "cr @ [c]"] s(1) by auto
    have "GetBlock f (parent_id f b) = Some p" "GetBlock f (parent_id f c) = Some q"
      using GetBlock_iff(1) [OF ok] p q by simp_all
    then have "FetchBranch_meet f b c br cr = Some (Inr (br @ (b # xs), cr @ (c # ys)))"
      using False m(1) by (simp add: FetchBranch_meet.simps [of f b c] ByPrevFunc_def)
    moreover have "path f b (b # xs) x" "path f c (c # ys) y"
      using path_Cons [OF m(2) less.prems(1) p(2)] path_Cons [OF m(3) less.prems(2) q(2)] by simp_all
    ultimately show ?thesis using m(4, 5) by (metis length_Cons)
  qed
qed

lemma FetchBranchFrom_ok:
  assumes ok: "fork_ok f" and num: "numbered f" and "rooted f" and b: "b \<in> frefs f" and c: "c \<in> frefs f"
  shows "\<exists>xs ys x y. FetchBranchFrom f (ident f b) (ident f c) = Inr (xs, ys) \<and> path f b xs x \<and> path f c ys y \<and>
    parent_id f x = parent_id f y"
proof -
  obtain i n where root: "\<And>r. r \<in> frefs f \<Longrightarrow> parent_id f r \<in> ident f ` frefs f \<or> parent_id f r = i \<and> bnum f r = n"
    using \<open>rooted f\<close> unfolding rooted_def by blast
  have g: "GetBlock f (ident f b) = Some b" "GetBlock f (ident f c) = Some c" using GetBlock_iff(1) [OF ok] b c by simp_all
  obtain xs1 b' where d1: "FetchBranch_down f (bnum f c) b [] = Some (Inr (xs1, b'))"
    "path f b (xs1 @ [b']) b'" "b' \<in> frefs f" "bnum f b' = min (bnum f b) (bnum f c)"
    using FetchBranch_down_ok [OF ok num root b orphan_lowest(2) [OF num root c], of "[]"] by auto
  obtain ys1 c' where d2: "FetchBranch_down f (bnum f b') c [] = Some (Inr (ys1, c'))"
    "path f c (ys1 @ [c']) c'" "c' \<in> frefs f" "bnum f c' = min (bnum f c) (bnum f b')"
    using FetchBranch_down_ok [OF ok num root c orphan_lowest(2) [OF num root d1(3)], of "[]"] by auto
  have eq: "bnum f b' = bnum f c'" using d1(4) d2(4) by (simp add: min_def)
  obtain xs2 ys2 x y where m: "FetchBranch_meet f b' c' xs1 ys1 = Some (Inr (xs1 @ xs2, ys1 @ ys2))"
    "path f b' xs2 x" "path f c' ys2 y" "parent_id f x = parent_id f y"
    using FetchBranch_meet_ok [OF ok num root d1(3) d2(3) eq] by blast
  have "FetchBranchFrom f (ident f b) (ident f c) = Inr (xs1 @ xs2, ys1 @ ys2)"
    using g d1(1) d2(1) m(1) by (simp add: FetchBranchFrom_def)
  then show ?thesis using path_glue [OF d1(2) m(2)] path_glue [OF d2(2) m(3)] m(4) by blast
qed

section \<open>Confirmations and single steps\<close>






text \<open>Pruning a block that is alone at the lowest height, and adding one that settles no other.\<close>

lemma Prune_single:
  assumes "fork_ok f" "r \<in> frefs f" "\<forall>s \<in> frefs f. s \<noteq> r \<longrightarrow> bnum f r < bnum f s"
  shows "\<exists>f'. Prune f r = Inr f' \<and> frefs f' = frefs f - {r} \<and> Irreversible f' = Irreversible f @ [r]"
proof -
  define g where "g = f\<lparr>Irreversible := Irreversible f @ [r], Index := MultiIndex_Erase (Index f) r\<rparr>"
  note D = index_okD [OF assms(1)]
  have find: "ByBlockId_Find (Index f) (ident f r) = Some r" using inner_unique(2) [OF assms(1)] assms(2) by blast
  have g: "Index g = Index (erase_id f (ident f r))" "heap g = heap f"
    using find by (simp_all add: g_def erase_id_def)
  have E: "frefs g = frefs f - {r}" "fork_ok g"
  proof -
    note e = erase_id_ok [OF assms(1), of "ident f r"]
    show "frefs g = frefs f - {r}" using e(2) g refs_inject [OF assms(1) _ assms(2)] by auto
    show "fork_ok g" using e(1, 4) g by simp
  qed
  have "Prune_siblings g (bnum f r) (ByBlockNum_LowerBound g (bnum f r)) = Some (Inr g)"
  proof (cases "filter (\<lambda>q. bnum f r \<le> bnum g q) (byBlockNum (Index g))")
    case Nil
    then show ?thesis by (simp add: ByBlockNum_LowerBound_def lower_num [OF E(2)] Prune_siblings.simps)
  next
    case (Cons q qs)
    then have "q \<in> set (filter (\<lambda>q. bnum f r \<le> bnum g q) (byBlockNum (Index g)))" by simp
    then have q: "q \<in> set (byBlockNum (Index g))" "q \<in> frefs g" using index_okD(2) [OF E(2)] by simp_all
    then have "bnum g q \<noteq> bnum f r" using assms(3) E(1) g(2) by force
    with q(1) Cons show ?thesis by (simp add: ByBlockNum_LowerBound_def lower_num [OF E(2)] Prune_siblings.simps)
  qed
  then have "Prune_height f r = Inr g"
    using find unfolding Prune_height_def Let_def by (simp add: ByBlockIdFunc_def flip: g_def)
  moreover obtain q qs where q: "byBlockNum (Index f) = q # qs" using D(2) assms(2) by (cases "byBlockNum (Index f)") auto
  then have "q \<in> frefs f" using D(2) by auto
  then have "\<not> bnum f q < bnum f r" using assms(3) by (cases "q = r") (auto dest: less_asym)
  ultimately have "Prune f r = Inr g" using q by (simp add: Prune_def Prune_rec.simps [of f r])
  then show ?thesis using E(1) by (auto simp: g_def)
qed

lemma AddBlockState_quiet:
  assumes "fork_ok f" "b < length (heap f)" "ident f b \<notin> ident f ` frefs f"
    and "\<forall>r \<in> insert b (frefs f). \<forall>s \<in> insert b (frefs f). DposIrreversibleBlocknum (hstate f r) \<le> bnum f s"
  shows "\<exists>f' r. AddBlockState f b = Inr f' \<and> frefs f' = insert b (frefs f) \<and> heap f' = heap f \<and> Head f' = Some r \<and>
    r \<in> frefs f' \<and> best_of (heap f') (frefs f') r"
proof -
  obtain m ins where m: "MultiIndex_Insert (heap f) (Index f) b = (m, ins)" "index_ok (heap f) m"
    "ins \<longleftrightarrow> (\<forall>r \<in> frefs f. ident f r \<noteq> ident f b)" "refs m = (if ins then insert b (frefs f) else frefs f)"
    by (rule MultiIndex_Insert_ok [OF assms(1, 2)])
  have "ident f r \<noteq> ident f b" if "r \<in> frefs f" for r using assms(3) that by (metis imageI)
  then have ins: "ins" "refs m = insert b (frefs f)" using m(3, 4) by simp_all
  obtain r rs where r: "byLibBlockNum m = r # rs" using index_okD(3) [OF m(2)] ins by (cases "byLibBlockNum m") auto
  obtain q qs where q: "byBlockNum m = q # qs" using index_okD(2) [OF m(2)] ins by (cases "byBlockNum m") auto
  have "r \<in> refs m" "q \<in> refs m" using index_okD(2, 3) [OF m(2)] r q by auto
  then have "\<not> bnum f q < DposIrreversibleBlocknum (hstate f r)" using assms(4) ins(2) by (metis not_less)
  then have "AddBlockState f b = Inr (f\<lparr>Index := m, Head := Some r\<rparr>)"
    using m(1) ins(1) r q by (simp add: AddBlockState_def Begin_Value_def)
  then show ?thesis using ins(2) best_of_first [OF m(2) r] by auto
qed

section \<open>A small database\<close>

text \<open>
  Two competing blocks of height 1, with one child each; the child of the losing block came
  first. The fifth state extends the other child and settles height 2.
\<close>

definition toyId :: "u64 \<Rightarrow> BlockIdType" where
  "toyId i = \<lparr>Hash0 = i, Hash1 = 0, Hash2 = 0, Hash3 = 0\<rparr>"

definition toyBlock :: "u64 \<Rightarrow> u64 \<Rightarrow> u32 \<Rightarrow> u32 \<Rightarrow> BlockState" where
  "toyBlock i p n lib = NewBlockState (toyGenesis\<lparr>BlockId := toyId i, BlockNum := n,
     Header := NewSignedBlockHeader\<lparr>Previous := toyId p\<rparr>, DposIrreversibleBlocknum := lib, BftIrreversibleBlocknum := 0\<rparr>)"

definition toyHeap :: bs_heap where
  "toyHeap = [toyBlock 1 0 1 0, toyBlock 2 0 1 0, toyBlock 3 2 2 0, toyBlock 4 1 2 0, toyBlock 5 4 3 2]"

definition toyFork :: ForkDatabase where
  "toyFork = \<lparr>heap = toyHeap,
     Index = \<lparr>inner = [(toyId 4, 3), (toyId 3, 2), (toyId 2, 1), (toyId 1, 0)],
       byPrev = [0, 1, 3, 2], byBlockNum = [0, 1, 2, 3], byLibBlockNum = [2, 3, 0, 1], index_count = 4\<rparr>,
     Head = Some 2, Irreversible = []\<rparr>"

lemma toy_keys:
  "ByBlockIdFunc toyHeap 0 = toyId 1" "ByBlockIdFunc toyHeap (Suc 0) = toyId 2" "ByBlockIdFunc toyHeap 2 = toyId 3"
  "ByBlockIdFunc toyHeap 3 = toyId 4" "ByBlockIdFunc toyHeap 4 = toyId 5"
  "ByPrevFunc toyHeap 0 = toyId 0" "ByPrevFunc toyHeap (Suc 0) = toyId 0" "ByPrevFunc toyHeap 2 = toyId 2"
  "ByPrevFunc toyHeap 3 = toyId 1" "ByPrevFunc toyHeap 4 = toyId 4"
  "ByBlockNumFunc toyHeap 0 = (Some 1, Some False)" "ByBlockNumFunc toyHeap (Suc 0) = (Some 1, Some False)"
  "ByBlockNumFunc toyHeap 2 = (Some 2, Some False)" "ByBlockNumFunc toyHeap 3 = (Some 2, Some False)"
  "ByBlockNumFunc toyHeap 4 = (Some 3, Some False)"
  "ByLibBlockNumFunc toyHeap 0 = (Some 0, Some 0, Some 1)" "ByLibBlockNumFunc toyHeap (Suc 0) = (Some 0, Some 0, Some 1)"
  "ByLibBlockNumFunc toyHeap 2 = (Some 0, Some 0, Some 2)" "ByLibBlockNumFunc toyHeap 3 = (Some 0, Some 0, Some 2)"
  "ByLibBlockNumFunc toyHeap 4 = (Some 2, Some 0, Some 3)"
  by (simp_all add: ByBlockIdFunc_def ByPrevFunc_def ByBlockNumFunc_def ByLibBlockNumFunc_def toyHeap_def toyBlock_def
      NewBlockState_def)

lemma toy_ids: "toyId i = toyId j \<longleftrightarrow> i = j" "Sha256Compare (toyId i) (toyId j) = (if i < j then -1 else if j < i then 1 else 0)"
  by (auto simp: toyId_def Sha256Compare_def Hash_def dest: less_asym)

lemmas toy_simps = toy_keys toy_ids index_put_def index_LowerBound_def ByBlockNumCompare_def ByLibBlockNumCompare_def
  by_field_def

lemma toy_nums:
  "BlockNum (HeaderState (toyHeap ! 0)) = 1" "BlockNum (HeaderState (toyHeap ! Suc 0)) = 1" "BlockNum (HeaderState (toyHeap ! 2)) = 2"
  "BlockNum (HeaderState (toyHeap ! 3)) = 2" "BlockNum (HeaderState (toyHeap ! 4)) = 3"
  "BlockId (HeaderState (toyHeap ! 0)) = toyId 1" "BlockId (HeaderState (toyHeap ! Suc 0)) = toyId 2" "BlockId (HeaderState (toyHeap ! 2)) = toyId 3"
  "BlockId (HeaderState (toyHeap ! 3)) = toyId 4" "BlockId (HeaderState (toyHeap ! 4)) = toyId 5"
  "DposIrreversibleBlocknum (HeaderState (toyHeap ! 0)) = 0" "DposIrreversibleBlocknum (HeaderState (toyHeap ! Suc 0)) = 0"
  "DposIrreversibleBlocknum (HeaderState (toyHeap ! 2)) = 0" "DposIrreversibleBlocknum (HeaderState (toyHeap ! 3)) = 0"
  "DposIrreversibleBlocknum (HeaderState (toyHeap ! 4)) = 2"
  by (simp_all add: toyHeap_def toyBlock_def NewBlockState_def)

lemma reach_heap: "fork_reachable C (NewForkDatabase\<lparr>heap := h\<rparr>)"
proof (induction h rule: rev_induct)
  case Nil
  show ?case using reach_new by (simp add: NewForkDatabase_def)
next
  case (snoc s h)
  from reach_step [OF this step_alloc] show ?case by (simp add: alloc_def NewForkDatabase_def)
qed

lemma reach_add:
  "fork_reachable C f \<Longrightarrow> AddBlockState f b = Inr f' \<Longrightarrow> b < length (heap f) \<Longrightarrow> fork_reachable C f'"
  by (rule reach_step [OF _ step_AddBlockState])

abbreviation toyFork0 :: ForkDatabase where
  "toyFork0 \<equiv> NewForkDatabase\<lparr>heap := toyHeap\<rparr>"

abbreviation toyFork1 :: ForkDatabase where
  "toyFork1 \<equiv> toyFork0\<lparr>Index := \<lparr>inner = [(toyId 1, 0)], byPrev = [0], byBlockNum = [0], byLibBlockNum = [0],
     index_count = 1\<rparr>, Head := Some 0\<rparr>"

definition toyChain :: ForkDatabase where
  "toyChain = toyFork0\<lparr>Index := \<lparr>inner = [(toyId 4, 3), (toyId 1, 0)], byPrev = [0, 3], byBlockNum = [0, 3],
     byLibBlockNum = [3, 0], index_count = 2\<rparr>, Head := Some 3\<rparr>"

lemmas toy_add = AddBlockState_def MultiIndex_Insert_def ByBlockId_Find_def Begin_Value_def NewForkDatabase_def
  NewMultiIndex_def toy_simps toy_nums Let_def

lemma toy_length: "length toyHeap = 5" "toyHeap \<noteq> []"
  by (simp_all add: toyHeap_def)

lemma toyFork1_reachable: "fork_reachable toyCrypto toyFork1"
  by (rule reach_add [OF reach_heap, of toyHeap 0]) (simp_all add: toy_add toy_length del: One_nat_def)

lemma toyChain_reachable: "fork_reachable toyCrypto toyChain"
  by (rule reach_add [OF toyFork1_reachable, of 3]) (simp_all add: toy_add toyChain_def toy_length)

lemma toy_reachable: "fork_reachable toyCrypto toyFork"
proof -
  let ?f2 = "toyFork0\<lparr>Index := \<lparr>inner = [(toyId 2, 1), (toyId 1, 0)], byPrev = [0, 1], byBlockNum = [0, 1],
    byLibBlockNum = [0, 1], index_count = 2\<rparr>, Head := Some 0\<rparr>"
  let ?f3 = "toyFork0\<lparr>Index := \<lparr>inner = [(toyId 3, 2), (toyId 2, 1), (toyId 1, 0)], byPrev = [0, 1, 2],
    byBlockNum = [0, 1, 2], byLibBlockNum = [2, 0, 1], index_count = 3\<rparr>, Head := Some 2\<rparr>"
  have "fork_reachable toyCrypto ?f2"
    by (rule reach_add [OF toyFork1_reachable, of 1]) (simp_all add: toy_add toy_length)
  then have "fork_reachable toyCrypto ?f3"
    by (rule reach_add [of _ _ 2]) (simp_all add: toy_add toy_length)
  then show ?thesis
    by (rule reach_add [of _ _ 3]) (simp_all add: toy_add toy_length toyFork_def)
qed

lemma toy_crash: "AddBlockState toyFork 4 = Inl GoPanic"
  by (simp add: AddBlockState_def MultiIndex_Insert_def ByBlockId_Find_def Begin_Value_def toyFork_def
      toy_simps toy_nums Let_def Prune_def Prune_rec.simps Prune_height_def MultiIndex_Erase_def
      ByBlockNum_LowerBound_def Prune_siblings.simps Remove_def Remove_loop.simps erase_id_def children_of_def)

lemma toy_facts: "fork_ok toyFork" "frefs toyFork = {0, 1, 2, 3}" "length (heap toyFork) = 5"
  "ident toyFork 0 = toyId 1" "ident toyFork 1 = toyId 2" "ident toyFork 2 = toyId 3" "ident toyFork 3 = toyId 4"
  "parent_id toyFork 0 = toyId 0" "parent_id toyFork 1 = toyId 0" "parent_id toyFork 2 = toyId 2" "parent_id toyFork 3 = toyId 1"
  "bnum toyFork 0 = 1" "bnum toyFork 1 = 1" "bnum toyFork 2 = 2" "bnum toyFork 3 = 2"
proof -
  show "fork_ok toyFork" by (rule reachable_ok [OF toy_reachable])
  show "length (heap toyFork) = 5" by (simp add: toyFork_def toyHeap_def)
qed (auto simp: toyFork_def refs_def toy_keys toy_nums)

lemma down_outcome:
  assumes "FetchBranch_down f num b br = Some y"
  shows "y = Inl e \<longrightarrow> e = GoPanic"
  using assms
proof (rule FetchBranch_down.raw_induct [where P = "\<lambda>f num b br y. y = Inl e \<longrightarrow> e = GoPanic", rotated])
  fix F and f num b br y
  assume IH: "\<And>f num b br y. F f num b br = Some y \<Longrightarrow> y = Inl e \<longrightarrow> e = GoPanic"
    and eq: "(if BlockNum (hstate f b) > num
      then case GetBlock f (Previous (Header (hstate f b))) of
          None \<Rightarrow> Some (Inl GoPanic)
        | Some p \<Rightarrow> F f num p (br @ [b])
      else Some (Inr (br, b))) = Some y"
  from eq show "y = Inl e \<longrightarrow> e = GoPanic" using IH by (auto split: if_splits option.splits)
qed

lemma meet_outcome:
  assumes "FetchBranch_meet f b c br cr = Some y"
  shows "y = Inl e \<longrightarrow> e = GoPanic"
  using assms
proof (rule FetchBranch_meet.raw_induct [where P = "\<lambda>f b c br cr y. y = Inl e \<longrightarrow> e = GoPanic", rotated])
  fix F and f b c br cr y
  assume IH: "\<And>f b c br cr y. F f b c br cr = Some y \<Longrightarrow> y = Inl e \<longrightarrow> e = GoPanic"
    and eq: "(if Previous (Header (hstate f b)) \<noteq> Previous (Header (hstate f c))
      then case (GetBlock f (Previous (Header (hstate f b))), GetBlock f (Previous (Header (hstate f c)))) of
          (Some p1, Some p2) \<Rightarrow> F f p1 p2 (br @ [b]) (cr @ [c])
        | _ \<Rightarrow> Some (Inl GoPanic)
      else Some (Inr (br @ [b], cr @ [c]))) = Some y"
  from eq show "y = Inl e \<longrightarrow> e = GoPanic" using IH by (auto split: if_splits option.splits)
qed

lemma rbind_Inl: "rbind x g = Inl e \<longleftrightarrow> x = Inl e \<or> (\<exists>y. x = Inr y \<and> g y = Inl e)"
  by (cases x) auto

lemma returned_Inl: "returned x = Inl e \<Longrightarrow> e = NoReturn \<or> x = Some (Inl e)"
  by (cases x) (auto simp: returned_def)

section \<open>Properties\<close>

text \<open>
  C1. In every database that the operations can produce from an empty one, the four indices
  hold the same blocks, each ordered index is sorted by its key as the states are now, ids are
  unique and the count is right; looking a block up by its id finds exactly the indexed block
  with that id.
\<close>

theorem reachable_index:
  assumes "fork_reachable C f"
  shows "index_ok (heap f) (Index f) \<and>
    (\<forall>i r. GetBlock f i = Some r \<longleftrightarrow> r \<in> refs (Index f) \<and> BlockId (HeaderState (heap f ! r)) = i)"
  using reachable_ok [OF assms] GetBlock_iff(1) by (simp add: ByBlockIdFunc_def)

theorem reachable_index_witness:
  "index_ok (heap toyFork) (Index toyFork) \<and> GetBlock toyFork (toyId 3) = Some 2"
  using reachable_index [OF toy_reachable] toy_facts by (simp add: ByBlockIdFunc_def)

text \<open>
  C16. The fork choice. Adding a state whose id is in the index fails. Otherwise, unless the
  pruning crashes, the states stay as they are, and the new head is one of the old blocks or
  the new one; no block left in the index has a later irreversible block than the head has,
  none with the same irreversible block has a later confirmed block, and none with both the
  same has a higher number. When no block settles a number above one in the index, nothing is
  pruned, the state is added and the head is in the index.
\<close>

theorem fork_choice:
  assumes "fork_reachable C f" "b < length (heap f)"
  shows "(ident f b \<in> ident f ` frefs f \<longrightarrow> AddBlockState f b = Inl ForkDatabaseException) \<and>
    (ident f b \<notin> ident f ` frefs f \<longrightarrow>
      AddBlockState f b = Inl GoPanic \<or>
      (\<exists>f' r. AddBlockState f b = Inr f' \<and> heap f' = heap f \<and> frefs f' \<subseteq> insert b (frefs f) \<and>
         Head f' = Some r \<and> r \<in> insert b (frefs f) \<and> best_of (heap f') (frefs f') r)) \<and>
    (ident f b \<notin> ident f ` frefs f \<longrightarrow>
      (\<forall>r \<in> insert b (frefs f). \<forall>s \<in> insert b (frefs f). DposIrreversibleBlocknum (hstate f r) \<le> bnum f s) \<longrightarrow>
      (\<exists>f' r. AddBlockState f b = Inr f' \<and> frefs f' = insert b (frefs f) \<and> heap f' = heap f \<and>
         Head f' = Some r \<and> r \<in> frefs f' \<and> best_of (heap f') (frefs f') r))"
  using AddBlockState_ok [OF reachable_ok [OF assms(1)] assms(2)]
    AddBlockState_quiet [OF reachable_ok [OF assms(1)] assms(2)]
  by (auto simp: head_best_def split: if_splits)

theorem fork_choice_witness:
  "AddBlockState toyFork 2 = Inl ForkDatabaseException \<and>
   (\<exists>f'. AddBlockState toyFork1 3 = Inr f' \<and> frefs f' = {0, 3} \<and> Head f' = Some 3)"
proof
  show "AddBlockState toyFork 2 = Inl ForkDatabaseException"
    using fork_choice [OF toy_reachable, of 2] toy_facts by simp
  have r: "frefs toyFork1 = {0}" by (simp add: refs_def)
  have "ident toyFork1 3 \<notin> ident toyFork1 ` frefs toyFork1" unfolding r by (simp add: toy_keys toy_ids)
  moreover have "\<forall>r \<in> insert 3 (frefs toyFork1). \<forall>s \<in> insert 3 (frefs toyFork1).
      DposIrreversibleBlocknum (hstate toyFork1 r) \<le> bnum toyFork1 s"
    unfolding r by (simp add: toy_nums)
  ultimately obtain f' r where f': "AddBlockState toyFork1 3 = Inr f'" "frefs f' = {0, 3}" "heap f' = toyHeap"
      "Head f' = Some r" "r \<in> {0, 3}" "best_of toyHeap {0, 3} r"
    using fork_choice [OF toyFork1_reachable, of 3] unfolding r by (auto simp: toy_length insert_commute)
  have "r = 3" using f'(5, 6) by (auto simp: best_of_def toyHeap_def toyBlock_def NewBlockState_def word_le_nat_alt)
  with f' show "\<exists>f'. AddBlockState toyFork1 3 = Inr f' \<and> frefs f' = {0, 3} \<and> Head f' = Some 3" by auto
qed

text \<open>
  C30. Removing a block takes exactly the blocks that descend from it in the index, itself
  included, moves the head to a best block of the rest and leaves the states alone; if nothing
  would be left it crashes on the empty index. The removal always comes to an end.
\<close>

theorem remove_takes_descendants:
  assumes "fork_reachable C f"
  shows "if \<forall>r \<in> frefs f. ident f r \<in> doomed f (frefs f) {i}
    then Remove f i = Inl GoPanic
    else (\<exists>f' r. Remove f i = Inr f' \<and> frefs f' = {r \<in> frefs f. ident f r \<notin> doomed f (frefs f) {i}} \<and>
      heap f' = heap f \<and> index_ok (heap f') (Index f') \<and> Head f' = Some r \<and> r \<in> frefs f' \<and>
      best_of (heap f') (frefs f') r)"
  using fork_Remove_ok [OF reachable_ok [OF assms], of i] by (auto simp: survivors_def)

theorem remove_takes_descendants_witness:
  "\<exists>f'. Remove toyFork (toyId 2) = Inr f' \<and> frefs f' = {0, 3}"
proof -
  have d2: "toyId 2 \<in> doomed toyFork {0, 1, 2, 3} {toyId 2}" by (rule doomed.doomed_queue) simp
  have "ident toyFork 2 \<in> doomed toyFork {0, 1, 2, 3} {toyId 2}"
    by (rule doomed.doomed_child) (use toy_facts d2 in simp_all)
  then have d: "toyId 2 \<in> doomed toyFork {0, 1, 2, 3} {toyId 2}" "toyId 3 \<in> doomed toyFork {0, 1, 2, 3} {toyId 2}"
    using toy_facts d2 by simp_all
  have "x \<in> {toyId 2, toyId 3}" if "x \<in> doomed toyFork {0, 1, 2, 3} {toyId 2}" for x
    using that
  proof (induction rule: doomed.induct)
    case (doomed_child r)
    then show ?case using toy_facts toy_ids(1) by auto
  qed simp
  then have n: "toyId 1 \<notin> doomed toyFork {0, 1, 2, 3} {toyId 2}" "toyId 4 \<notin> doomed toyFork {0, 1, 2, 3} {toyId 2}"
    using toy_ids(1) by force+
  have left: "{r \<in> {0, 1, 2, 3}. ident toyFork r \<notin> doomed toyFork {0, 1, 2, 3} {toyId 2}} = {0, 3}"
    using d n toy_facts by auto
  have "\<not> (\<forall>r \<in> {0, 1, 2, 3}. ident toyFork r \<in> doomed toyFork {0, 1, 2, 3} {toyId 2})"
    using n toy_facts by simp
  then show ?thesis
    using remove_takes_descendants [OF toy_reachable, of "toyId 2", unfolded toy_facts(2) left]
    by (simp only: if_False) blast
qed

text \<open>
  C31. Pruning always comes to an end: it crashes, or it leaves only blocks above the given
  one, with the indices consistent, the states untouched and a best head still best. A block
  that is alone at the lowest height is pruned without a crash: it is reported irreversible
  and is the only one to go.
\<close>

theorem prune_leaves_higher:
  assumes "fork_reachable C f"
  shows "(Prune f r = Inl GoPanic \<or>
      (\<exists>f'. Prune f r = Inr f' \<and> index_ok (heap f') (Index f') \<and> heap f' = heap f \<and> frefs f' \<subseteq> frefs f \<and>
        (head_best f \<longrightarrow> head_best f') \<and> (\<forall>s \<in> frefs f'. bnum f r < bnum f s))) \<and>
    (r \<in> frefs f \<longrightarrow> (\<forall>s \<in> frefs f. s \<noteq> r \<longrightarrow> bnum f r < bnum f s) \<longrightarrow>
      (\<exists>f'. Prune f r = Inr f' \<and> frefs f' = frefs f - {r} \<and> Irreversible f' = Irreversible f @ [r]))"
proof
  show "Prune f r = Inl GoPanic \<or>
      (\<exists>f'. Prune f r = Inr f' \<and> index_ok (heap f') (Index f') \<and> heap f' = heap f \<and> frefs f' \<subseteq> frefs f \<and>
        (head_best f \<longrightarrow> head_best f') \<and> (\<forall>s \<in> frefs f'. bnum f r < bnum f s))"
    using Prune_ok [OF reachable_ok [OF assms], of r]
  proof
    assume "\<exists>f'. Prune f r = Inr f' \<and> shrinks f f' \<and> (\<forall>s \<in> frefs f'. bnum f r < bnum f s)"
    then obtain f' where f': "Prune f r = Inr f'" "shrinks f f'" "\<forall>s \<in> frefs f'. bnum f r < bnum f s" by blast
    from f'(1, 3) shrinksD [OF f'(2)] show ?thesis by simp
  qed simp
  show "r \<in> frefs f \<longrightarrow> (\<forall>s \<in> frefs f. s \<noteq> r \<longrightarrow> bnum f r < bnum f s) \<longrightarrow>
      (\<exists>f'. Prune f r = Inr f' \<and> frefs f' = frefs f - {r} \<and> Irreversible f' = Irreversible f @ [r])"
    by (intro impI) (rule Prune_single [OF reachable_ok [OF assms]])
qed

theorem prune_leaves_higher_witness:
  "\<exists>f'. Prune toyChain 0 = Inr f' \<and> frefs f' = {3} \<and> Irreversible f' = [0]"
proof -
  have r: "frefs toyChain = {0, 3}" "Irreversible toyChain = []"
    by (auto simp: toyChain_def refs_def NewForkDatabase_def)
  have "0 \<in> frefs toyChain" "\<forall>s \<in> frefs toyChain. s \<noteq> 0 \<longrightarrow> bnum toyChain 0 < bnum toyChain s"
    unfolding r by (simp_all add: toyChain_def toy_nums)
  with prune_leaves_higher [OF toyChain_reachable, of 0] show ?thesis unfolding r by auto
qed

text \<open>
  Pruning can crash in normal use. In a reachable database with two competing blocks of
  height 1, each with a child, the arrival of a block that settles height 2 makes \<open>Prune\<close>
  remove the losing block after its iterator has moved on to that block's child; the child is
  removed as well and the next read through the iterator dereferences nil.
\<close>

theorem prune_crash:
  "fork_reachable toyCrypto toyFork \<and> 4 < length (heap toyFork) \<and>
   GetBlock toyFork (BlockId (hstate toyFork 4)) = None \<and>
   GetBlock toyFork (Previous (Header (hstate toyFork 4))) = Some 3 \<and> bnum toyFork 4 = bnum toyFork 3 + 1 \<and>
   AddBlockState toyFork 4 = Inl GoPanic"
proof -
  have "ident toyFork 4 = toyId 5" "parent_id toyFork 4 = toyId 4" "bnum toyFork 4 = 3"
    by (simp_all add: toyFork_def toy_keys toy_nums)
  then show ?thesis
    using toy_reachable toy_crash toy_facts GetBlock_iff [OF toy_facts(1)] toy_ids(1)
    by (auto simp: ByBlockIdFunc_def ByPrevFunc_def)
qed

text \<open>
  C32. When heights grow by one along the links and all blocks without a parent in the index
  have the same previous id and height, the branches of any two blocks exist: the three loops
  of \<open>FetchBranchFrom\<close> end, and the result is a linked path from each block down to two blocks
  with the same previous id.
\<close>

theorem fetch_branch_meets:
  assumes "fork_reachable C f" "numbered f" "rooted f" "GetBlock f i = Some b" "GetBlock f j = Some c"
  shows "\<exists>xs ys x y. FetchBranchFrom f i j = Inr (xs, ys) \<and> path f b xs x \<and> path f c ys y \<and>
    Previous (Header (hstate f x)) = Previous (Header (hstate f y))"
proof -
  note ok = reachable_ok [OF assms(1)]
  have "b \<in> frefs f" "ident f b = i" "c \<in> frefs f" "ident f c = j" using assms(4, 5) GetBlock_iff(1) [OF ok] by auto
  then show ?thesis using FetchBranchFrom_ok [OF ok assms(2, 3), of b c] by (auto simp: ByPrevFunc_def)
qed

theorem fetch_branch_meets_witness:
  "\<exists>xs ys x y. FetchBranchFrom toyFork (toyId 3) (toyId 4) = Inr (xs, ys) \<and> path toyFork 2 xs x \<and> path toyFork 3 ys y \<and>
    Previous (Header (hstate toyFork x)) = Previous (Header (hstate toyFork y))"
proof (rule fetch_branch_meets [OF toy_reachable])
  show "numbered toyFork" using toy_facts toy_ids(1) unfolding numbered_def toy_facts(2) by auto
  show "rooted toyFork"
    unfolding rooted_def toy_facts(2)
    by (rule exI [of _ "toyId 0"], rule exI [of _ 1]) (use toy_facts in auto)
  show "GetBlock toyFork (toyId 3) = Some 2" "GetBlock toyFork (toyId 4) = Some 3"
    using GetBlock_iff(1) [OF toy_facts(1)] toy_facts by auto
qed

text \<open>
  Asking for the branches of a block that is not in the index crashes, and so does
  reaching a block whose parent is missing while walking down: the exception for an unknown
  block is never thrown.
\<close>

theorem fetch_branch_missing:
  "FetchBranchFrom f i j \<noteq> Inl ForkDbBlockNotFound \<and>
   (GetBlock f i = None \<or> GetBlock f j = None \<longrightarrow> FetchBranchFrom f i j = Inl GoPanic) \<and>
   (GetBlock f i = Some b \<longrightarrow> GetBlock f j = Some c \<longrightarrow> bnum f c < bnum f b \<longrightarrow>
     GetBlock f (Previous (Header (hstate f b))) = None \<longrightarrow> FetchBranchFrom f i j = Inl GoPanic)"
proof (intro conjI impI)
  have "e = GoPanic \<or> e = NoReturn" if "FetchBranchFrom f i j = Inl e" for e
    using that by (auto simp: FetchBranchFrom_def rbind_Inl split: option.splits
        dest!: returned_Inl dest: down_outcome meet_outcome)
  then show "FetchBranchFrom f i j \<noteq> Inl ForkDbBlockNotFound" by fastforce
next
  assume "GetBlock f i = None \<or> GetBlock f j = None"
  then show "FetchBranchFrom f i j = Inl GoPanic" by (auto simp: FetchBranchFrom_def split: option.split)
next
  assume "GetBlock f i = Some b" "GetBlock f j = Some c" "bnum f c < bnum f b"
    "GetBlock f (Previous (Header (hstate f b))) = None"
  then show "FetchBranchFrom f i j = Inl GoPanic"
    by (simp add: FetchBranchFrom_def FetchBranch_down.simps [of f _ b])
qed

theorem fetch_branch_missing_witness:
  "FetchBranchFrom toyFork (toyId 9) (toyId 1) = Inl GoPanic"
proof -
  have "toyId 9 \<notin> ident toyFork ` {0, 1, 2, 3}" using toy_facts toy_ids(1) by auto
  then have "GetBlock toyFork (toyId 9) = None" using GetBlock_iff(2) [OF toy_facts(1)] unfolding toy_facts(2) by blast
  then show ?thesis using fetch_branch_missing [of toyFork "toyId 9" "toyId 1"] by blast
qed



end
