(* ===== verification/Eos_Bytes.thy ===== *)
theory Eos_Bytes
  imports Eos_Prelude "HOL-Library.List_Lexorder"
begin

text \<open>
  Byte strings: the fixed-width integers of \<open>encoding/binary\<close> in both byte orders, its
  variable-length integers, and the order of byte strings. Shown: both byte orders and the
  variable-length form read back what was written, and the big-endian form is an order
  embedding of numbers into byte strings of one length.
\<close>

type_synonym bytes = "u8 list"

section \<open>Fixed-width integers\<close>

text \<open>The low \<open>n\<close> bytes of a number, least significant first.\<close>

fun digits :: "nat \<Rightarrow> nat \<Rightarrow> bytes" where
  "digits 0 x = []"
| "digits (Suc n) x = of_nat (x mod 256) # digits n (x div 256)"

fun le_nat :: "bytes \<Rightarrow> nat" where
  "le_nat [] = 0"
| "le_nat (b # bs) = unat b + 256 * le_nat bs"

definition PutLittle :: "nat \<Rightarrow> 'a::len word \<Rightarrow> bytes" where
  "PutLittle n w = digits n (unat w)"

definition PutBig :: "nat \<Rightarrow> 'a::len word \<Rightarrow> bytes" where
  "PutBig n w = rev (digits n (unat w))"

definition Little :: "bytes \<Rightarrow> 'a::len word" where
  "Little bs = of_nat (le_nat bs)"

definition Big :: "bytes \<Rightarrow> 'a::len word" where
  "Big bs = of_nat (le_nat (rev bs))"

section \<open>Variable-length integers\<close>

fun PutUvarint :: "nat \<Rightarrow> bytes" where
  "PutUvarint x = (if x < 128 then [of_nat x] else of_nat (x mod 128 + 128) # PutUvarint (x div 128))"

declare PutUvarint.simps [simp del]

text \<open>
  \<open>binary.Uvarint\<close>: the value and the number of bytes read. The count is 0 when the buffer ends
  before the number does, and negative when the number does not fit into 64 bits.
\<close>

fun Uvarint_at :: "nat \<Rightarrow> u64 \<Rightarrow> bytes \<Rightarrow> u64 \<times> int" where
  "Uvarint_at i x [] = (0, 0)"
| "Uvarint_at i x (b # bs) =
     (if b < 0x80
      then if i > 9 \<or> i = 9 \<and> b > 1 then (0, - (int i + 1))
           else (x OR push_bit (7 * i) (ucast b), int i + 1)
      else Uvarint_at (Suc i) (x OR push_bit (7 * i) (ucast (b AND 0x7f))) bs)"

definition Uvarint :: "bytes \<Rightarrow> u64 \<times> int" where
  "Uvarint bs = Uvarint_at 0 0 bs"

section \<open>Reading back\<close>

lemma length_digits [simp]: "length (digits n x) = n"
  by (induction n arbitrary: x) auto

lemma length_Put [simp]: "length (PutLittle n w) = n" "length (PutBig n w) = n"
  by (simp_all add: PutLittle_def PutBig_def)

lemma unat_byte: "unat (of_nat (x mod 256) :: u8) = x mod 256"
  by (simp add: unsigned_of_nat take_bit_eq_mod)

lemma le_nat_digits: "le_nat (digits n x) = x mod 256 ^ n"
proof (induction n arbitrary: x)
  case (Suc n)
  have "x mod (256 * 256 ^ n) = 256 * (x div 256 mod 256 ^ n) + x mod 256" by (rule mod_mult2_eq)
  then show ?case using Suc by (simp add: unat_byte add.commute)
qed simp

lemma Little_PutLittle: "LENGTH('a) \<le> 8 * n \<Longrightarrow> Little (PutLittle n (w :: 'a::len word)) = w"
  and Big_PutBig: "LENGTH('a) \<le> 8 * n \<Longrightarrow> Big (PutBig n (w :: 'a::len word)) = w"
proof -
  assume n: "LENGTH('a) \<le> 8 * n"
  have "unat w < 2 ^ LENGTH('a)" by (rule unsigned_less)
  also have "\<dots> \<le> 2 ^ (8 * n)" using n by (intro power_increasing) auto
  also have "\<dots> = (256 :: nat) ^ n" by (simp add: power_mult)
  finally have "unat w mod 256 ^ n = unat w" by simp
  then show "Little (PutLittle n w) = w" "Big (PutBig n w) = w"
    by (simp_all add: Little_def PutLittle_def Big_def PutBig_def le_nat_digits)
qed

lemma PutUvarint_nonempty [simp]: "PutUvarint x \<noteq> []"
  by (subst PutUvarint.simps) simp

lemma PutUvarint_length: "x < 128 ^ n \<Longrightarrow> 0 < n \<Longrightarrow> length (PutUvarint x) \<le> n"
proof (induction n arbitrary: x)
  case (Suc n)
  show ?case
  proof (cases "x < 128")
    case True
    then show ?thesis by (simp add: PutUvarint.simps)
  next
    case False
    then have "x div 128 < 128 ^ n" using Suc.prems(1) by (simp add: less_mult_imp_div_less mult.commute)
    moreover have "0 < n" using False Suc.prems(1) by (cases n) auto
    ultimately have "length (PutUvarint (x div 128)) \<le> n" by (rule Suc.IH)
    with False show ?thesis by (simp add: PutUvarint.simps [of x])
  qed
qed simp

lemma unat_of_nat8: "m < 256 \<Longrightarrow> unat (of_nat m :: u8) = m"
  by (simp add: unsigned_of_nat take_bit_nat_eq_self_iff)

lemma or_push_bit:
  fixes x :: u64
  assumes "unat x < 128 ^ i"
  shows "x OR push_bit (7 * i) y = x + push_bit (7 * i) y"
proof -
  have "take_bit (7 * i) (unat x) = unat x"
    using assms by (simp add: take_bit_nat_eq_self_iff power_mult)
  then have "bit (unat x) j \<Longrightarrow> j < 7 * i" for j by (metis bit_take_bit_iff)
  then have "bit x j \<Longrightarrow> j < 7 * i" for j by (simp add: bit_unsigned_iff)
  then have "x AND push_bit (7 * i) y = 0"
    by (intro bit_eqI) (auto simp: bit_and_iff bit_push_bit_iff dest: leD)
  then show ?thesis using word_plus_and_or [of x "push_bit (7 * i) y"] by simp
qed

text \<open>One group of seven bits is added above the bits read so far.\<close>

lemma add_group:
  fixes x :: u64
  assumes "unat x < 128 ^ i" "unat x + n * 128 ^ i < 2 ^ 64"
  shows "x OR push_bit (7 * i) (of_nat n) = of_nat (unat x + n * 128 ^ i)"
proof -
  have p: "push_bit (7 * i) (of_nat n :: u64) = of_nat (n * 128 ^ i)"
    by (simp add: push_bit_eq_mult power_mult)
  have "x OR push_bit (7 * i) (of_nat n) = x + of_nat (n * 128 ^ i)"
    using or_push_bit [OF assms(1), of "of_nat n"] by (simp only: p)
  then show ?thesis by (simp only: of_nat_add of_nat_unat ucast_id)
qed

lemma Uvarint_at_Put:
  assumes "unat x < 128 ^ i" "unat x + n * 128 ^ i < 2 ^ 64" "0 < n \<or> i = 0"
  shows "Uvarint_at i x (PutUvarint n @ rest) = (of_nat (unat x + n * 128 ^ i), int (i + length (PutUvarint n)))"
  using assms
proof (induction n arbitrary: i x rule: PutUvarint.induct)
  case (1 n)
  show ?case
  proof (cases "n < 128")
    case True
    have i: "i \<le> 9"
    proof (rule ccontr)
      assume a: "\<not> i \<le> 9"
      then have "(128 :: nat) ^ 10 \<le> 128 ^ i" by (intro power_increasing) auto
      also have "\<dots> \<le> n * 128 ^ i" using 1(4) a by simp
      finally show False using 1(3) by simp
    qed
    have i9: "n \<le> 1" if "i = 9" using 1(3) that by simp
    have b: "unat (of_nat n :: u8) = n" using True by (simp add: unat_of_nat8)
    have lt: "(of_nat n :: u8) < 0x80" using True b by (simp add: word_less_nat_alt)
    have no: "\<not> (i > 9 \<or> i = 9 \<and> (of_nat n :: u8) > 1)" using i i9 b by (auto simp: word_less_nat_alt)
    have u: "(ucast (of_nat n :: u8) :: u64) = of_nat n" by (metis b of_nat_unat)
    show ?thesis
      using True lt no by (simp add: PutUvarint.simps [of n] u add_group [OF 1(2, 3)])
  next
    case False
    let ?b = "of_nat (n mod 128 + 128) :: u8"
    have b: "unat ?b = n mod 128 + 128" by (rule unat_of_nat8) simp
    then have nlt: "\<not> ?b < 0x80" by (simp add: word_less_nat_alt)
    have m: "?b AND 0x7f = take_bit 7 ?b" by (simp add: take_bit_eq_mask mask_eq_exp_minus_1)
    have "unat (?b AND 0x7f) = n mod 128" unfolding m unsigned_take_bit_eq b by (simp add: take_bit_eq_mod)
    then have u: "(ucast (?b AND 0x7f) :: u64) = of_nat (n mod 128)" by (metis of_nat_unat)
    have split: "n mod 128 * 128 ^ i + n div 128 * 128 ^ Suc i = n * 128 ^ i"
    proof -
      have "n mod 128 * 128 ^ i + n div 128 * 128 ^ Suc i = (n mod 128 + n div 128 * 128) * 128 ^ i"
        by (simp only: power_Suc add_mult_distrib mult.assoc)
      then show ?thesis by (simp only: mod_div_mult_eq)
    qed
    define y where "y = x OR push_bit (7 * i) (of_nat (n mod 128))"
    have bound: "unat x + n mod 128 * 128 ^ i < 2 ^ 64" using 1(3) split by linarith
    have y: "unat y = unat x + n mod 128 * 128 ^ i"
      unfolding y_def by (subst add_group [OF 1(2) bound]) (rule unat_of_nat64 [OF bound])
    have "n mod 128 * 128 ^ i \<le> 127 * 128 ^ i" by (intro mult_right_mono) auto
    then have "unat y < 128 ^ Suc i" using 1(2) y unfolding power_Suc by linarith
    moreover have "unat y + n div 128 * 128 ^ Suc i < 2 ^ 64" using 1(3) y split by linarith
    moreover have "0 < n div 128 \<or> Suc i = 0" using False by (simp add: div_greater_zero_iff)
    ultimately have "Uvarint_at (Suc i) y (PutUvarint (n div 128) @ rest) =
        (of_nat (unat y + n div 128 * 128 ^ Suc i), int (Suc i + length (PutUvarint (n div 128))))"
      by (rule 1(1) [OF False])
    moreover have "unat y + n div 128 * 128 ^ Suc i = unat x + n * 128 ^ i" using y split by linarith
    moreover have put: "PutUvarint n = ?b # PutUvarint (n div 128)"
      using False by (subst PutUvarint.simps) simp
    moreover have "Uvarint_at i x (?b # zs) = Uvarint_at (Suc i) y zs" for zs
      by (simp only: Uvarint_at.simps(2) nlt if_False u y_def)
    ultimately show ?thesis by (simp only: append_Cons list.size add_Suc add_Suc_right add_0_right)
  qed
qed

lemma Uvarint_Put: "n < 2 ^ 64 \<Longrightarrow> Uvarint (PutUvarint n @ rest) = (of_nat n, int (length (PutUvarint n)))"
  using Uvarint_at_Put [of 0 0 n rest] by (simp add: Uvarint_def)

section \<open>The order of byte strings\<close>

lemma le_nat_append: "le_nat (xs @ ys) = le_nat xs + 256 ^ length xs * le_nat ys"
  by (induction xs) (auto simp: algebra_simps)

lemma le_nat_bound: "le_nat xs < 256 ^ length xs"
proof (induction xs)
  case (Cons b bs)
  have "unat b < 256" using unsigned_less [of b] by simp
  with Cons show ?case by simp
qed simp

lemma lex_less_big:
  assumes "length xs = length ys"
  shows "xs < ys \<longleftrightarrow> le_nat (rev xs) < le_nat (rev ys)"
  using assms
proof (induction xs ys rule: list_induct2)
  case (Cons x xs y ys)
  let ?B = "256 ^ length xs :: nat"
  have e: "le_nat (rev (x # xs)) = le_nat (rev xs) + ?B * unat x" "le_nat (rev (y # ys)) = le_nat (rev ys) + ?B * unat y"
    using Cons.hyps by (simp_all add: le_nat_append)
  have b: "le_nat (rev xs) < ?B" "le_nat (rev ys) < ?B" using le_nat_bound [of "rev xs"] le_nat_bound [of "rev ys"] Cons.hyps by simp_all
  have step: "p + ?B * m < q + ?B * k" if "m < k" "p < ?B" for p q m k :: nat
  proof -
    have "?B * m + ?B \<le> ?B * k" using that(1) by (metis mult_Suc_right Suc_leI mult_le_mono2 add.commute)
    then show ?thesis using that(2) by linarith
  qed
  consider "x < y" | "x = y" | "y < x" by fastforce
  then show ?case
  proof cases
    case 1
    then show ?thesis using step [of "unat x" "unat y" "le_nat (rev xs)"] b(1) e by (simp add: word_less_nat_alt)
  next
    case 2
    then show ?thesis using Cons.IH e by simp
  next
    case 3
    then show ?thesis using step [of "unat y" "unat x" "le_nat (rev ys)" "le_nat (rev xs)"] b(2) e by (auto simp: word_less_nat_alt)
  qed
qed simp

lemma PutBig_less:
  assumes "LENGTH('a) \<le> 8 * n"
  shows "PutBig n (v :: 'a::len word) < PutBig n w \<longleftrightarrow> v < w"
proof -
  have "unat (Big (PutBig n v) :: 'a word) = unat v" "unat (Big (PutBig n w) :: 'a word) = unat w"
    using Big_PutBig [OF assms] by simp_all
  moreover have "le_nat (rev (PutBig n x)) = unat (x :: 'a word)" for x
  proof -
    have "unat x < 2 ^ LENGTH('a)" by (rule unsigned_less)
    also have "\<dots> \<le> 2 ^ (8 * n)" using assms by (intro power_increasing) auto
    also have "\<dots> = (256 :: nat) ^ n" by (simp add: power_mult)
    finally show ?thesis by (simp add: PutBig_def le_nat_digits)
  qed
  ultimately show ?thesis by (simp add: lex_less_big word_less_nat_alt)
qed

lemma append_less:
  assumes "length (xs :: bytes) = length ys"
  shows "xs @ us < ys @ vs \<longleftrightarrow> xs < ys \<or> xs = ys \<and> us < vs"
  using assms by (induction xs ys rule: list_induct2) auto

end
