(* ===== verification/Eos_Codec.thy ===== *)
theory Eos_Codec
  imports Eos_Bytes
begin

text \<open>
  The two binary codecs of the node: \<open>src/crypto/rlp/encoder.go\<close> and \<open>decoder.go\<close> for the wire
  and the block log, and \<open>src/database/pack.go\<close> and \<open>unpack.go\<close> for database keys and values.
  Both walk a Go value by reflection. The universe of Go types they handle is \<open>gotype\<close>, and a
  value of such a type is a \<open>goval\<close>; both codecs are one definition, and \<open>codec\<close> tells where
  they differ: byte order, length prefix of arrays, the sortable form of floating-point and
  128-bit numbers, and a length cut off by the end of the input. Fields are exported. A tag on a field
  counts for the value of that field only; the database codec keeps the array and vuint32
  tags in a flag that the next array or 32-bit number clears, which is the same for the types
  that are \<open>well_tagged\<close>. Pointers to types with their own packing, tree sets and
  maps, assets, and the transaction-or-id variant of a receipt are not in the universe. Shown
  here: what is encoded is decoded. \<open>Eos_CodecLaws\<close> has the properties.
\<close>

section \<open>Model\<close>

datatype codec = Rlp | Db

datatype eostag = NoTag | SkipTag | OptionalTag | ArrayTag | Vuint32Tag

datatype gotype =
    TString | TBool | TInt8 | TInt16 | TInt32 | TInt | TInt64
  | TUint8 | TUint16 | TUint32 | TUint | TUint64 | TFloat32 | TFloat64
  | TVuint32 | TPublicKey | TSignature
  | TEosFloat64 | TEosFloat128 | TUint128
  | TArray nat gotype
  | TSlice gotype
  | TMap gotype gotype
  | TPtr gotype
  | TStruct "(eostag \<times> gotype) list"

text \<open>
  Integers and floats are their bits, signed or not; a key or signature is its curve and
  content; a Go map is the list of its entries in the order they are visited.
\<close>

datatype goval =
    VBytes bytes
  | VBool bool
  | V8 u8 | V16 u16 | V32 u32 | V64 u64
  | VKey u8 bytes
  | VList "goval list"
  | VMap "(goval \<times> goval) list"
  | VPtr "goval option"
  | VStruct "goval list"

definition MAX_NUM_ARRAY_ELEMENT :: nat where
  "MAX_NUM_ARRAY_ELEMENT = 1024 * 1024"

definition MAX_SIZE_OF_BYTE_ARRAYS :: nat where
  "MAX_SIZE_OF_BYTE_ARRAYS = 20 * 1024 * 1024"

subsection \<open>Encoding\<close>

text \<open>The buffer has eight bytes; a longer number is written past its end.\<close>

definition WriteUVarInt :: "nat \<Rightarrow> bytes result" where
  "WriteUVarInt v = (if length (PutUvarint v) \<le> 8 then Inr (PutUvarint v) else Inl GoPanic)"

definition writeByteArray :: "bytes \<Rightarrow> bytes result" where
  "writeByteArray b =
     eos_assert (length b \<le> MAX_SIZE_OF_BYTE_ARRAYS) AssertException
       (rbind (WriteUVarInt (length b)) (\<lambda>l. Inr (l @ b)))"

text \<open>Zigzag: the sign goes into the lowest bit.\<close>

definition WriteVarInt :: "u64 \<Rightarrow> bytes result" where
  "WriteVarInt v =
     (let ux = push_bit 1 v
      in WriteUVarInt (unat (if sint v < 0 then NOT ux else ux)))"

definition writeBool :: "bool \<Rightarrow> bytes" where
  "writeBool b = [if b then 1 else 0]"

definition writeUint16 :: "codec \<Rightarrow> u16 \<Rightarrow> bytes" where
  "writeUint16 c i = (case c of Rlp \<Rightarrow> PutLittle 2 i | Db \<Rightarrow> PutBig 2 i)"

definition writeUint32 :: "codec \<Rightarrow> u32 \<Rightarrow> bytes" where
  "writeUint32 c i = (case c of Rlp \<Rightarrow> PutLittle 4 i | Db \<Rightarrow> PutBig 4 i)"

definition writeUint64 :: "codec \<Rightarrow> u64 \<Rightarrow> bytes" where
  "writeUint64 c i = (case c of Rlp \<Rightarrow> PutLittle 8 i | Db \<Rightarrow> PutBig 8 i)"

definition writePublicKey :: "codec \<Rightarrow> u8 \<Rightarrow> bytes \<Rightarrow> bytes result" where
  "writePublicKey c curve content =
     (if c = Db \<and> length content \<noteq> 33 then Inl ErrKeyLength else Inr (curve # content))"

definition writeSignature :: "u8 \<Rightarrow> bytes \<Rightarrow> bytes result" where
  "writeSignature curve content =
     (let (curve, content) = (if length content = 0 then (0, replicate 65 0) else (curve, content))
      in if length content \<noteq> 65 then Inl ErrKeyLength else Inr (curve # content))"

text \<open>The database stores floating-point keys so that their bytes sort like the numbers.\<close>

definition pack_Float64 :: "u64 \<Rightarrow> bytes" where
  "pack_Float64 f64 =
     (if drop_bit 63 f64 \<noteq> 0
      then writeBool False @ writeUint16 Db (0x8000 - (ucast (drop_bit 48 f64) AND 0x7FFF))
           @ writeUint64 Db (0x0001000000000000 - (f64 AND 0x0000FFFFFFFFFFFF))
      else writeBool True @ writeUint16 Db (ucast (drop_bit 48 f64) OR 0x8000)
           @ writeUint64 Db (f64 AND 0x0000FFFFFFFFFFFF OR 0x0001000000000000))"

definition pack_Float128 :: "u64 \<Rightarrow> u64 \<Rightarrow> bytes" where
  "pack_Float128 low high =
     (if drop_bit 63 high \<noteq> 0
      then writeBool False @ writeUint16 Db (0x8000 - (ucast (drop_bit 48 high) AND 0x7FFF))
           @ writeUint64 Db (0x00010000000000FE - (high AND 0x0000FFFFFFFFFFFF))
           @ writeUint64 Db (0xFFFFFFFFFFFFFFFF - low)
      else writeBool True @ writeUint16 Db (ucast (drop_bit 48 high) OR 0x8000)
           @ writeUint64 Db (high AND 0x0000FFFFFFFFFFFF OR 0x0001000000000000)
           @ writeUint64 Db low)"

definition pack_Uint128 :: "u64 \<Rightarrow> u64 \<Rightarrow> bytes" where
  "pack_Uint128 low high = writeUint64 Db high @ writeUint64 Db low"

text \<open>The loops over elements, entries and fields, with the encoder of each as an argument.\<close>

fun encode_list :: "(goval \<Rightarrow> bytes result) \<Rightarrow> goval list \<Rightarrow> bytes result" where
  "encode_list e [] = Inr []"
| "encode_list e (v # vs) = rbind (e v) (\<lambda>b. rbind (encode_list e vs) (\<lambda>bs. Inr (b @ bs)))"

fun encode_pairs :: "(goval \<Rightarrow> bytes result) \<Rightarrow> (goval \<Rightarrow> bytes result) \<Rightarrow> (goval \<times> goval) list \<Rightarrow> bytes result" where
  "encode_pairs ek ev [] = Inr []"
| "encode_pairs ek ev ((k, v) # ps) =
     rbind (ek k) (\<lambda>a. rbind (ev v) (\<lambda>b. rbind (encode_pairs ek ev ps) (\<lambda>bs. Inr (a @ b @ bs))))"

text \<open>\<open>IsNil\<close> of a field that is not a pointer panics.\<close>

fun encode_fields :: "(eostag \<times> (goval \<Rightarrow> bytes result)) list \<Rightarrow> goval list \<Rightarrow> bytes result" where
  "encode_fields [] [] = Inr []"
| "encode_fields ((tag, e) # es) (v # vs) =
     rbind
       (case tag of
          SkipTag \<Rightarrow> Inr []
        | OptionalTag \<Rightarrow>
            (case v of
               VPtr None \<Rightarrow> Inr (writeBool False)
             | VPtr (Some _) \<Rightarrow> rbind (e v) (\<lambda>b. Inr (writeBool True @ b))
             | _ \<Rightarrow> Inl GoPanic)
        | _ \<Rightarrow> e v)
       (\<lambda>b. rbind (encode_fields es vs) (\<lambda>bs. Inr (b @ bs)))"
| "encode_fields _ _ = Inl GoPanic"

text \<open>A value that is not of its type cannot occur in Go; the accessors panic on one.\<close>

definition as_bytes :: "goval \<Rightarrow> bytes result" where
  "as_bytes v = (case v of VBytes b \<Rightarrow> Inr b | _ \<Rightarrow> Inl GoPanic)"

definition as_bool :: "goval \<Rightarrow> bool result" where
  "as_bool v = (case v of VBool b \<Rightarrow> Inr b | _ \<Rightarrow> Inl GoPanic)"

definition as_8 :: "goval \<Rightarrow> u8 result" where
  "as_8 v = (case v of V8 w \<Rightarrow> Inr w | _ \<Rightarrow> Inl GoPanic)"

definition as_16 :: "goval \<Rightarrow> u16 result" where
  "as_16 v = (case v of V16 w \<Rightarrow> Inr w | _ \<Rightarrow> Inl GoPanic)"

definition as_32 :: "goval \<Rightarrow> u32 result" where
  "as_32 v = (case v of V32 w \<Rightarrow> Inr w | _ \<Rightarrow> Inl GoPanic)"

definition as_64 :: "goval \<Rightarrow> u64 result" where
  "as_64 v = (case v of V64 w \<Rightarrow> Inr w | _ \<Rightarrow> Inl GoPanic)"

definition as_pair :: "goval \<Rightarrow> (u64 \<times> u64) result" where
  "as_pair v = (case v of VStruct [V64 low, V64 high] \<Rightarrow> Inr (low, high) | _ \<Rightarrow> Inl GoPanic)"

definition as_key :: "goval \<Rightarrow> (u8 \<times> bytes) result" where
  "as_key v = (case v of VKey curve content \<Rightarrow> Inr (curve, content) | _ \<Rightarrow> Inl GoPanic)"

definition as_list :: "goval \<Rightarrow> goval list result" where
  "as_list v = (case v of VList vs \<Rightarrow> Inr vs | _ \<Rightarrow> Inl GoPanic)"

definition as_map :: "goval \<Rightarrow> (goval \<times> goval) list result" where
  "as_map v = (case v of VMap ps \<Rightarrow> Inr ps | _ \<Rightarrow> Inl GoPanic)"

definition as_struct :: "goval \<Rightarrow> goval list result" where
  "as_struct v = (case v of VStruct vs \<Rightarrow> Inr vs | _ \<Rightarrow> Inl GoPanic)"

definition deref :: "goval \<Rightarrow> goval result" where
  "deref v = (case v of VPtr (Some w) \<Rightarrow> Inr w | _ \<Rightarrow> Inl GoPanic)"

text \<open>
  A nil pointer that is not optional is dereferenced; a pointer to a pointer is dereferenced
  once.
\<close>

fun encode :: "codec \<Rightarrow> eostag \<Rightarrow> gotype \<Rightarrow> goval \<Rightarrow> bytes result" where
  "encode c tag TString v = rbind (as_bytes v) writeByteArray"
| "encode c tag TBool v = rbind (as_bool v) (\<lambda>b. Inr (writeBool b))"
| "encode c tag TInt8 v = rbind (as_8 v) (\<lambda>w. Inr [w])"
| "encode c tag TInt16 v = rbind (as_16 v) (\<lambda>w. Inr (writeUint16 c w))"
| "encode c tag TInt32 v = rbind (as_32 v) (\<lambda>w. Inr (writeUint32 c w))"
| "encode c tag TInt v = rbind (as_64 v) (\<lambda>w. Inr (writeUint32 c (ucast w)))"
| "encode c tag TInt64 v = rbind (as_64 v) (\<lambda>w. Inr (writeUint64 c w))"
| "encode c tag TUint8 v = rbind (as_8 v) (\<lambda>w. Inr [w])"
| "encode c tag TUint16 v = rbind (as_16 v) (\<lambda>w. Inr (writeUint16 c w))"
| "encode c tag TUint32 v = rbind (as_32 v) (\<lambda>w.
     if c = Db \<and> tag = Vuint32Tag then WriteUVarInt (unat w) else Inr (writeUint32 c w))"
| "encode c tag TUint v = rbind (as_64 v) (\<lambda>w. Inr (writeUint32 c (ucast w)))"
| "encode c tag TUint64 v = rbind (as_64 v) (\<lambda>w. Inr (writeUint64 c w))"
| "encode c tag TFloat32 v = rbind (as_32 v) (\<lambda>w.
     if c = Db then Inl ErrUnsupportedType else Inr (writeUint32 c w))"
| "encode c tag TFloat64 v = rbind (as_64 v) (\<lambda>w.
     if c = Db then Inl ErrUnsupportedType else Inr (writeUint64 c w))"
| "encode c tag TVuint32 v = rbind (as_32 v) (\<lambda>w.
     if c = Rlp \<or> tag = Vuint32Tag then WriteUVarInt (unat w) else Inr (writeUint32 c w))"
| "encode c tag TPublicKey v = rbind (as_key v) (\<lambda>(curve, content). writePublicKey c curve content)"
| "encode c tag TSignature v = rbind (as_key v) (\<lambda>(curve, content). writeSignature curve content)"
| "encode c tag TEosFloat64 v = rbind (as_64 v) (\<lambda>w.
     Inr (case c of Rlp \<Rightarrow> writeUint64 c w | Db \<Rightarrow> pack_Float64 w))"
| "encode c tag TEosFloat128 v = rbind (as_pair v) (\<lambda>(low, high).
     Inr (case c of Rlp \<Rightarrow> writeUint64 c low @ writeUint64 c high | Db \<Rightarrow> pack_Float128 low high))"
| "encode c tag TUint128 v = rbind (as_pair v) (\<lambda>(low, high).
     Inr (case c of Rlp \<Rightarrow> writeUint64 c low @ writeUint64 c high | Db \<Rightarrow> pack_Uint128 low high))"
| "encode c tag (TArray n t) v = rbind (as_list v) (\<lambda>vs.
     eos_assert (n \<le> MAX_NUM_ARRAY_ELEMENT) AssertException
       (rbind (if c = Db \<and> tag \<noteq> ArrayTag then WriteUVarInt n else Inr []) (\<lambda>l.
        rbind (encode_list (encode c NoTag t) vs) (\<lambda>bs. Inr (l @ bs)))))"
| "encode c tag (TSlice t) v = rbind (as_list v) (\<lambda>vs.
     eos_assert (length vs \<le> MAX_NUM_ARRAY_ELEMENT) AssertException
       (rbind (WriteUVarInt (length vs)) (\<lambda>l.
        rbind (encode_list (encode c NoTag t) vs) (\<lambda>bs. Inr (l @ bs)))))"
| "encode c tag (TMap k t) v = rbind (as_map v) (\<lambda>ps.
     rbind (WriteUVarInt (length ps)) (\<lambda>l.
     rbind (encode_pairs (encode c NoTag k) (encode c NoTag t) ps) (\<lambda>bs. Inr (l @ bs))))"
| "encode c tag (TPtr t) v = rbind (deref v) (\<lambda>w.
     case t of TPtr _ \<Rightarrow> Inl ErrUnsupportedType | _ \<Rightarrow> encode c tag t w)"
| "encode c tag (TStruct fs) v = rbind (as_struct v) (\<lambda>vs.
     encode_fields (map (\<lambda>(tag, t). (tag, encode c tag t)) fs) vs)"

definition rlp_Encode :: "gotype \<Rightarrow> goval \<Rightarrow> bytes result" where
  "rlp_Encode = encode Rlp NoTag"

definition db_encode :: "gotype \<Rightarrow> goval \<Rightarrow> bytes result" where
  "db_encode = encode Db NoTag"

subsection \<open>Decoding\<close>

record Decoder =
  data :: bytes
  pos :: nat

definition unread :: "Decoder \<Rightarrow> bytes" where
  "unread d = drop (pos d) (data d)"

definition remaining :: "Decoder \<Rightarrow> int" where
  "remaining d = int (length (data d)) - int (pos d)"

definition read_bytes :: "nat \<Rightarrow> Decoder \<Rightarrow> (bytes \<times> Decoder) result" where
  "read_bytes n d =
     (if remaining d < int n then Inl ErrRemaining
      else Inr (take n (unread d), d\<lparr>pos := pos d + n\<rparr>))"

definition ReadByte :: "Decoder \<Rightarrow> (u8 \<times> Decoder) result" where
  "ReadByte d = rbind (read_bytes 1 d) (\<lambda>(b, d). Inr (hd b, d))"

definition ReadBool :: "Decoder \<Rightarrow> (bool \<times> Decoder) result" where
  "ReadBool d = rbind (ReadByte d) (\<lambda>(b, d). Inr (b \<noteq> 0, d))"

definition ReadUint16 :: "codec \<Rightarrow> Decoder \<Rightarrow> (u16 \<times> Decoder) result" where
  "ReadUint16 c d = rbind (read_bytes 2 d) (\<lambda>(b, d). Inr (case c of Rlp \<Rightarrow> Little b | Db \<Rightarrow> Big b, d))"

definition ReadUint32 :: "codec \<Rightarrow> Decoder \<Rightarrow> (u32 \<times> Decoder) result" where
  "ReadUint32 c d = rbind (read_bytes 4 d) (\<lambda>(b, d). Inr (case c of Rlp \<Rightarrow> Little b | Db \<Rightarrow> Big b, d))"

definition ReadUint64 :: "codec \<Rightarrow> Decoder \<Rightarrow> (u64 \<times> Decoder) result" where
  "ReadUint64 c d = rbind (read_bytes 8 d) (\<lambda>(b, d). Inr (case c of Rlp \<Rightarrow> Little b | Db \<Rightarrow> Big b, d))"

text \<open>Only the database decoder takes a number cut off by the end of the input for an error.\<close>

definition ReadUvarint64 :: "codec \<Rightarrow> Decoder \<Rightarrow> (u64 \<times> Decoder) result" where
  "ReadUvarint64 c d =
     (let (l, n) = Uvarint (unread d)
      in if n < 0 \<or> c = Db \<and> n = 0 then Inl ErrVarIntBufferSize else Inr (l, d\<lparr>pos := pos d + nat n\<rparr>))"

definition ReadVarint64 :: "Decoder \<Rightarrow> (u64 \<times> Decoder) result" where
  "ReadVarint64 d =
     rbind (ReadUvarint64 Rlp d) (\<lambda>(ux, d).
     let x = drop_bit 1 ux
     in Inr (if ux AND 1 \<noteq> 0 then NOT x else x, d))"

definition ReadVarint32 :: "Decoder \<Rightarrow> (u32 \<times> Decoder) result" where
  "ReadVarint32 d = rbind (ReadVarint64 d) (\<lambda>(n, d). Inr (ucast n, d))"

definition ReadUvarint32 :: "Decoder \<Rightarrow> (u32 \<times> Decoder) result" where
  "ReadUvarint32 d = rbind (ReadUvarint64 Rlp d) (\<lambda>(n, d). Inr (ucast n, d))"

definition ReadChecksum160 :: "Decoder \<Rightarrow> (bytes \<times> Decoder) result" where
  "ReadChecksum160 = read_bytes 20"

definition ReadChecksum256 :: "Decoder \<Rightarrow> (bytes \<times> Decoder) result" where
  "ReadChecksum256 = read_bytes 32"

definition ReadChecksum512 :: "Decoder \<Rightarrow> (bytes \<times> Decoder) result" where
  "ReadChecksum512 = read_bytes 64"

definition ReadUint128 :: "Decoder \<Rightarrow> (bytes \<times> Decoder) result" where
  "ReadUint128 = read_bytes 16"

text \<open>
  The end of the slice is computed in 64 bits and compared as a signed number; a length of
  more than 63 bits passes the test and the slice expression panics.
\<close>

definition ReadByteArray :: "codec \<Rightarrow> Decoder \<Rightarrow> (bytes \<times> Decoder) result" where
  "ReadByteArray c d =
     rbind (ReadUvarint64 c d) (\<lambda>(l, d).
     let high = sint (of_nat (pos d) + l :: u64)
     in if int (length (data d)) < high then Inl ErrValueTooLarge
        else if high < int (pos d) then Inl GoPanic
        else Inr (take (nat high - pos d) (unread d), d\<lparr>pos := nat high\<rparr>))"

definition read_key :: "nat \<Rightarrow> Decoder \<Rightarrow> (goval \<times> Decoder) result" where
  "read_key n d =
     rbind (read_bytes n d) (\<lambda>(b, d).
     if hd b = 0 \<or> hd b = 1 then Inr (VKey (hd b) (tl b), d) else Inl ErrCurve)"

definition unpack_Float64 :: "Decoder \<Rightarrow> (goval \<times> Decoder) result" where
  "unpack_Float64 d =
     rbind (ReadBool d) (\<lambda>(plus, d). rbind (ReadUint16 Db d) (\<lambda>(e, d). rbind (ReadUint64 Db d) (\<lambda>(frac, d).
     Inr (V64 (if plus then push_bit 48 (ucast (e AND 0x7FFF)) OR (frac AND 0xFFFEFFFFFFFFFFFF)
               else push_bit 48 (ucast ((0x8000 - e) OR 0x8000)) OR (0x0001000000000000 - frac)), d))))"

definition unpack_Float128 :: "Decoder \<Rightarrow> (goval \<times> Decoder) result" where
  "unpack_Float128 d =
     rbind (ReadBool d) (\<lambda>(plus, d). rbind (ReadUint16 Db d) (\<lambda>(e, d).
     rbind (ReadUint64 Db d) (\<lambda>(sig64, d). rbind (ReadUint64 Db d) (\<lambda>(sig0, d).
     Inr (if plus
          then VStruct [V64 sig0, V64 (push_bit 48 (ucast (e AND 0x7FFF)) OR (sig64 AND 0xFFFEFFFFFFFFFFFF))]
          else VStruct [V64 (0xFFFFFFFFFFFFFFFF - sig0),
                        V64 (push_bit 48 (ucast ((0x8000 - e) OR 0x8000)) OR (0x00010000000000FE - sig64))], d)))))"

definition unpack_Uint128 :: "codec \<Rightarrow> Decoder \<Rightarrow> (goval \<times> Decoder) result" where
  "unpack_Uint128 c d =
     rbind (ReadUint64 c d) (\<lambda>(a, d). rbind (ReadUint64 c d) (\<lambda>(b, d).
     Inr (case c of Rlp \<Rightarrow> VStruct [V64 a, V64 b] | Db \<Rightarrow> VStruct [V64 b, V64 a], d)))"

text \<open>An error in a variable-length 32-bit field is dropped; the field keeps its zero.\<close>

definition read_Vuint32 :: "codec \<Rightarrow> Decoder \<Rightarrow> (goval \<times> Decoder) result" where
  "read_Vuint32 c d =
     (case ReadUvarint64 c d of
        Inl e \<Rightarrow> Inr (V32 0, d)
      | Inr (l, d) \<Rightarrow> Inr (V32 (ucast l), d))"

fun zero_value :: "gotype \<Rightarrow> goval" where
  "zero_value TString = VBytes []"
| "zero_value TBool = VBool False"
| "zero_value TInt8 = V8 0" | "zero_value TUint8 = V8 0"
| "zero_value TInt16 = V16 0" | "zero_value TUint16 = V16 0"
| "zero_value TInt32 = V32 0" | "zero_value TUint32 = V32 0"
| "zero_value TInt = V64 0" | "zero_value TUint = V64 0"
| "zero_value TInt64 = V64 0" | "zero_value TUint64 = V64 0"
| "zero_value TFloat32 = V32 0" | "zero_value TFloat64 = V64 0"
| "zero_value TVuint32 = V32 0"
| "zero_value TPublicKey = VKey 0 (replicate 33 0)"
| "zero_value TSignature = VKey 0 []"
| "zero_value TEosFloat64 = V64 0"
| "zero_value TEosFloat128 = VStruct [V64 0, V64 0]"
| "zero_value TUint128 = VStruct [V64 0, V64 0]"
| "zero_value (TArray n t) = VList (replicate n (zero_value t))"
| "zero_value (TSlice t) = VList []"
| "zero_value (TMap k t) = VMap []"
| "zero_value (TPtr t) = VPtr None"
| "zero_value (TStruct fs) = VStruct (map (\<lambda>(tag, t). zero_value t) fs)"

fun decode_n :: "(Decoder \<Rightarrow> (goval \<times> Decoder) result) \<Rightarrow> nat \<Rightarrow> Decoder \<Rightarrow> (goval list \<times> Decoder) result" where
  "decode_n f 0 d = Inr ([], d)"
| "decode_n f (Suc n) d =
     rbind (f d) (\<lambda>(v, d). rbind (decode_n f n d) (\<lambda>(vs, d). Inr (v # vs, d)))"

fun SetMapIndex :: "goval \<Rightarrow> goval \<Rightarrow> (goval \<times> goval) list \<Rightarrow> (goval \<times> goval) list" where
  "SetMapIndex k v [] = [(k, v)]"
| "SetMapIndex k v ((k', v') # m) = (if k = k' then (k, v) # m else (k', v') # SetMapIndex k v m)"

fun decode_pairs :: "(Decoder \<Rightarrow> (goval \<times> Decoder) result) \<Rightarrow> (Decoder \<Rightarrow> (goval \<times> Decoder) result) \<Rightarrow> nat
    \<Rightarrow> (goval \<times> goval) list \<Rightarrow> Decoder \<Rightarrow> ((goval \<times> goval) list \<times> Decoder) result" where
  "decode_pairs fk fv 0 m d = Inr (m, d)"
| "decode_pairs fk fv (Suc n) m d =
     rbind (fk d) (\<lambda>(k, d). rbind (fv d) (\<lambda>(v, d). decode_pairs fk fv n (SetMapIndex k v m) d))"

text \<open>A missing presence byte of an optional field is read as absent.\<close>

fun decode_fields :: "(eostag \<times> goval \<times> (Decoder \<Rightarrow> (goval \<times> Decoder) result)) list \<Rightarrow> Decoder
    \<Rightarrow> (goval list \<times> Decoder) result" where
  "decode_fields [] d = Inr ([], d)"
| "decode_fields ((tag, zero, f) # fs) d =
     rbind
       (case tag of
          SkipTag \<Rightarrow> Inr (zero, d)
        | OptionalTag \<Rightarrow>
            (case ReadByte d of
               Inl _ \<Rightarrow> Inr (zero, d)
             | Inr (b, d) \<Rightarrow> if b = 0 then Inr (zero, d) else f d)
        | _ \<Rightarrow> f d)
       (\<lambda>(v, d). rbind (decode_fields fs d) (\<lambda>(vs, d). Inr (v # vs, d)))"

text \<open>\<open>MakeSlice\<close> with a negative length panics; memory is not limited here.\<close>

fun decode :: "codec \<Rightarrow> eostag \<Rightarrow> gotype \<Rightarrow> Decoder \<Rightarrow> (goval \<times> Decoder) result" where
  "decode c tag TString d = rbind (ReadByteArray c d) (\<lambda>(b, d). Inr (VBytes b, d))"
| "decode c tag TBool d = rbind (ReadBool d) (\<lambda>(b, d). Inr (VBool b, d))"
| "decode c tag TInt8 d = rbind (ReadByte d) (\<lambda>(n, d). Inr (V8 n, d))"
| "decode c tag TInt16 d = rbind (ReadUint16 c d) (\<lambda>(n, d). Inr (V16 n, d))"
| "decode c tag TInt32 d = rbind (ReadUint32 c d) (\<lambda>(n, d). Inr (V32 n, d))"
| "decode c tag TInt d = rbind (ReadUint32 c d) (\<lambda>(n, d). Inr (V64 (ucast n), d))"
| "decode c tag TInt64 d = rbind (ReadUint64 c d) (\<lambda>(n, d). Inr (V64 n, d))"
| "decode c tag TUint8 d = rbind (ReadByte d) (\<lambda>(n, d). Inr (V8 n, d))"
| "decode c tag TUint16 d = rbind (ReadUint16 c d) (\<lambda>(n, d). Inr (V16 n, d))"
| "decode c tag TUint32 d =
     (if c = Db \<and> tag = Vuint32Tag then read_Vuint32 c d
      else rbind (ReadUint32 c d) (\<lambda>(n, d). Inr (V32 n, d)))"
| "decode c tag TUint d = rbind (ReadUint32 c d) (\<lambda>(n, d). Inr (V64 (ucast n), d))"
| "decode c tag TUint64 d = rbind (ReadUint64 c d) (\<lambda>(n, d). Inr (V64 n, d))"
| "decode c tag TFloat32 d =
     (if c = Db then Inl ErrUnsupportedType else rbind (ReadUint32 c d) (\<lambda>(n, d). Inr (V32 n, d)))"
| "decode c tag TFloat64 d =
     (if c = Db then Inl ErrUnsupportedType else rbind (ReadUint64 c d) (\<lambda>(n, d). Inr (V64 n, d)))"
| "decode c tag TVuint32 d =
     (if c = Rlp \<or> tag = Vuint32Tag then read_Vuint32 c d
      else rbind (ReadUint32 c d) (\<lambda>(n, d). Inr (V32 n, d)))"
| "decode c tag TPublicKey d = read_key 34 d"
| "decode c tag TSignature d = read_key 66 d"
| "decode c tag TEosFloat64 d =
     (case c of Rlp \<Rightarrow> rbind (ReadUint64 c d) (\<lambda>(n, d). Inr (V64 n, d)) | Db \<Rightarrow> unpack_Float64 d)"
| "decode c tag TEosFloat128 d = (case c of Rlp \<Rightarrow> unpack_Uint128 c d | Db \<Rightarrow> unpack_Float128 d)"
| "decode c tag TUint128 d = unpack_Uint128 c d"
| "decode c tag (TArray n t) d =
     rbind (if c = Db \<and> tag \<noteq> ArrayTag then rbind (ReadUvarint64 c d) (\<lambda>(l, d). Inr d) else Inr d) (\<lambda>d.
     rbind (decode_n (decode c NoTag t) n d) (\<lambda>(vs, d). Inr (VList vs, d)))"
| "decode c tag (TSlice t) d =
     rbind (ReadUvarint64 c d) (\<lambda>(l, d).
     if sint l < 0 then Inl GoPanic
     else rbind (decode_n (decode c NoTag t) (unat l) d) (\<lambda>(vs, d). Inr (VList vs, d)))"
| "decode c tag (TMap k t) d =
     rbind (ReadUvarint64 c d) (\<lambda>(l, d).
     rbind (decode_pairs (decode c NoTag k) (decode c NoTag t) (nat (sint l)) [] d) (\<lambda>(m, d). Inr (VMap m, d)))"
| "decode c tag (TPtr t) d =
     (case t of
        TPtr _ \<Rightarrow> Inl ErrUnsupportedType
      | _ \<Rightarrow> rbind (decode c tag t d) (\<lambda>(v, d). Inr (VPtr (Some v), d)))"
| "decode c tag (TStruct fs) d =
     rbind (decode_fields (map (\<lambda>(tag, t). (tag, zero_value t, decode c tag t)) fs) d)
       (\<lambda>(vs, d). Inr (VStruct vs, d))"

definition rlp_Decode :: "gotype \<Rightarrow> bytes \<Rightarrow> (goval \<times> Decoder) result" where
  "rlp_Decode t b = decode Rlp NoTag t \<lparr>data = b, pos = 0\<rparr>"

definition db_decode :: "gotype \<Rightarrow> bytes \<Rightarrow> (goval \<times> Decoder) result" where
  "db_decode t b = decode Db NoTag t \<lparr>data = b, pos = 0\<rparr>"

section \<open>Types and values\<close>

definition is_ok :: "'a result \<Rightarrow> bool" where
  "is_ok r = (case r of Inr _ \<Rightarrow> True | Inl _ \<Rightarrow> False)"

fun has_type :: "gotype \<Rightarrow> goval \<Rightarrow> bool" where
  "has_type TString v = is_ok (as_bytes v)"
| "has_type TBool v = is_ok (as_bool v)"
| "has_type TInt8 v = is_ok (as_8 v)" | "has_type TUint8 v = is_ok (as_8 v)"
| "has_type TInt16 v = is_ok (as_16 v)" | "has_type TUint16 v = is_ok (as_16 v)"
| "has_type TInt32 v = is_ok (as_32 v)" | "has_type TUint32 v = is_ok (as_32 v)"
| "has_type TInt v = is_ok (as_64 v)" | "has_type TUint v = is_ok (as_64 v)"
| "has_type TInt64 v = is_ok (as_64 v)" | "has_type TUint64 v = is_ok (as_64 v)"
| "has_type TFloat32 v = is_ok (as_32 v)" | "has_type TFloat64 v = is_ok (as_64 v)"
| "has_type TVuint32 v = is_ok (as_32 v)"
| "has_type TPublicKey v = (case v of VKey curve content \<Rightarrow> length content = 33 | _ \<Rightarrow> False)"
| "has_type TSignature v = is_ok (as_key v)"
| "has_type TEosFloat64 v = is_ok (as_64 v)"
| "has_type TEosFloat128 v = is_ok (as_pair v)"
| "has_type TUint128 v = is_ok (as_pair v)"
| "has_type (TArray n t) v = (case v of VList vs \<Rightarrow> length vs = n \<and> list_all (has_type t) vs | _ \<Rightarrow> False)"
| "has_type (TSlice t) v = (case v of VList vs \<Rightarrow> list_all (has_type t) vs | _ \<Rightarrow> False)"
| "has_type (TMap k t) v =
     (case v of VMap ps \<Rightarrow> list_all (\<lambda>p. has_type k (fst p) \<and> has_type t (snd p)) ps \<and>
        distinct (map fst ps) | _ \<Rightarrow> False)"
| "has_type (TPtr t) v =
     (case v of VPtr p \<Rightarrow> (case p of None \<Rightarrow> True | Some w \<Rightarrow> has_type t w) | _ \<Rightarrow> False)"
| "has_type (TStruct fs) v =
     (case v of VStruct vs \<Rightarrow> list_all2 (\<lambda>p w. p w) (map (\<lambda>(tag, t). has_type t) fs) vs | _ \<Rightarrow> False)"

text \<open>Array tags stand on arrays and vuint32 tags on 32-bit numbers only.\<close>

fun well_tagged :: "gotype \<Rightarrow> bool" where
  "well_tagged (TArray n t) = well_tagged t"
| "well_tagged (TSlice t) = well_tagged t"
| "well_tagged (TMap k t) = (well_tagged k \<and> well_tagged t)"
| "well_tagged (TPtr t) = well_tagged t"
| "well_tagged (TStruct fs) =
     list_all (\<lambda>(tag, t). (tag = ArrayTag \<longrightarrow> (case t of TArray _ _ \<Rightarrow> True | _ \<Rightarrow> False)) \<and>
       (tag = Vuint32Tag \<longrightarrow> t = TUint32 \<or> t = TVuint32) \<and> well_tagged t) fs"
| "well_tagged _ = True"

text \<open>
  What a decoder makes of an encoded value: fields left out are zero again, and an empty
  signature is written as 65 zero bytes.
\<close>

fun norm :: "gotype \<Rightarrow> goval \<Rightarrow> goval" where
  "norm TSignature v = (case v of VKey curve [] \<Rightarrow> VKey 0 (replicate 65 0) | _ \<Rightarrow> v)"
| "norm (TArray n t) v = (case v of VList vs \<Rightarrow> VList (map (norm t) vs) | _ \<Rightarrow> v)"
| "norm (TSlice t) v = (case v of VList vs \<Rightarrow> VList (map (norm t) vs) | _ \<Rightarrow> v)"
| "norm (TMap k t) v = (case v of VMap ps \<Rightarrow> VMap (map (map_prod (norm k) (norm t)) ps) | _ \<Rightarrow> v)"
| "norm (TPtr t) v = (case v of VPtr p \<Rightarrow> VPtr (map_option (norm t) p) | _ \<Rightarrow> v)"
| "norm (TStruct fs) v =
     (case v of
        VStruct vs \<Rightarrow>
          VStruct (map2 (\<lambda>f w. f w) (map (\<lambda>(tag, t). if tag = SkipTag then (\<lambda>_. zero_value t) else norm t) fs) vs)
      | _ \<Rightarrow> v)"
| "norm _ v = v"

text \<open>
  Values that survive: a Go \<open>int\<close> or \<open>uint\<close> that is not negative and fits into 32 bits, keys
  on a known curve, and map keys that stay apart.
\<close>

fun survives :: "gotype \<Rightarrow> goval \<Rightarrow> bool" where
  "survives TInt v = (case v of V64 w \<Rightarrow> w < 0x100000000 | _ \<Rightarrow> False)"
| "survives TUint v = (case v of V64 w \<Rightarrow> w < 0x100000000 | _ \<Rightarrow> False)"
| "survives TPublicKey v = (case v of VKey curve content \<Rightarrow> curve = 0 \<or> curve = 1 | _ \<Rightarrow> False)"
| "survives TSignature v = (case v of VKey curve content \<Rightarrow> curve = 0 \<or> curve = 1 | _ \<Rightarrow> False)"
| "survives (TArray n t) v = (case v of VList vs \<Rightarrow> list_all (survives t) vs | _ \<Rightarrow> False)"
| "survives (TSlice t) v = (case v of VList vs \<Rightarrow> list_all (survives t) vs | _ \<Rightarrow> False)"
| "survives (TMap k t) v =
     (case v of VMap ps \<Rightarrow> list_all (\<lambda>p. survives k (fst p) \<and> survives t (snd p)) ps \<and>
        distinct (map (norm k \<circ> fst) ps) | _ \<Rightarrow> False)"
| "survives (TPtr t) v =
     (case v of VPtr p \<Rightarrow> (case p of None \<Rightarrow> True | Some w \<Rightarrow> survives t w) | _ \<Rightarrow> False)"
| "survives (TStruct fs) v =
     (case v of
        VStruct vs \<Rightarrow>
          list_all2 (\<lambda>p w. p w) (map (\<lambda>(tag, t). if tag = SkipTag then (\<lambda>_. True) else survives t) fs) vs
      | _ \<Rightarrow> False)"
| "survives _ v = True"

section \<open>Reading what was written\<close>

definition advance :: "nat \<Rightarrow> Decoder \<Rightarrow> Decoder" where
  "advance n d = d\<lparr>pos := pos d + n\<rparr>"

text \<open>A decoder that finds the given bytes next takes exactly these and returns the value.\<close>

definition reads :: "(Decoder \<Rightarrow> ('a \<times> Decoder) result) \<Rightarrow> bytes \<Rightarrow> 'a \<Rightarrow> bool" where
  "reads f bs x \<longleftrightarrow>
     (\<forall>d r. length (data d) < 2 ^ 63 \<longrightarrow> unread d = bs @ r \<longrightarrow> f d = Inr (x, advance (length bs) d))"

lemma advance_simps [simp]:
  "data (advance n d) = data d" "pos (advance n d) = pos d + n" "advance 0 d = d"
  "unread (advance n d) = drop n (unread d)" "advance m (advance n d) = advance (n + m) d"
  by (simp_all add: advance_def unread_def add.commute)

lemma reads_unit: "reads (\<lambda>d. Inr (x, d)) [] x"
  by (simp add: reads_def)

lemma reads_bind:
  assumes "reads f a x" "reads (g x) b y"
  shows "reads (\<lambda>d. rbind (f d) (\<lambda>(x, d). g x d)) (a @ b) y"
  unfolding reads_def
proof (intro allI impI)
  fix d r assume d: "length (data d) < 2 ^ 63" "unread d = (a @ b) @ r"
  then have "f d = Inr (x, advance (length a) d)" using assms(1) unfolding reads_def by (metis append.assoc)
  moreover have "g x (advance (length a) d) = Inr (y, advance (length b) (advance (length a) d))"
    using assms(2) d unfolding reads_def by (metis advance_simps(1, 4) append.assoc append_eq_conv_conj)
  ultimately show "rbind (f d) (\<lambda>(x, d). g x d) = Inr (y, advance (length (a @ b)) d)" by simp
qed

lemma reads_map:
  assumes "reads f a x"
  shows "reads (\<lambda>d. rbind (f d) (\<lambda>(x, d). Inr (h x, d))) a (h x)"
  using reads_bind [OF assms, of "\<lambda>x d. Inr (h x, d)" "[]" "h x"] by (simp add: reads_unit)

lemma unread_length: "unread d = b # bs \<Longrightarrow> remaining d = int (length (b # bs))"
proof -
  assume u: "unread d = b # bs"
  then have "pos d < length (data d)" by (metis drop_all leI list.distinct(1) unread_def)
  moreover have "length (data d) - pos d = length (b # bs)" using u by (metis length_drop unread_def)
  ultimately show ?thesis by (simp add: remaining_def)
qed

lemma reads_bytes: "bs \<noteq> [] \<Longrightarrow> reads (read_bytes (length bs)) bs bs"
  unfolding reads_def read_bytes_def
  by (cases bs) (auto simp: advance_def dest: unread_length)

lemma reads_read:
  assumes "length bs = n" "0 < n" "h bs = x"
  shows "reads (\<lambda>d. rbind (read_bytes n d) (\<lambda>(b, d). Inr (h b, d))) bs x"
proof -
  have "reads (read_bytes n) bs bs" using reads_bytes [of bs] assms(1, 2) by auto
  from reads_map [OF this, of h] assms(3) show ?thesis by simp
qed

lemma reads_byte: "reads ReadByte [b] b"
  unfolding ReadByte_def [abs_def] by (rule reads_read) simp_all

lemma reads_bool: "reads ReadBool (writeBool b) b"
  unfolding ReadBool_def [abs_def] writeBool_def
  using reads_map [OF reads_byte [of "if b then 1 else 0"], of "\<lambda>b. b \<noteq> 0"] by (cases b) simp_all

lemma reads_uint:
  "reads (ReadUint16 c) (writeUint16 c w16) w16"
  "reads (ReadUint32 c) (writeUint32 c w32) w32"
  "reads (ReadUint64 c) (writeUint64 c w64) w64"
  unfolding ReadUint16_def [abs_def] ReadUint32_def [abs_def] ReadUint64_def [abs_def]
    writeUint16_def writeUint32_def writeUint64_def
  by (rule reads_read; cases c; simp add: Little_PutLittle Big_PutBig)+

lemma WriteUVarInt_Inr: "WriteUVarInt n = Inr bs \<longleftrightarrow> bs = PutUvarint n \<and> length (PutUvarint n) \<le> 8"
  by (auto simp: WriteUVarInt_def)

lemma PutUvarint_bound: "length (PutUvarint n) \<le> k \<Longrightarrow> n < 128 ^ k"
proof (induction n arbitrary: k rule: PutUvarint.induct)
  case (1 n)
  show ?case
  proof (cases "n < 128")
    case True
    have "0 < length (PutUvarint n)" using PutUvarint_nonempty [of n] by (simp only: length_greater_0_conv) simp
    then have "k \<noteq> 0" using 1(2) by linarith
    then have "(128 :: nat) ^ 1 \<le> 128 ^ k" by (intro power_increasing) auto
    with True show ?thesis by simp
  next
    case False
    then have "Suc (length (PutUvarint (n div 128))) \<le> k" using 1(2) by (simp add: PutUvarint.simps [of n])
    then obtain j where j: "k = Suc j" "length (PutUvarint (n div 128)) \<le> j" by (cases k) auto
    then have "n div 128 < 128 ^ j" using 1(1) [OF False] by blast
    then show ?thesis using j(1) by (simp add: div_less_iff_less_mult mult.commute)
  qed
qed

lemma reads_uvarint:
  assumes "WriteUVarInt n = Inr bs"
  shows "reads (ReadUvarint64 c) bs (of_nat n)" "n < 2 ^ 56"
proof -
  have bs: "bs = PutUvarint n" "n < 128 ^ 8" using assms PutUvarint_bound [of n 8] by (auto simp: WriteUVarInt_Inr)
  then show "n < 2 ^ 56" by simp
  then have "Uvarint (bs @ r) = (of_nat n, int (length bs))" for r using Uvarint_Put [of n r] bs(1) by simp
  moreover have "bs \<noteq> []" using bs(1) by simp
  ultimately show "reads (ReadUvarint64 c) bs (of_nat n)"
    by (auto simp: reads_def ReadUvarint64_def advance_def)
qed

text \<open>Signed variable-length numbers round trip as well.\<close>

lemma msb63: "sint (v :: u64) < 0 \<longleftrightarrow> bit v 63"
  using bit_last_iff [of v] by simp

lemma zigzag:
  fixes v :: u64
  defines "ux \<equiv> push_bit 1 v"
  defines "z \<equiv> if sint v < 0 then NOT ux else ux"
  shows "(if z AND 1 \<noteq> 0 then NOT (drop_bit 1 z) else drop_bit 1 z) = v"
proof -
  have u: "bit ux n \<longleftrightarrow> 1 \<le> n \<and> n < 64 \<and> bit v (n - 1)" for n
    unfolding ux_def by (subst bit_push_bit_iff) (auto simp: possible_bit_word)
  have z: "bit z n \<longleftrightarrow> n < 64 \<and> (if bit v 63 then \<not> bit ux n else bit ux n)" for n
    unfolding z_def msb63 using u [of n] by (auto simp: bit_not_iff possible_bit_word)
  have o: "z AND 1 \<noteq> 0 \<longleftrightarrow> bit v 63" using z [of 0] u [of 0] by (simp add: and_one_eq odd_iff_mod_2_eq_one bit_0)
  show ?thesis unfolding o
  proof (rule bit_word_eqI)
    fix n assume n: "n < LENGTH(64)"
    have d: "bit (drop_bit 1 z) n \<longleftrightarrow> bit z (Suc n)" by (subst bit_drop_bit_eq) simp
    show "bit (if bit v 63 then NOT (drop_bit 1 z) else drop_bit 1 z) n = bit v n"
      using n u [of "Suc n"] z [of "Suc n"] d by (cases "n = 63") (simp_all add: bit_not_iff possible_bit_word del: drop_bit_Suc)
  qed
qed

lemma reads_varint:
  assumes "WriteVarInt v = Inr bs"
  shows "reads ReadVarint64 bs v"
proof -
  let ?z = "if sint v < 0 then NOT (push_bit 1 v) else push_bit 1 v"
  have "WriteUVarInt (unat ?z) = Inr bs" using assms by (simp only: WriteVarInt_def Let_def)
  from reads_uvarint(1) [OF this, of Rlp] have "reads (ReadUvarint64 Rlp) bs ?z" by (simp only: of_nat_unat ucast_id)
  from reads_map [OF this, where h = "\<lambda>ux. if ux AND 1 \<noteq> 0 then NOT (drop_bit 1 ux) else drop_bit 1 ux"]
  show ?thesis unfolding ReadVarint64_def [abs_def] Let_def zigzag .
qed

lemma sint_of_nat64: "m < 2 ^ 63 \<Longrightarrow> sint (of_nat m :: u64) = int m"
  by (simp add: signed_of_nat signed_take_bit_int_eq_self_iff)

lemma reads_byte_array:
  assumes "writeByteArray b = Inr bs"
  shows "reads (ReadByteArray c) bs b"
  unfolding reads_def
proof (intro allI impI)
  fix d r assume d: "length (data d) < 2 ^ 63" "unread d = bs @ r"
  obtain l where l: "WriteUVarInt (length b) = Inr l" "bs = l @ b"
    using assms by (auto simp: writeByteArray_def result_iffs)
  have l0: "l \<noteq> []" using l(1) by (auto simp: WriteUVarInt_Inr)
  let ?d = "advance (length l) d"
  have u: "unread d = l @ (b @ r)" using d(2) l(2) by simp
  then have r: "ReadUvarint64 c d = Inr (of_nat (length b), ?d)"
    using reads_uvarint(1) [OF l(1)] d(1) by (auto simp: reads_def)
  have "length (data d) - pos d = length l + length b + length r" using u by (metis append.assoc length_append length_drop unread_def)
  then have fit: "pos d + length l + length b \<le> length (data d)" using l0 by (cases l) auto
  then have s: "sint (of_nat (pos ?d) + of_nat (length b) :: u64) = int (pos d + length l + length b)"
    using sint_of_nat64 [of "pos d + length l + length b"] d(1) by simp
  have "drop (pos d + length l) (data d) = b @ r" using u by (metis add.commute append_eq_conv_conj drop_drop unread_def)
  then show "ReadByteArray c d = Inr (b, advance (length bs) d)"
    using r s fit l(2) by (simp add: ReadByteArray_def advance_def unread_def nat_add_distrib)
qed

text \<open>The sortable floating-point forms lose nothing.\<close>

lemma split48: "(w :: u64) = push_bit 48 (drop_bit 48 w) OR (w AND 0x0000FFFFFFFFFFFF)"
proof -
  have m: "(0x0000FFFFFFFFFFFF :: u64) = mask 48" by (simp add: mask_eq_exp_minus_1)
  show ?thesis unfolding m
    by (intro bit_eqI) (auto simp: bit_or_iff bit_push_bit_iff bit_drop_bit_eq bit_and_iff bit_mask_iff)
qed

lemma top_bits:
  fixes w :: u64
  defines "t \<equiv> (ucast (drop_bit 48 w) :: u16)"
  shows "ucast t = drop_bit 48 w" "drop_bit 63 w = 0 \<longleftrightarrow> t AND 0x7FFF = t" "drop_bit 63 w \<noteq> 0 \<Longrightarrow> (t AND 0x7FFF) OR 0x8000 = t"
proof -
  have b: "bit t i \<longleftrightarrow> i < 16 \<and> bit w (48 + i)" for i
    by (auto simp: t_def bit_ucast_iff bit_drop_bit_eq)
  show "ucast t = drop_bit 48 w"
    by (intro bit_eqI) (auto simp: bit_ucast_iff b bit_drop_bit_eq dest: bit_imp_le_length)
  have m: "(0x7FFF :: u16) = mask 15" by (simp add: mask_eq_exp_minus_1)
  have "bit (2 ^ 15 :: u16) n \<longleftrightarrow> n = 15" for n by (subst bit_exp_iff) (auto simp: possible_bit_word)
  then have h: "bit (0x8000 :: u16) n \<longleftrightarrow> n = 15" for n by simp
  have z: "drop_bit 63 w = 0 \<longleftrightarrow> \<not> bit w 63"
  proof -
    have "bit (drop_bit 63 w) n \<longleftrightarrow> n = 0 \<and> bit w 63" for n
      by (cases "n = 0") (auto simp: bit_drop_bit_eq dest: bit_imp_le_length)
    then show ?thesis by (metis bit_0_eq bot_apply bot_bool_def bit_eqI)
  qed
  show "drop_bit 63 w = 0 \<longleftrightarrow> t AND 0x7FFF = t"
  proof
    assume "drop_bit 63 w = 0"
    then have "\<not> bit w 63" using z by simp
    then have "bit t i \<Longrightarrow> i < 15" for i using b [of i] by (cases "i = 15") (auto simp: less_Suc_eq)
    then show "t AND 0x7FFF = t" unfolding m by (intro bit_eqI) (auto simp: bit_and_iff bit_mask_iff)
  next
    assume "t AND 0x7FFF = t"
    then have "\<not> bit t 15" unfolding m by (metis bit_and_iff bit_mask_iff less_irrefl)
    then show "drop_bit 63 w = 0" using b [of 15] z by simp
  qed
  assume "drop_bit 63 w \<noteq> 0"
  then have "bit t 15" using b [of 15] z by simp
  have "bit ((t AND 0x7FFF) OR 0x8000) n = bit t n" if "n < 16" for n
    unfolding m bit_or_iff bit_and_iff bit_mask_iff h using \<open>bit t 15\<close> that
    by (cases "n = 15") (auto simp: less_Suc_eq possible_bit_word)
  then show "(t AND 0x7FFF) OR 0x8000 = t" by (intro bit_eqI) (simp add: possible_bit_word)
qed

lemma reads_sign_exp_frac:
  "reads (\<lambda>d. rbind (ReadBool d) (\<lambda>(p, d). rbind (ReadUint16 Db d) (\<lambda>(e, d). rbind (ReadUint64 Db d) (\<lambda>(f, d).
     Inr (h p e f, d))))) (writeBool p @ writeUint16 Db e @ writeUint64 Db f) (h p e f)"
proof -
  note 3 = reads_map [OF reads_uint(3) [of Db f], where h = "h p e"]
  note 2 = reads_bind [OF reads_uint(1), where g = "\<lambda>e d. rbind (ReadUint64 Db d) (\<lambda>(f, d). Inr (h p e f, d))", OF 3]
  show ?thesis
    by (rule reads_bind [OF reads_bool, where g = "\<lambda>p d. rbind (ReadUint16 Db d) (\<lambda>(e, d).
        rbind (ReadUint64 Db d) (\<lambda>(f, d). Inr (h p e f, d)))", OF 2])
qed

lemma reads_sign_exp_frac2:
  "reads (\<lambda>d. rbind (ReadBool d) (\<lambda>(p, d). rbind (ReadUint16 Db d) (\<lambda>(e, d). rbind (ReadUint64 Db d) (\<lambda>(f, d).
     rbind (ReadUint64 Db d) (\<lambda>(g, d). Inr (h p e f g, d))))))
     (writeBool p @ writeUint16 Db e @ writeUint64 Db f @ writeUint64 Db g) (h p e f g)"
proof -
  note 4 = reads_map [OF reads_uint(3) [of Db g], where h = "h p e f"]
  note 3 = reads_bind [OF reads_uint(3), where g = "\<lambda>f d. rbind (ReadUint64 Db d) (\<lambda>(g, d). Inr (h p e f g, d))", OF 4]
  note 2 = reads_bind [OF reads_uint(1), where g = "\<lambda>e d. rbind (ReadUint64 Db d) (\<lambda>(f, d).
      rbind (ReadUint64 Db d) (\<lambda>(g, d). Inr (h p e f g, d)))", OF 3]
  show ?thesis
    by (rule reads_bind [OF reads_bool, where g = "\<lambda>p d. rbind (ReadUint16 Db d) (\<lambda>(e, d).
        rbind (ReadUint64 Db d) (\<lambda>(f, d). rbind (ReadUint64 Db d) (\<lambda>(g, d). Inr (h p e f g, d))))", OF 2])
qed

lemma plus_form:
  fixes w :: u64
  assumes "drop_bit 63 w = 0"
  shows "push_bit 48 (ucast ((ucast (drop_bit 48 w) OR 0x8000 :: u16) AND 0x7FFF)) OR
    ((w AND 0x0000FFFFFFFFFFFF OR 0x0001000000000000) AND 0xFFFEFFFFFFFFFFFF) = w"
proof -
  let ?t = "ucast (drop_bit 48 w) :: u16"
  have "(?t OR 0x8000) AND 0x7FFF = ?t AND 0x7FFF" by (simp add: bit.conj_disj_distrib2)
  also have "\<dots> = ?t" using top_bits(2) [of w] assms by simp
  finally have e: "ucast ((?t OR 0x8000) AND 0x7FFF) = drop_bit 48 w" using top_bits(1) [of w] by simp
  have "(w AND 0x0000FFFFFFFFFFFF OR 0x0001000000000000) AND 0xFFFEFFFFFFFFFFFF = w AND 0x0000FFFFFFFFFFFF"
    by (simp add: bit.conj_disj_distrib2 and.assoc)
  with e show ?thesis using split48 [of w] by simp
qed

lemma minus_form:
  fixes w :: u64
  assumes "drop_bit 63 w \<noteq> 0"
  shows "push_bit 48 (ucast ((0x8000 - (0x8000 - (ucast (drop_bit 48 w) AND 0x7FFF :: u16))) OR 0x8000)) OR
    (k - (k - (w AND 0x0000FFFFFFFFFFFF))) = w"
proof -
  have "ucast ((0x8000 - (0x8000 - (ucast (drop_bit 48 w) AND 0x7FFF :: u16))) OR 0x8000) = drop_bit 48 w"
    using top_bits(1, 3) [of w] assms by simp
  then show ?thesis using split48 [of w] by simp
qed

lemma reads_Float64: "reads unpack_Float64 (pack_Float64 w) (V64 w)"
proof -
  let ?h = "\<lambda>plus e frac. V64 (if plus then push_bit 48 (ucast (e AND 0x7FFF)) OR (frac AND 0xFFFEFFFFFFFFFFFF)
      else push_bit 48 (ucast ((0x8000 - e) OR 0x8000 :: u16)) OR (0x0001000000000000 - frac))"
  show ?thesis
  proof (cases "drop_bit 63 w = 0")
    case True
    then show ?thesis unfolding unpack_Float64_def [abs_def] pack_Float64_def
      using reads_sign_exp_frac [of ?h True "ucast (drop_bit 48 w) OR 0x8000"
          "w AND 0x0000FFFFFFFFFFFF OR 0x0001000000000000"] plus_form [OF True] by simp
  next
    case False
    then show ?thesis unfolding unpack_Float64_def [abs_def] pack_Float64_def
      using reads_sign_exp_frac [of ?h False "0x8000 - (ucast (drop_bit 48 w) AND 0x7FFF)"
          "0x0001000000000000 - (w AND 0x0000FFFFFFFFFFFF)"] minus_form [OF False, of "0x0001000000000000"] by simp
  qed
qed

lemma reads_Float128: "reads unpack_Float128 (pack_Float128 low w) (VStruct [V64 low, V64 w])"
proof -
  let ?h = "\<lambda>plus e sig64 sig0. if plus
      then VStruct [V64 sig0, V64 (push_bit 48 (ucast (e AND 0x7FFF)) OR (sig64 AND 0xFFFEFFFFFFFFFFFF))]
      else VStruct [V64 (0xFFFFFFFFFFFFFFFF - sig0),
        V64 (push_bit 48 (ucast ((0x8000 - e) OR 0x8000 :: u16)) OR (0x00010000000000FE - sig64))]"
  show ?thesis
  proof (cases "drop_bit 63 w = 0")
    case True
    then show ?thesis unfolding unpack_Float128_def [abs_def] pack_Float128_def
      using reads_sign_exp_frac2 [of ?h True "ucast (drop_bit 48 w) OR 0x8000"
          "w AND 0x0000FFFFFFFFFFFF OR 0x0001000000000000" low] plus_form [OF True] by simp
  next
    case False
    then show ?thesis unfolding unpack_Float128_def [abs_def] pack_Float128_def
      using reads_sign_exp_frac2 [of ?h False "0x8000 - (ucast (drop_bit 48 w) AND 0x7FFF)"
          "0x00010000000000FE - (w AND 0x0000FFFFFFFFFFFF)" "0xFFFFFFFFFFFFFFFF - low"]
        minus_form [OF False, of "0x00010000000000FE"] by simp
  qed
qed

lemma reads_Uint128:
  "reads (unpack_Uint128 Rlp) (writeUint64 Rlp low @ writeUint64 Rlp high) (VStruct [V64 low, V64 high])"
  "reads (unpack_Uint128 Db) (pack_Uint128 low high) (VStruct [V64 low, V64 high])"
proof -
  have "reads (unpack_Uint128 c) (writeUint64 c a @ writeUint64 c b)
      (case c of Rlp \<Rightarrow> VStruct [V64 a, V64 b] | Db \<Rightarrow> VStruct [V64 b, V64 a])" for c a b
    unfolding unpack_Uint128_def [abs_def]
    by (rule reads_bind [OF reads_uint(3), where g = "\<lambda>a d. rbind (ReadUint64 c d) (\<lambda>(b, d).
        Inr (case c of Rlp \<Rightarrow> VStruct [V64 a, V64 b] | Db \<Rightarrow> VStruct [V64 b, V64 a], d))",
        OF reads_map [OF reads_uint(3)]])
  from this [of Rlp low high] this [of Db high low]
  show "reads (unpack_Uint128 Rlp) (writeUint64 Rlp low @ writeUint64 Rlp high) (VStruct [V64 low, V64 high])"
    "reads (unpack_Uint128 Db) (pack_Uint128 low high) (VStruct [V64 low, V64 high])"
    by (simp_all add: pack_Uint128_def)
qed

section \<open>Round trip\<close>

lemma accessors [simp]:
  "is_ok (as_bytes v) \<longleftrightarrow> (\<exists>b. v = VBytes b)" "as_bytes (VBytes b) = Inr b"
  "is_ok (as_bool v) \<longleftrightarrow> (\<exists>x. v = VBool x)" "as_bool (VBool x) = Inr x"
  "is_ok (as_8 v) \<longleftrightarrow> (\<exists>w. v = V8 w)" "as_8 (V8 w8) = Inr w8"
  "is_ok (as_16 v) \<longleftrightarrow> (\<exists>w. v = V16 w)" "as_16 (V16 w16) = Inr w16"
  "is_ok (as_32 v) \<longleftrightarrow> (\<exists>w. v = V32 w)" "as_32 (V32 w32) = Inr w32"
  "is_ok (as_64 v) \<longleftrightarrow> (\<exists>w. v = V64 w)" "as_64 (V64 w64) = Inr w64"
  "is_ok (as_key v) \<longleftrightarrow> (\<exists>a b. v = VKey a b)" "as_key (VKey a b) = Inr (a, b)"
  "as_pair (VStruct [V64 low, V64 high]) = Inr (low, high)"
  "as_list (VList vs) = Inr vs" "as_map (VMap ps) = Inr ps" "as_struct (VStruct vs) = Inr vs"
  "deref (VPtr (Some v)) = Inr v" "deref (VPtr None) = Inl GoPanic"
  by (auto simp: is_ok_def as_bytes_def as_bool_def as_8_def as_16_def as_32_def as_64_def as_key_def as_pair_def
      as_list_def as_map_def as_struct_def deref_def split: goval.splits)

lemma as_pair_ok [simp]: "is_ok (as_pair v) \<longleftrightarrow> (\<exists>low high. v = VStruct [V64 low, V64 high])"
  by (auto simp: is_ok_def as_pair_def split: goval.splits list.splits sum.splits)

lemma reads_cong: "(\<And>d. f d = g d) \<Longrightarrow> reads g bs x \<Longrightarrow> reads f bs x"
  by (simp add: reads_def)

lemma reads_n:
  assumes "\<And>v b. v \<in> set vs \<Longrightarrow> e v = Inr b \<Longrightarrow> reads f b (g v)" "encode_list e vs = Inr bs"
  shows "reads (decode_n f (length vs)) bs (map g vs)"
  using assms
proof (induction vs arbitrary: bs)
  case Nil
  then show ?case by (simp add: reads_unit reads_cong [OF decode_n.simps(1)])
next
  case (Cons v vs)
  then obtain b bs' where b: "e v = Inr b" "encode_list e vs = Inr bs'" "bs = b @ bs'" by (auto simp: result_iffs)
  have "reads (decode_n f (length vs)) bs' (map g vs)" using Cons b(2) by auto
  note 1 = reads_map [OF this, where h = "\<lambda>vs. g v # vs"]
  have "reads f b (g v)" using Cons.prems(1) b(1) by simp
  from reads_bind [OF this, where g = "\<lambda>v d. rbind (decode_n f (length vs) d) (\<lambda>(vs, d). Inr (v # vs, d))", OF 1]
  show ?case using b(3) by (auto intro: reads_cong [OF decode_n.simps(2)])
qed

lemma SetMapIndex_new: "k \<notin> fst ` set m \<Longrightarrow> SetMapIndex k v m = m @ [(k, v)]"
  by (induction m) auto

lemma reads_pairs:
  assumes "\<And>k v b. (k, v) \<in> set ps \<Longrightarrow> ek k = Inr b \<Longrightarrow> reads fk b (gk k)"
    and "\<And>k v b. (k, v) \<in> set ps \<Longrightarrow> ev v = Inr b \<Longrightarrow> reads fv b (gv v)"
    and "encode_pairs ek ev ps = Inr bs" "distinct (map fst m @ map (gk \<circ> fst) ps)"
  shows "reads (decode_pairs fk fv (length ps) m) bs (m @ map (map_prod gk gv) ps)"
  using assms
proof (induction ps arbitrary: bs m)
  case Nil
  then show ?case by (simp add: reads_unit reads_cong [OF decode_pairs.simps(1)])
next
  case (Cons p ps)
  obtain k v where p: "p = (k, v)" by fastforce
  obtain a b bs' where b: "ek k = Inr a" "ev v = Inr b" "encode_pairs ek ev ps = Inr bs'" "bs = a @ b @ bs'"
    using Cons.prems(3) p by (auto simp: result_iffs)
  have new: "SetMapIndex (gk k) (gv v) m = m @ [(gk k, gv v)]"
    by (rule SetMapIndex_new) (use Cons.prems(4) p in auto)
  have "reads (decode_pairs fk fv (length ps) (m @ [(gk k, gv v)])) bs' ((m @ [(gk k, gv v)]) @ map (map_prod gk gv) ps)"
  proof (rule Cons.IH)
    show "reads fk b' (gk k')" if "(k', v') \<in> set ps" "ek k' = Inr b'" for k' v' b'
      using Cons.prems(1) [of k' v' b'] that by simp
    show "reads fv b' (gv v')" if "(k', v') \<in> set ps" "ev v' = Inr b'" for k' v' b'
      using Cons.prems(2) [of k' v' b'] that by simp
  qed (use Cons.prems(4) p b(3) in auto)
  then have 1: "reads (decode_pairs fk fv (length ps) (SetMapIndex (gk k) (gv v) m)) bs' (m @ map (map_prod gk gv) (p # ps))"
    by (simp add: new p)
  have r: "reads fk a (gk k)" "reads fv b (gv v)"
    using Cons.prems(1) [of k v a] Cons.prems(2) [of k v b] b p by simp_all
  note 2 = reads_bind [OF r(2), where g = "\<lambda>v d. decode_pairs fk fv (length ps) (SetMapIndex (gk k) v m) d", OF 1]
  from reads_bind [OF r(1), where g = "\<lambda>k d. rbind (fv d) (\<lambda>(v, d). decode_pairs fk fv (length ps) (SetMapIndex k v m) d)", OF 2]
  show ?case using b(4) by (auto intro: reads_cong [OF decode_pairs.simps(2)])
qed

lemma reads_optional:
  defines "f' \<equiv> \<lambda>f zero d. case ReadByte d of Inl _ \<Rightarrow> Inr (zero, d) | Inr (b, d) \<Rightarrow> if b = 0 then Inr (zero, d) else f d"
  shows "reads (f' f zero) (writeBool False) zero" "reads f b x \<Longrightarrow> reads (f' f zero) (writeBool True @ b) x"
proof -
  have r: "ReadByte d = Inr (y, advance 1 d)" if "length (data d) < 2 ^ 63" "unread d = y # r" for d y r
    using reads_byte [of y] that by (simp add: reads_def)
  show "reads (f' f zero) (writeBool False) zero"
    by (auto simp: reads_def f'_def writeBool_def r)
  assume f: "reads f b x"
  show "reads (f' f zero) (writeBool True @ b) x"
    unfolding reads_def
  proof (intro allI impI)
    fix d rest assume d: "length (data d) < 2 ^ 63" "unread d = (writeBool True @ b) @ rest"
    then have "ReadByte d = Inr (1, advance 1 d)" by (intro r) (simp_all add: writeBool_def)
    moreover have "f (advance 1 d) = Inr (x, advance (length b) (advance 1 d))"
      using f d unfolding reads_def by (simp add: writeBool_def)
    ultimately show "f' f zero d = Inr (x, advance (length (writeBool True @ b)) d)"
      by (simp add: f'_def writeBool_def)
  qed
qed

lemma reads_fields:
  assumes "\<And>tag t v b. (tag, t) \<in> set fs \<Longrightarrow> encode c tag t v = Inr b \<Longrightarrow> has_type t v \<Longrightarrow> survives t v \<Longrightarrow>
      reads (decode c tag t) b (norm t v)"
    and "encode_fields (map (\<lambda>(tag, t). (tag, encode c tag t)) fs) vs = Inr bs"
    and "has_type (TStruct fs) (VStruct vs)" "survives (TStruct fs) (VStruct vs)" "norm (TStruct fs) (VStruct vs) = VStruct ws"
  shows "reads (decode_fields (map (\<lambda>(tag, t). (tag, zero_value t, decode c tag t)) fs)) bs ws"
  using assms
proof (induction fs arbitrary: vs bs ws)
  case Nil
  then show ?case by (cases vs) (auto intro: reads_cong [OF decode_fields.simps(1)] reads_unit)
next
  case (Cons f fs)
  obtain tag t where f: "f = (tag, t)" by fastforce
  obtain v vs' where vs: "vs = v # vs'" using Cons.prems(3) by (cases vs) auto
  let ?zd = "map (\<lambda>(tag, t). (tag, zero_value t, decode c tag t)) fs"
  let ?w = "if tag = SkipTag then zero_value t else norm t v"
  obtain ws' where ws: "ws = ?w # ws'" "norm (TStruct fs) (VStruct vs') = VStruct ws'"
    using Cons.prems(5) vs f by auto
  define step where "step d = (case tag of SkipTag \<Rightarrow> Inr (zero_value t, d)
      | OptionalTag \<Rightarrow> (case ReadByte d of Inl _ \<Rightarrow> Inr (zero_value t, d)
          | Inr (b, d) \<Rightarrow> if b = 0 then Inr (zero_value t, d) else decode c tag t d)
      | _ \<Rightarrow> decode c tag t d)" for d
  obtain b bs' where b: "bs = b @ bs'" "encode_fields (map (\<lambda>(tag, t). (tag, encode c tag t)) fs) vs' = Inr bs'"
    "(case tag of SkipTag \<Rightarrow> Inr []
      | OptionalTag \<Rightarrow> (case v of VPtr None \<Rightarrow> Inr (writeBool False)
          | VPtr (Some _) \<Rightarrow> rbind (encode c tag t v) (\<lambda>b. Inr (writeBool True @ b)) | _ \<Rightarrow> Inl GoPanic)
      | _ \<Rightarrow> encode c tag t v) = Inr b"
    using Cons.prems(2) vs f by (auto simp: result_iffs)
  have ty: "has_type t v" "tag \<noteq> SkipTag \<Longrightarrow> survives t v" using Cons.prems(3, 4) vs f by auto
  have hd: "encode c tag t v = Inr b' \<Longrightarrow> tag \<noteq> SkipTag \<Longrightarrow> reads (decode c tag t) b' (norm t v)" for b'
    using Cons.prems(1) [of tag t v b'] ty f by auto
  have 1: "reads step b ?w"
  proof (cases tag)
    case SkipTag
    then show ?thesis using b(3) by (auto simp: step_def [abs_def] reads_unit)
  next
    case OptionalTag
    then have st: "step = (\<lambda>d. case ReadByte d of Inl _ \<Rightarrow> Inr (zero_value t, d)
          | Inr (b, d) \<Rightarrow> if b = 0 then Inr (zero_value t, d) else decode c tag t d)"
      by (simp add: step_def [abs_def])
    consider "v = VPtr None" "b = writeBool False" |
      w b' where "v = VPtr (Some w)" "encode c tag t v = Inr b'" "b = writeBool True @ b'"
      using b(3) OptionalTag by (auto simp: result_iffs split: goval.splits option.splits)
    then show ?thesis
    proof cases
      case 1
      then have "norm t v = zero_value t" using ty(1) by (cases t) auto
      then show ?thesis using 1 OptionalTag reads_optional(1) unfolding st by simp
    next
      case 2
      then have "reads (decode c tag t) b' (norm t v)" using hd OptionalTag by simp
      then have "reads step (writeBool True @ b') (norm t v)" unfolding st by (rule reads_optional(2))
      then show ?thesis using 2(3) OptionalTag by simp
    qed
  qed (use b(3) hd in \<open>auto simp: step_def [abs_def]\<close>)
  have "reads (decode_fields ?zd) bs' ws'"
    by (rule Cons.IH) (use Cons.prems b(2) ws(2) vs f in auto)
  note 2 = reads_map [OF this, where h = "\<lambda>vs. ?w # vs"]
  from reads_bind [OF 1, where g = "\<lambda>v d. rbind (decode_fields ?zd d) (\<lambda>(vs, d). Inr (v # vs, d))", OF 2]
  show ?case using b(1) ws(1) f by (auto simp: step_def intro: reads_cong)
qed

lemma reads_length:
  assumes "(if p then WriteUVarInt n else Inr []) = Inr l"
  shows "reads (\<lambda>d. rbind (if p then rbind (ReadUvarint64 c d) (\<lambda>(l, d). Inr d) else Inr d) (\<lambda>d. Inr ((), d))) l ()"
proof (cases p)
  case True
  then show ?thesis using reads_uvarint(1) [of n l c] assms unfolding reads_def by simp
next
  case False
  then show ?thesis using assms by (simp add: reads_unit)
qed

lemma decode_ptr:
  "\<forall>t'. t \<noteq> TPtr t' \<Longrightarrow> decode c tag (TPtr t) d = rbind (decode c tag t d) (\<lambda>(v, d). Inr (VPtr (Some v), d))"
  by (cases t) simp_all

lemma reads_key:
  assumes "length content = n" "curve = 0 \<or> curve = 1"
  shows "reads (read_key (Suc n)) (curve # content) (VKey curve content)"
proof -
  have "reads (read_bytes (Suc n)) (curve # content) (curve # content)"
    using reads_bytes [of "curve # content"] assms(1) by simp
  then show ?thesis using assms(2) unfolding reads_def read_key_def by auto
qed

lemma reads_Vuint32:
  assumes "WriteUVarInt (unat w) = Inr bs"
  shows "reads (read_Vuint32 c) bs (V32 w)"
proof -
  have "(ucast (of_nat (unat w) :: u64) :: u32) = w"
  proof -
    have "unat w < 2 ^ 32" using unsigned_less [of w, where ?'a = nat] by simp
    then have "unat w < 2 ^ 64" by simp
    then have "unat (of_nat (unat w) :: u64) = unat w" by (rule unat_of_nat64)
    then show ?thesis by (metis of_nat_unat ucast_id)
  qed
  then show ?thesis using reads_uvarint(1) [OF assms, of c] unfolding reads_def read_Vuint32_def by auto
qed

lemma ucast_small: "w < 0x100000000 \<Longrightarrow> ucast (ucast (w :: u64) :: u32) = w"
proof -
  assume "w < 0x100000000"
  then have "unat w < 2 ^ 32" by (simp add: word_less_nat_alt)
  then have "unat (ucast w :: u32) = unat w" by (simp add: unsigned_ucast_eq take_bit_nat_eq_self_iff)
  then show ?thesis by (metis of_nat_unat ucast_id)
qed

theorem codec_reads:
  assumes "encode c tag t v = Inr bs" "has_type t v" "survives t v"
  shows "reads (decode c tag t) bs (norm t v)"
  using assms
proof (induction t arbitrary: tag v bs)
  case TString
  then show ?case
    using reads_map [OF reads_byte_array, where h = VBytes] by (auto intro!: reads_cong [OF decode.simps(1)] simp: result_iffs)
next
  case TBool
  then show ?case using reads_map [OF reads_bool, where h = VBool] by (auto intro!: reads_cong [OF decode.simps(2)])
next
  case TInt8
  then show ?case using reads_map [OF reads_byte, where h = V8] by (auto intro!: reads_cong [OF decode.simps(3)])
next
  case TInt16
  then show ?case using reads_map [OF reads_uint(1), where h = V16] by (auto intro!: reads_cong [OF decode.simps(4)])
next
  case TInt32
  then show ?case using reads_map [OF reads_uint(2), where h = V32] by (auto intro!: reads_cong [OF decode.simps(5)])
next
  case TInt
  then obtain w where w: "v = V64 w" "bs = writeUint32 c (ucast w)" "w < 0x100000000" by (auto split: goval.splits)
  show ?case using reads_map [OF reads_uint(2) [of c "ucast w"], where h = "\<lambda>n. V64 (ucast n)"] w
    by (auto intro!: reads_cong [OF decode.simps(6)] simp: ucast_small)
next
  case TInt64
  then show ?case using reads_map [OF reads_uint(3), where h = V64] by (auto intro!: reads_cong [OF decode.simps(7)])
next
  case TUint8
  then show ?case using reads_map [OF reads_byte, where h = V8] by (auto intro!: reads_cong [OF decode.simps(8)])
next
  case TUint16
  then show ?case using reads_map [OF reads_uint(1), where h = V16] by (auto intro!: reads_cong [OF decode.simps(9)])
next
  case TUint32
  then show ?case using reads_map [OF reads_uint(2), where h = V32] reads_Vuint32 [of _ bs c]
    by (auto intro!: reads_cong [OF decode.simps(10)] split: if_splits)
next
  case TUint
  then obtain w where w: "v = V64 w" "bs = writeUint32 c (ucast w)" "w < 0x100000000" by (auto split: goval.splits)
  show ?case using reads_map [OF reads_uint(2) [of c "ucast w"], where h = "\<lambda>n. V64 (ucast n)"] w
    by (auto intro!: reads_cong [OF decode.simps(11)] simp: ucast_small)
next
  case TUint64
  then show ?case using reads_map [OF reads_uint(3), where h = V64] by (auto intro!: reads_cong [OF decode.simps(12)])
next
  case TFloat32
  then show ?case using reads_map [OF reads_uint(2), where h = V32]
    by (auto intro!: reads_cong [OF decode.simps(13)] split: if_splits)
next
  case TFloat64
  then show ?case using reads_map [OF reads_uint(3), where h = V64]
    by (auto intro!: reads_cong [OF decode.simps(14)] split: if_splits)
next
  case TVuint32
  then show ?case using reads_map [OF reads_uint(2), where h = V32] reads_Vuint32 [of _ bs c]
    by (auto intro!: reads_cong [OF decode.simps(15)] split: if_splits)
next
  case TPublicKey
  then show ?case using reads_key [of _ 33]
    by (auto intro!: reads_cong [OF decode.simps(16)] simp: writePublicKey_def split: goval.splits if_splits)
next
  case TSignature
  then obtain curve content where v: "v = VKey curve content" "curve = 0 \<or> curve = 1" by auto
  show ?case
  proof (cases "content = []")
    case True
    then show ?thesis using TSignature v reads_key [of "replicate 65 0" 65 0]
      by (auto intro!: reads_cong [OF decode.simps(17)] simp: writeSignature_def)
  next
    case False
    then have "norm TSignature v = v" using v by (cases content) simp_all
    then show ?thesis using False TSignature v reads_key [of content 65 curve]
      by (auto intro!: reads_cong [OF decode.simps(17)] simp: writeSignature_def split: if_splits)
  qed
next
  case TEosFloat64
  then show ?case using reads_map [OF reads_uint(3), where h = V64] reads_Float64
    by (cases c) (auto intro!: reads_cong [OF decode.simps(18)])
next
  case TEosFloat128
  then show ?case using reads_Uint128 reads_Float128 by (cases c) (auto intro!: reads_cong [OF decode.simps(19)])
next
  case TUint128
  then show ?case using reads_Uint128 by (cases c) (auto intro!: reads_cong [OF decode.simps(20)])
next
  case (TArray n t)
  then obtain vs l b where v: "v = VList vs" "length vs = n" "list_all (has_type t) vs" "list_all (survives t) vs"
    and e: "(if c = Db \<and> tag \<noteq> ArrayTag then WriteUVarInt n else Inr []) = Inr l"
      "encode_list (encode c NoTag t) vs = Inr b" "bs = l @ b"
    by (auto simp: result_iffs split: goval.splits)
  have "reads (decode_n (decode c NoTag t) n) b (map (norm t) vs)"
    unfolding v(2) [symmetric]
    by (rule reads_n [OF TArray.IH e(2)]) (use v(3, 4) in \<open>auto simp: list_all_iff\<close>)
  note 1 = reads_map [OF this, where h = VList]
  show ?case using reads_bind [OF reads_length [OF e(1)], where g = "\<lambda>_ d. rbind (decode_n (decode c NoTag t) n d)
      (\<lambda>(vs, d). Inr (VList vs, d))", OF 1] v(1) e(3)
    by (auto intro!: reads_cong [OF decode.simps(21)] simp: rbind_assoc)
next
  case (TSlice t)
  then obtain vs l b where v: "v = VList vs" "list_all (has_type t) vs" "list_all (survives t) vs"
    and e: "WriteUVarInt (length vs) = Inr l" "encode_list (encode c NoTag t) vs = Inr b" "bs = l @ b"
    by (auto simp: result_iffs split: goval.splits)
  let ?l = "of_nat (length vs) :: u64"
  have l: "unat ?l = length vs" "\<not> sint ?l < 0"
    using unat_of_nat64 [of "length vs"] sint_of_nat64 [of "length vs"] reads_uvarint(2) [OF e(1)] by simp_all
  have "reads (decode_n (decode c NoTag t) (length vs)) b (map (norm t) vs)"
    by (rule reads_n [OF TSlice.IH e(2)]) (use v(2, 3) in \<open>auto simp: list_all_iff\<close>)
  note 1 = reads_map [OF this, where h = VList]
  have "reads (\<lambda>d. if sint ?l < 0 then Inl GoPanic else rbind (decode_n (decode c NoTag t) (unat ?l) d)
      (\<lambda>(vs, d). Inr (VList vs, d))) b (VList (map (norm t) vs))"
    using 1 l by simp
  from reads_bind [OF reads_uvarint(1) [OF e(1)], where g = "\<lambda>l d. if sint l < 0 then Inl GoPanic
      else rbind (decode_n (decode c NoTag t) (unat l) d) (\<lambda>(vs, d). Inr (VList vs, d))", OF this]
  show ?case using v(1) e(3) by (auto intro!: reads_cong [OF decode.simps(22)])
next
  case (TMap k t)
  then obtain ps l b where v: "v = VMap ps" "list_all (\<lambda>p. has_type k (fst p) \<and> has_type t (snd p)) ps"
      "list_all (\<lambda>p. survives k (fst p) \<and> survives t (snd p)) ps" "distinct (map (norm k \<circ> fst) ps)"
    and e: "WriteUVarInt (length ps) = Inr l"
      "encode_pairs (encode c NoTag k) (encode c NoTag t) ps = Inr b" "bs = l @ b"
    by (auto simp: result_iffs split: goval.splits)
  let ?l = "of_nat (length ps) :: u64"
  have l: "nat (sint ?l) = length ps"
    using sint_of_nat64 [of "length ps"] reads_uvarint(2) [OF e(1)] by simp
  have m: "has_type k x \<and> has_type t y \<and> survives k x \<and> survives t y" if "(x, y) \<in> set ps" for x y
    using bspec [OF v(2) [unfolded list_all_iff] that] bspec [OF v(3) [unfolded list_all_iff] that] by simp
  have "reads (decode_pairs (decode c NoTag k) (decode c NoTag t) (length ps) []) b
      ([] @ map (map_prod (norm k) (norm t)) ps)"
  proof (rule reads_pairs [OF _ _ e(2)])
    show "reads (decode c NoTag k) b' (norm k x)" if "(x, y) \<in> set ps" "encode c NoTag k x = Inr b'" for x y b'
      using TMap.IH(1) [OF that(2)] m [OF that(1)] by simp
    show "reads (decode c NoTag t) b' (norm t y)" if "(x, y) \<in> set ps" "encode c NoTag t y = Inr b'" for x y b'
      using TMap.IH(2) [OF that(2)] m [OF that(1)] by simp
  qed (use v(4) in simp)
  then have 1: "reads (\<lambda>d. rbind (decode_pairs (decode c NoTag k) (decode c NoTag t) (nat (sint ?l)) [] d)
      (\<lambda>(m, d). Inr (VMap m, d))) b (VMap (map (map_prod (norm k) (norm t)) ps))"
    using reads_map [where h = VMap] l by fastforce
  from reads_bind [OF reads_uvarint(1) [OF e(1)], where g = "\<lambda>l d. rbind (decode_pairs (decode c NoTag k)
      (decode c NoTag t) (nat (sint l)) [] d) (\<lambda>(m, d). Inr (VMap m, d))", OF 1]
  show ?case using v(1) e(3) by (auto intro!: reads_cong [OF decode.simps(23)])
next
  case (TPtr t)
  then obtain w where v: "v = VPtr (Some w)" "has_type t w" "survives t w"
    by (auto simp: deref_def result_iffs split: goval.splits option.splits)
  have t: "\<forall>t'. t \<noteq> TPtr t'" using TPtr.prems(1) v by auto
  then have "encode c tag t w = Inr bs" using TPtr.prems(1) v by (cases t) auto
  then have "reads (decode c tag t) bs (norm t w)" using TPtr.IH v by blast
  from reads_cong [OF decode_ptr [OF t] reads_map [OF this, where h = "\<lambda>v. VPtr (Some v)"]] show ?case
    using v(1) by (simp del: decode.simps)
next
  case (TStruct fs)
  then obtain vs where v: "v = VStruct vs" by (auto split: goval.splits)
  then obtain ws where ws: "norm (TStruct fs) (VStruct vs) = VStruct ws" by simp
  have "reads (decode_fields (map (\<lambda>(tag, t). (tag, zero_value t, decode c tag t)) fs)) bs ws"
  proof (rule reads_fields [OF _ _ _ _ ws])
    show "reads (decode c tag t) b (norm t w)"
      if "(tag, t) \<in> set fs" "encode c tag t w = Inr b" "has_type t w" "survives t w" for tag t w b
      by (rule TStruct.IH [OF that(1) _ that(2-4)]) simp
  qed (use TStruct.prems v in simp_all)
  from reads_map [OF this, where h = VStruct] show ?case
    using v ws by (auto intro!: reads_cong [OF decode.simps(25)])
qed

end
