(* ===== verification/Eos_CodecLaws.thy ===== *)
theory Eos_CodecLaws
  imports Eos_Codec
begin

text \<open>
  What the codecs of \<open>Eos_Codec\<close> guarantee: the round trip, the type of decoded values, the
  order of encoded database keys, and the inputs on which a decoder goes wrong.
\<close>

section \<open>Decoders stay inside their input\<close>

definition stays :: "('a \<Rightarrow> bool) \<Rightarrow> (Decoder \<Rightarrow> ('a \<times> Decoder) result) \<Rightarrow> bool" where
  "stays P f \<longleftrightarrow>
     (\<forall>d v d'. f d = Inr (v, d') \<longrightarrow>
        P v \<and> data d' = data d \<and> pos d \<le> pos d' \<and> (pos d \<le> length (data d) \<longrightarrow> pos d' \<le> length (data d)))"

lemma is_ok_Inr [simp]: "is_ok (Inr x)"
  by (simp add: is_ok_def)

lemma stays_bind:
  assumes "stays P f" "\<And>x. P x \<Longrightarrow> stays Q (g x)"
  shows "stays Q (\<lambda>d. rbind (f d) (\<lambda>(x, d). g x d))"
  unfolding stays_def
proof (intro allI impI)
  fix d v d' assume "rbind (f d) (\<lambda>(x, d). g x d) = Inr (v, d')"
  then obtain x e where 1: "f d = Inr (x, e)" "g x e = Inr (v, d')" by (auto simp: rbind_Inr_iff)
  have 2: "P x" "data e = data d" "pos d \<le> pos e" "pos d \<le> length (data d) \<longrightarrow> pos e \<le> length (data d)"
    using assms(1) 1(1) unfolding stays_def by blast+
  have "Q v" "data d' = data e" "pos e \<le> pos d'" "pos e \<le> length (data e) \<longrightarrow> pos d' \<le> length (data e)"
    using assms(2) [OF 2(1)] 1(2) unfolding stays_def by blast+
  with 2 show "Q v \<and> data d' = data d \<and> pos d \<le> pos d' \<and> (pos d \<le> length (data d) \<longrightarrow> pos d' \<le> length (data d))"
    by auto
qed

lemma stays_unit: "P x \<Longrightarrow> stays P (\<lambda>d. Inr (x, d))"
  by (simp add: stays_def)

lemma stays_fail: "stays P (\<lambda>d. Inl e)"
  by (simp add: stays_def)

lemma stays_map: "stays P f \<Longrightarrow> (\<And>x. P x \<Longrightarrow> Q (h x)) \<Longrightarrow> stays Q (\<lambda>d. rbind (f d) (\<lambda>(x, d). Inr (h x, d)))"
  by (rule stays_bind [where P = P and f = f and g = "\<lambda>x d. Inr (h x, d)"]) (simp_all add: stays_unit)

lemma stays_if: "stays P f \<Longrightarrow> stays P g \<Longrightarrow> stays P (\<lambda>d. if b then f d else g d)"
  by (cases b) simp_all

lemma stays_mono: "stays P f \<Longrightarrow> (\<And>x. P x \<Longrightarrow> Q x) \<Longrightarrow> stays Q f"
  unfolding stays_def by blast

lemma stays_cong: "(\<And>d. f d = g d) \<Longrightarrow> stays P g \<Longrightarrow> stays P f"
  by (simp add: stays_def)

lemma stays_bytes: "stays (\<lambda>b. length b = n) (read_bytes n)"
  by (auto simp: stays_def read_bytes_def remaining_def unread_def split: if_splits)

lemma stays_uint:
  "stays (\<lambda>_. True) ReadByte" "stays (\<lambda>_. True) ReadBool" "stays (\<lambda>_. True) (ReadUint16 c)"
  "stays (\<lambda>_. True) (ReadUint32 c)" "stays (\<lambda>_. True) (ReadUint64 c)"
proof -
  show 1: "stays (\<lambda>_. True) ReadByte" unfolding ReadByte_def [abs_def] by (rule stays_map [OF stays_bytes]) simp
  show "stays (\<lambda>_. True) ReadBool" unfolding ReadBool_def [abs_def] by (rule stays_map [OF 1]) simp
  show "stays (\<lambda>_. True) (ReadUint16 c)" "stays (\<lambda>_. True) (ReadUint32 c)" "stays (\<lambda>_. True) (ReadUint64 c)"
    unfolding ReadUint16_def [abs_def] ReadUint32_def [abs_def] ReadUint64_def [abs_def]
    by (rule stays_map [OF stays_bytes]; simp)+
qed

lemma Uvarint_at_bound: "snd (Uvarint_at i x bs) \<le> int i + int (length bs)"
  by (induction i x bs rule: Uvarint_at.induct) auto

lemma stays_uvarint: "stays (\<lambda>_. True) (ReadUvarint64 c)"
  unfolding stays_def
proof (intro allI impI)
  fix d v d' assume r: "ReadUvarint64 c d = Inr (v, d')"
  have "snd (Uvarint (unread d)) \<le> int (length (data d) - pos d)"
    using Uvarint_at_bound [of 0 0 "unread d"] by (simp add: Uvarint_def unread_def)
  then show "True \<and> data d' = data d \<and> pos d \<le> pos d' \<and> (pos d \<le> length (data d) \<longrightarrow> pos d' \<le> length (data d))"
    using r by (auto simp: ReadUvarint64_def Let_def split: prod.splits if_splits)
qed

lemma stays_byte_array: "stays (\<lambda>_. True) (ReadByteArray c)"
  unfolding ReadByteArray_def [abs_def]
  by (rule stays_bind [OF stays_uvarint, where g = "\<lambda>l d. let high = sint (of_nat (pos d) + l :: u64)
      in if int (length (data d)) < high then Inl ErrValueTooLarge else if high < int (pos d) then Inl GoPanic
         else Inr (take (nat high - pos d) (unread d), d\<lparr>pos := nat high\<rparr>)"])
    (auto simp: stays_def Let_def split: if_splits)

lemma stays_key: "stays (\<lambda>v. \<exists>a b. v = VKey a b \<and> length b = n \<and> (a = 0 \<or> a = 1)) (read_key (Suc n))"
  unfolding read_key_def [abs_def]
  by (rule stays_bind [OF stays_bytes, where g = "\<lambda>b d. if hd b = 0 \<or> hd b = 1 then Inr (VKey (hd b) (tl b), d)
      else Inl ErrCurve"]) (auto simp: stays_def split: if_splits)

lemma stays_Float64: "stays (has_type TEosFloat64) unpack_Float64"
  unfolding unpack_Float64_def [abs_def]
  by (rule stays_bind [OF stays_uint(2)], rule stays_bind [OF stays_uint(3)], rule stays_map [OF stays_uint(5)]) simp

lemma stays_Float128: "stays (has_type TEosFloat128) unpack_Float128"
  unfolding unpack_Float128_def [abs_def]
  by (rule stays_bind [OF stays_uint(2)], rule stays_bind [OF stays_uint(3)], rule stays_bind [OF stays_uint(5)],
      rule stays_map [OF stays_uint(5)]) simp

lemma stays_Uint128: "stays (has_type TUint128) (unpack_Uint128 c)"
  unfolding unpack_Uint128_def [abs_def]
  by (rule stays_bind [OF stays_uint(5)], rule stays_map [OF stays_uint(5)]) (cases c; simp)

lemma stays_Vuint32: "stays (has_type TVuint32) (read_Vuint32 c)"
  using stays_uvarint [of c] unfolding stays_def read_Vuint32_def by (auto split: sum.splits)

lemma stays_n: "stays P f \<Longrightarrow> stays (\<lambda>vs. length vs = n \<and> list_all P vs) (decode_n f n)"
proof (induction n)
  case 0
  show ?case by (rule stays_cong [OF decode_n.simps(1)]) (simp add: stays_unit)
next
  case (Suc n)
  show ?case
    by (rule stays_cong [OF decode_n.simps(2)], rule stays_bind [OF Suc.prems],
        rule stays_map [OF Suc.IH [OF Suc.prems]]) simp
qed

lemma SetMapIndex_dom: "fst ` set (SetMapIndex k v m) = insert k (fst ` set m)"
  by (induction k v m rule: SetMapIndex.induct) (simp_all add: insert_commute)

lemma SetMapIndex_distinct: "distinct (map fst m) \<Longrightarrow> distinct (map fst (SetMapIndex k v m))"
proof (induction m)
  case (Cons p m)
  obtain k' v' where p: "p = (k', v')" by fastforce
  with Cons show ?case using SetMapIndex_dom [of k v m] by (auto simp: image_iff)
qed simp

lemma SetMapIndex_all: "list_all P m \<Longrightarrow> P (k, v) \<Longrightarrow> list_all P (SetMapIndex k v m)"
  by (induction m) auto

lemma stays_pairs:
  assumes "stays P fk" "stays Q fv"
  shows "list_all (\<lambda>p. P (fst p) \<and> Q (snd p)) m \<and> distinct (map fst m) \<Longrightarrow>
    stays (\<lambda>m. list_all (\<lambda>p. P (fst p) \<and> Q (snd p)) m \<and> distinct (map fst m)) (decode_pairs fk fv n m)"
proof (induction n arbitrary: m)
  case 0
  then show ?case by (auto intro: stays_cong [OF decode_pairs.simps(1)] stays_unit)
next
  case (Suc n)
  show ?case
  proof (rule stays_cong [OF decode_pairs.simps(2)], rule stays_bind [OF assms(1)], rule stays_bind [OF assms(2)])
    fix k v assume "P k" "Q v"
    then show "stays (\<lambda>m. list_all (\<lambda>p. P (fst p) \<and> Q (snd p)) m \<and> distinct (map fst m))
        (decode_pairs fk fv n (SetMapIndex k v m))"
      using Suc.prems by (intro Suc.IH) (simp add: SetMapIndex_all SetMapIndex_distinct)
  qed
qed

lemma zero_value_type: "has_type t (zero_value t)"
proof (induction t)
  case (TStruct fs)
  then have "\<forall>f\<in>set fs. has_type (snd f) (zero_value (snd f))" by (metis prod.collapse snds.intros)
  then show ?case by (induction fs) auto
qed (auto simp: list_all_iff)

lemma stays_field:
  assumes "stays P f" "P zero"
  shows "stays P (\<lambda>d. case tag of SkipTag \<Rightarrow> Inr (zero, d)
    | OptionalTag \<Rightarrow> (case ReadByte d of Inl _ \<Rightarrow> Inr (zero, d) | Inr (b, d) \<Rightarrow> if b = 0 then Inr (zero, d) else f d)
    | _ \<Rightarrow> f d)"
proof -
  have o: "stays P (\<lambda>d. case ReadByte d of Inl _ \<Rightarrow> Inr (zero, d) | Inr (b, d) \<Rightarrow> if b = 0 then Inr (zero, d) else f d)"
    unfolding stays_def
  proof (intro allI impI)
    fix d v d'
    assume r: "(case ReadByte d of Inl _ \<Rightarrow> Inr (zero, d) | Inr (b, d) \<Rightarrow> if b = 0 then Inr (zero, d) else f d) = Inr (v, d')"
    show "P v \<and> data d' = data d \<and> pos d \<le> pos d' \<and> (pos d \<le> length (data d) \<longrightarrow> pos d' \<le> length (data d))"
    proof (cases "ReadByte d")
      case (Inl e)
      then show ?thesis using r assms(2) by auto
    next
      case (Inr p)
      have "stays P (\<lambda>d. rbind (ReadByte d) (\<lambda>(b, d). if b = 0 then Inr (zero, d) else f d))"
        by (rule stays_bind [OF stays_uint(1)]) (use assms in \<open>auto simp: stays_def\<close>)
      then show ?thesis
        by (rule stays_def [THEN iffD1, rule_format]) (use r Inr in \<open>cases p; simp\<close>)
    qed
  qed
  show ?thesis by (cases tag) (use assms o in \<open>simp_all add: stays_unit\<close>)
qed

lemma stays_fields:
  assumes "\<And>tag t. (tag, t) \<in> set fs \<Longrightarrow> stays (has_type t) (decode c tag t)"
  shows "stays (list_all2 (\<lambda>p w. p w) (map (\<lambda>(tag, t). has_type t) fs))
    (decode_fields (map (\<lambda>(tag, t). (tag, zero_value t, decode c tag t)) fs))"
  using assms
proof (induction fs)
  case Nil
  show ?case by (auto intro: stays_cong [OF decode_fields.simps(1)] stays_unit)
next
  case (Cons f fs)
  obtain tag t where f: "f = (tag, t)" by fastforce
  have "stays (has_type t) (decode c tag t)" using Cons.prems f by simp
  note 1 = stays_field [OF this zero_value_type, of tag]
  have "stays (list_all2 (\<lambda>p w. p w) (map (\<lambda>(tag, t). has_type t) fs))
      (decode_fields (map (\<lambda>(tag, t). (tag, zero_value t, decode c tag t)) fs))" using Cons by simp
  then show ?case unfolding f
    by (simp, intro stays_cong [OF decode_fields.simps(2)] stays_bind [OF 1] stays_map) auto
qed

lemma decode_stays: "stays (has_type t) (decode c tag t)"
proof (induction t arbitrary: tag)
  case (TArray n t)
  have 1: "stays (\<lambda>_. True) (\<lambda>d. rbind (if c = Db \<and> tag \<noteq> ArrayTag then rbind (ReadUvarint64 c d) (\<lambda>(l, d). Inr d)
      else Inr d) (\<lambda>d. Inr ((), d)))"
    using stays_uvarint [of c] by (auto simp: stays_def rbind_Inr_iff split: if_splits)
  have "stays (has_type (TArray n t)) (\<lambda>d. rbind (rbind (if c = Db \<and> tag \<noteq> ArrayTag
      then rbind (ReadUvarint64 c d) (\<lambda>(l, d). Inr d) else Inr d) (\<lambda>d. Inr ((), d)))
      (\<lambda>(_, d). rbind (decode_n (decode c NoTag t) n d) (\<lambda>(vs, d). Inr (VList vs, d))))"
    by (rule stays_bind [OF 1], rule stays_map [OF stays_n [OF TArray.IH]]) simp
  then show ?case by (auto intro: stays_cong [OF decode.simps(21)] simp: rbind_assoc simp del: has_type.simps)
next
  case (TSlice t)
  show ?case
    by (rule stays_cong [OF decode.simps(22)], rule stays_bind [OF stays_uvarint], rule stays_if [OF stays_fail],
        rule stays_map [OF stays_n [OF TSlice.IH]]) simp
next
  case (TMap k t)
  show ?case
    by (rule stays_cong [OF decode.simps(23)], rule stays_bind [OF stays_uvarint],
        rule stays_map [OF stays_pairs [OF TMap.IH]]) auto
next
  case (TPtr t)
  show ?case
  proof (cases "\<forall>t'. t \<noteq> TPtr t'")
    case True
    then show ?thesis by (intro stays_cong [OF decode_ptr [OF True]] stays_map [OF TPtr.IH]) auto
  next
    case False
    then show ?thesis by (auto simp: stays_def)
  qed
next
  case (TStruct fs)
  have "stays (has_type t) (decode c tag t)" if "(tag, t) \<in> set fs" for tag t
    by (rule TStruct.IH [OF that]) simp
  from stays_fields [OF this] show ?case
    by (intro stays_cong [OF decode.simps(25)] stays_map) auto
next
  case TString
  show ?case by (rule stays_cong, rule decode.simps, rule stays_map [OF stays_byte_array]) simp
next
  case TUint32
  show ?case by (rule stays_cong, rule decode.simps,
        intro stays_if stays_mono [OF stays_Vuint32] stays_map [OF stays_uint(4)]) simp_all
next
  case TFloat32
  show ?case by (rule stays_cong, rule decode.simps, intro stays_if stays_fail stays_map [OF stays_uint(4)]) simp_all
next
  case TFloat64
  show ?case by (rule stays_cong, rule decode.simps, intro stays_if stays_fail stays_map [OF stays_uint(5)]) simp_all
next
  case TVuint32
  show ?case by (rule stays_cong, rule decode.simps, intro stays_if stays_Vuint32 stays_map [OF stays_uint(4)]) simp_all
next
  case TPublicKey
  show ?case by (rule stays_cong, rule decode.simps) (use stays_key [of 33] in \<open>auto elim: stays_mono\<close>)
next
  case TSignature
  show ?case by (rule stays_cong, rule decode.simps) (use stays_key [of 65] in \<open>auto elim: stays_mono\<close>)
next
  case TEosFloat64
  show ?case
  proof (cases c)
    case Rlp
    then show ?thesis by (auto intro: stays_cong [OF decode.simps(18)] stays_map [OF stays_uint(5)])
  next
    case Db
    then show ?thesis using stays_Float64 by (auto intro: stays_cong [OF decode.simps(18)] simp del: has_type.simps)
  qed
next
  case TEosFloat128
  have "has_type TUint128 = has_type TEosFloat128" by (intro ext) simp
  then show ?case using stays_Uint128 [of c] stays_Float128
    by (cases c) (auto intro: stays_cong [OF decode.simps(19)] simp del: has_type.simps)
next
  case TUint128
  show ?case by (rule stays_cong, rule decode.simps, rule stays_Uint128)
qed (rule stays_cong, rule decode.simps, (rule stays_map [OF stays_uint(1)] | rule stays_map [OF stays_uint(2)] |
    rule stays_map [OF stays_uint(3)] | rule stays_map [OF stays_uint(4)] | rule stays_map [OF stays_uint(5)]), simp)+

section \<open>Key order\<close>

lemma div_mod_less: "(a :: nat) < b \<longleftrightarrow> a div k < b div k \<or> a div k = b div k \<and> a mod k < b mod k"
proof (cases "a div k = b div k")
  case True
  then show ?thesis using div_mult_mod_eq [of a k] div_mult_mod_eq [of b k] by (metis nat_add_left_cancel_less less_irrefl)
next
  case False
  then show ?thesis by (metis div_le_mono less_le_not_le linorder_cases nat_less_le)
qed

lemma top_nat:
  fixes w :: u64
  shows "unat (ucast (drop_bit 48 w) :: u16) = unat w div 2 ^ 48" "unat (w AND 0x0000FFFFFFFFFFFF) = unat w mod 2 ^ 48"
    "drop_bit 63 w = 0 \<longleftrightarrow> unat w < 2 ^ 63" "unat w div 2 ^ 48 < 2 ^ 16"
proof -
  have b: "unat w < 2 ^ 64" using unsigned_less [of w, where ?'a = nat] by simp
  then show d: "unat w div 2 ^ 48 < 2 ^ 16" by (simp add: div_less_iff_less_mult)
  have "unat (drop_bit 48 w) = unat w div 2 ^ 48" by (simp add: drop_bit_eq_div unat_div)
  then show "unat (ucast (drop_bit 48 w) :: u16) = unat w div 2 ^ 48"
    using d by (simp add: unsigned_ucast_eq take_bit_nat_eq_self_iff)
  have m: "(0x0000FFFFFFFFFFFF :: u64) = mask 48" by (simp add: mask_eq_exp_minus_1)
  show "unat (w AND 0x0000FFFFFFFFFFFF) = unat w mod 2 ^ 48"
    unfolding m by (simp add: take_bit_eq_mask [symmetric] unsigned_take_bit_eq take_bit_eq_mod unat_mod)
  have "unat (drop_bit 63 w) = unat w div 2 ^ 63" by (simp add: drop_bit_eq_div unat_div)
  then show "drop_bit 63 w = 0 \<longleftrightarrow> unat w < 2 ^ 63" by (simp add: unat_eq_0 [symmetric] div_eq_0_iff del: unat_eq_0)
qed

lemma and_disjoint: "(x :: 'a::len word) AND m = x \<Longrightarrow> m AND k = 0 \<Longrightarrow> x AND k = 0"
  by (metis and.assoc and_zero_eq)

lemma unat_or_add:
  assumes "(x :: 'a::len word) AND y = 0" "unat x + unat y < 2 ^ LENGTH('a)"
  shows "unat (x OR y) = unat x + unat y"
proof -
  have "x OR y = x + y" using assms(1) by (simp add: disjunctive_add_eq_or)
  then show ?thesis using assms(2) by (simp add: unat_word_ariths)
qed

lemma plus_nat:
  fixes w :: u64
  assumes "unat w < 2 ^ 63"
  shows "unat (ucast (drop_bit 48 w) OR 0x8000 :: u16) = unat w div 2 ^ 48 + 2 ^ 15"
    "unat (w AND 0x0000FFFFFFFFFFFF OR 0x0001000000000000) = unat w mod 2 ^ 48 + 2 ^ 48"
proof -
  let ?t = "ucast (drop_bit 48 w) :: u16"
  have t: "unat ?t < 2 ^ 15" using assms top_nat(1) [of w] by (simp add: div_less_iff_less_mult)
  have "?t AND 0x7FFF = ?t" using top_bits(2) [of w] top_nat(3) [of w] assms by simp
  then have "?t AND 0x8000 = 0" by (rule and_disjoint) simp
  then have "unat (?t OR 0x8000) = unat ?t + unat (0x8000 :: u16)" using t by (intro unat_or_add) simp_all
  then show "unat (?t OR 0x8000) = unat w div 2 ^ 48 + 2 ^ 15" using top_nat(1) [of w] by simp
  have "unat (w AND 0x0000FFFFFFFFFFFF) < 2 ^ 48" using top_nat(2) [of w] by simp
  then have "unat (w AND 0x0000FFFFFFFFFFFF OR 0x0001000000000000) =
      unat (w AND 0x0000FFFFFFFFFFFF) + unat (0x0001000000000000 :: u64)"
    by (intro unat_or_add) (simp_all add: and.assoc)
  then show "unat (w AND 0x0000FFFFFFFFFFFF OR 0x0001000000000000) = unat w mod 2 ^ 48 + 2 ^ 48"
    using top_nat(2) [of w] by simp
qed

lemma minus_nat:
  fixes w :: u64
  assumes "\<not> unat w < 2 ^ 63"
  shows "unat (0x8000 - (ucast (drop_bit 48 w) AND 0x7FFF) :: u16) = 2 ^ 16 - unat w div 2 ^ 48"
    "0x0000FFFFFFFFFFFF \<le> k \<Longrightarrow> unat (k - (w AND 0x0000FFFFFFFFFFFF)) = unat k - unat w mod 2 ^ 48"
proof -
  let ?t = "ucast (drop_bit 48 w) :: u16"
  have m: "(0x7FFF :: u16) = mask 15" by (simp add: mask_eq_exp_minus_1)
  have a: "unat (?t AND 0x7FFF) < 2 ^ 15"
    unfolding m by (simp add: take_bit_eq_mask [symmetric] unsigned_take_bit_eq take_bit_eq_mod unat_mod)
  have "unat ((?t AND 0x7FFF) OR 0x8000) = unat (?t AND 0x7FFF) + unat (0x8000 :: u16)"
    using a by (intro unat_or_add) (simp_all add: and.assoc)
  then have s: "unat ?t = unat (?t AND 0x7FFF) + 2 ^ 15" using top_bits(3) [of w] top_nat(3) [of w] assms by simp
  have "unat (0x8000 - (?t AND 0x7FFF)) = unat (0x8000 :: u16) - unat (?t AND 0x7FFF)"
    using a by (intro unat_sub) (simp add: word_le_nat_alt)
  then show "unat (0x8000 - (?t AND 0x7FFF)) = 2 ^ 16 - unat w div 2 ^ 48" using s top_nat(1) [of w] by simp
  assume k: "0x0000FFFFFFFFFFFF \<le> k"
  have "unat (w AND 0x0000FFFFFFFFFFFF) \<le> unat (0x0000FFFFFFFFFFFF :: u64)" using top_nat(2) [of w] by simp
  also have "\<dots> \<le> unat k" using k by (simp add: word_le_nat_alt)
  finally have "unat (k - (w AND 0x0000FFFFFFFFFFFF)) = unat k - unat (w AND 0x0000FFFFFFFFFFFF)"
    by (intro unat_sub) (simp add: word_le_nat_alt)
  then show "unat (k - (w AND 0x0000FFFFFFFFFFFF)) = unat k - unat w mod 2 ^ 48" using top_nat(2) [of w] by simp
qed

lemma PutBig_eq: "LENGTH('a) \<le> 8 * n \<Longrightarrow> PutBig n (v :: 'a::len word) = PutBig n w \<longleftrightarrow> v = w"
  by (metis Big_PutBig)

lemma sortable:
  "writeBool p @ xs < writeBool q @ ys \<longleftrightarrow> \<not> p \<and> q \<or> p = q \<and> xs < ys"
  "writeUint16 Db i @ xs < writeUint16 Db j @ ys \<longleftrightarrow> unat i < unat j \<or> unat i = unat j \<and> xs < ys"
  "writeUint64 Db k @ xs < writeUint64 Db l @ ys \<longleftrightarrow> unat k < unat l \<or> unat k = unat l \<and> xs < ys"
  "writeUint64 Db k < writeUint64 Db l \<longleftrightarrow> unat k < unat l"
proof -
  show "writeBool p @ xs < writeBool q @ ys \<longleftrightarrow> \<not> p \<and> q \<or> p = q \<and> xs < ys" by (auto simp: writeBool_def)
  show "writeUint16 Db i @ xs < writeUint16 Db j @ ys \<longleftrightarrow> unat i < unat j \<or> unat i = unat j \<and> xs < ys"
    by (simp add: writeUint16_def append_less PutBig_less PutBig_eq word_less_nat_alt word_unat_eq_iff)
  show "writeUint64 Db k @ xs < writeUint64 Db l @ ys \<longleftrightarrow> unat k < unat l \<or> unat k = unat l \<and> xs < ys"
    by (simp add: writeUint64_def append_less PutBig_less PutBig_eq word_less_nat_alt word_unat_eq_iff)
  show "writeUint64 Db k < writeUint64 Db l \<longleftrightarrow> unat k < unat l"
    by (simp add: writeUint64_def PutBig_less word_less_nat_alt)
qed

text \<open>Negative numbers first and in the reverse order of their bits, then the others in the order of their bits.\<close>

definition bits_less :: "nat \<Rightarrow> nat \<Rightarrow> nat \<Rightarrow> bool" where
  "bits_less n a b =
     (if a < 2 ^ (n - 1) then b < 2 ^ (n - 1) \<and> a < b else b < 2 ^ (n - 1) \<or> b < a)"

lemma plus_order:
  assumes "unat a < 2 ^ 63" "unat b < 2 ^ 63"
  shows "writeUint16 Db (ucast (drop_bit 48 a) OR 0x8000) @
      writeUint64 Db (a AND 0x0000FFFFFFFFFFFF OR 0x0001000000000000) @ xs <
    writeUint16 Db (ucast (drop_bit 48 b) OR 0x8000) @
      writeUint64 Db (b AND 0x0000FFFFFFFFFFFF OR 0x0001000000000000) @ ys \<longleftrightarrow>
    unat a < unat b \<or> unat a = unat b \<and> xs < ys"
proof -
  have "unat a = unat b \<longleftrightarrow> unat a div 2 ^ 48 = unat b div 2 ^ 48 \<and> unat a mod 2 ^ 48 = unat b mod 2 ^ 48"
    by (metis div_mult_mod_eq)
  then show ?thesis
    using div_mod_less [of "unat a" "unat b" "2 ^ 48"]
    by (simp only: sortable plus_nat [OF assms(1)] plus_nat [OF assms(2)] add_less_cancel_right add_right_cancel) blast
qed

lemma diff_cancel:
  "(a :: nat) \<le> k \<Longrightarrow> b \<le> k \<Longrightarrow> k - a < k - b \<longleftrightarrow> b < a" "a \<le> k \<Longrightarrow> b \<le> k \<Longrightarrow> k - a = k - b \<longleftrightarrow> a = b"
  by auto

lemma minus_order:
  assumes "\<not> unat a < 2 ^ 63" "\<not> unat b < 2 ^ 63" "0x0000FFFFFFFFFFFF \<le> k"
  shows "writeUint16 Db (0x8000 - (ucast (drop_bit 48 a) AND 0x7FFF)) @
      writeUint64 Db (k - (a AND 0x0000FFFFFFFFFFFF)) @ xs <
    writeUint16 Db (0x8000 - (ucast (drop_bit 48 b) AND 0x7FFF)) @
      writeUint64 Db (k - (b AND 0x0000FFFFFFFFFFFF)) @ ys \<longleftrightarrow>
    unat b < unat a \<or> unat a = unat b \<and> xs < ys"
proof -
  have "unat (0x0000FFFFFFFFFFFF :: u64) \<le> unat k" using assms(3) by (simp add: word_le_nat_alt)
  then have m: "x mod 2 ^ 48 \<le> unat k" for x :: nat using mod_less_divisor [of "2 ^ 48" x] by simp
  have d: "unat x div 2 ^ 48 \<le> 2 ^ 16" for x :: u64 using top_nat(4) [of x] by simp
  have "unat a = unat b \<longleftrightarrow> unat a div 2 ^ 48 = unat b div 2 ^ 48 \<and> unat a mod 2 ^ 48 = unat b mod 2 ^ 48"
    by (metis div_mult_mod_eq)
  then show ?thesis
    using div_mod_less [of "unat b" "unat a" "2 ^ 48"]
    by (simp only: sortable minus_nat(1) [OF assms(1)] minus_nat(1) [OF assms(2)] minus_nat(2) [OF assms(1, 3)]
        minus_nat(2) [OF assms(2, 3)] diff_cancel m d) metis
qed

lemma Float64_order: "pack_Float64 a < pack_Float64 b \<longleftrightarrow> bits_less 64 (unat a) (unat b)"
proof -
  have k: "(0x0000FFFFFFFFFFFF :: u64) \<le> 0x0001000000000000" by simp
  consider "unat a < 2 ^ 63" "unat b < 2 ^ 63" | "\<not> unat a < 2 ^ 63" "\<not> unat b < 2 ^ 63"
    | "(unat a < 2 ^ 63) = (\<not> unat b < 2 ^ 63)" by blast
  then show ?thesis
  proof cases
    case 1
    then show ?thesis unfolding pack_Float64_def top_nat(3)
      using plus_order [OF 1, of "[]" "[]"] by (simp add: sortable(1) bits_less_def)
  next
    case 2
    then show ?thesis unfolding pack_Float64_def top_nat(3)
      using minus_order [OF 2 k, of "[]" "[]"] by (simp add: sortable(1) bits_less_def)
  next
    case 3
    then show ?thesis unfolding pack_Float64_def top_nat(3) by (cases "unat a < 2 ^ 63") (simp_all add: sortable(1) bits_less_def)
  qed
qed

lemma pair_less:
  fixes l l' :: u64
  shows "h * 2 ^ 64 + unat l < h' * 2 ^ 64 + unat l' \<longleftrightarrow> h < h' \<or> h = h' \<and> unat l < unat l'"
    "h * 2 ^ 64 + unat l < 2 ^ 127 \<longleftrightarrow> h < 2 ^ 63"
proof -
  have b: "unat x < 2 ^ 64" for x :: u64 using unsigned_less [of x, where ?'a = nat] by simp
  show 1: "h * 2 ^ 64 + unat l < h' * 2 ^ 64 + unat l' \<longleftrightarrow> h < h' \<or> h = h' \<and> unat l < unat l'" for h' and l' :: u64
    using b [of l] b [of l'] by (subst div_mod_less [of _ _ "2 ^ 64"]) (simp add: div_mult_self3)
  show "h * 2 ^ 64 + unat l < 2 ^ 127 \<longleftrightarrow> h < 2 ^ 63" using 1 [of "2 ^ 63" 0] by simp
qed

lemma Float128_order:
  "pack_Float128 l h < pack_Float128 l' h' \<longleftrightarrow> bits_less 128 (unat h * 2 ^ 64 + unat l) (unat h' * 2 ^ 64 + unat l')"
proof -
  have k: "(0x0000FFFFFFFFFFFF :: u64) \<le> 0x00010000000000FE" by simp
  have b: "unat x \<le> 2 ^ 64 - 1" for x :: u64
  proof -
    have "unat x < 2 ^ 64" using unsigned_less [of x, where ?'a = nat] by simp
    then show ?thesis by linarith
  qed
  have c: "unat (0xFFFFFFFFFFFFFFFF - x) = 2 ^ 64 - 1 - unat x" for x :: u64
    by (subst unat_sub) (use b [of x] in \<open>simp_all add: word_le_nat_alt\<close>)
  have low: "writeUint64 Db (0xFFFFFFFFFFFFFFFF - l) < writeUint64 Db (0xFFFFFFFFFFFFFFFF - l') \<longleftrightarrow> unat l' < unat l"
    by (simp only: sortable(4) c diff_cancel b)
  consider "unat h < 2 ^ 63" "unat h' < 2 ^ 63" | "\<not> unat h < 2 ^ 63" "\<not> unat h' < 2 ^ 63"
    | "(unat h < 2 ^ 63) = (\<not> unat h' < 2 ^ 63)" by blast
  then show ?thesis
  proof cases
    case 1
    then show ?thesis unfolding pack_Float128_def top_nat(3)
      using plus_order [OF 1, of "writeUint64 Db l" "writeUint64 Db l'"]
      by (simp add: sortable(1, 4) bits_less_def pair_less del: power_numeral)
  next
    case 2
    then show ?thesis unfolding pack_Float128_def top_nat(3)
      using minus_order [OF 2 k, of "writeUint64 Db (0xFFFFFFFFFFFFFFFF - l)" "writeUint64 Db (0xFFFFFFFFFFFFFFFF - l')"] low
      by (auto simp add: sortable(1) bits_less_def pair_less simp del: power_numeral)
  next
    case 3
    then show ?thesis unfolding pack_Float128_def top_nat(3)
      by (cases "unat h < 2 ^ 63") (simp_all add: sortable(1) bits_less_def pair_less del: power_numeral)
  qed
qed

section \<open>Bad lengths\<close>

lemma Uvarint_cut:
  "\<forall>b\<in>set bs. 0x80 \<le> b \<Longrightarrow> Uvarint_at i x bs = (0, 0)"
  by (induction i x bs rule: Uvarint_at.induct) (auto simp: not_le [symmetric])

lemma ReadUvarint64_cut:
  assumes "\<forall>b\<in>set bs. 0x80 \<le> b"
  shows "ReadUvarint64 Rlp \<lparr>data = bs, pos = 0\<rparr> = Inr (0, \<lparr>data = bs, pos = 0\<rparr>)"
    "ReadUvarint64 Db \<lparr>data = bs, pos = 0\<rparr> = Inl ErrVarIntBufferSize"
  using Uvarint_cut [OF assms, of 0 0] by (simp_all add: ReadUvarint64_def Uvarint_def unread_def)

lemma ReadUvarint64_Put:
  assumes "n < 2 ^ 64"
  shows "ReadUvarint64 c \<lparr>data = PutUvarint n @ r, pos = 0\<rparr> =
    Inr (of_nat n, \<lparr>data = PutUvarint n @ r, pos = length (PutUvarint n)\<rparr>)"
  using Uvarint_Put [OF assms, of r] by (simp add: ReadUvarint64_def unread_def)

lemma sint_huge:
  assumes "2 ^ 63 \<le> m" "m < 2 ^ 64 + 2 ^ 63"
  shows "sint (of_nat m :: u64) = int m - 2 ^ 64"
proof -
  have "sint (of_nat m :: u64) = signed_take_bit 63 (int m)" by (simp add: signed_of_nat)
  also have "\<dots> = signed_take_bit 63 (int m - 2 ^ 64)"
    by (rule signed_take_bit_eq_iff_take_bit_eq [THEN iffD2]) (simp add: take_bit_eq_mod mod_diff_eq [symmetric])
  also have "\<dots> = int m - 2 ^ 64" using assms by (intro signed_take_bit_int_eq_self) simp_all
  finally show ?thesis .
qed

lemma ReadByteArray_huge:
  assumes "2 ^ 63 \<le> n" "n < 2 ^ 64"
  shows "ReadByteArray c \<lparr>data = PutUvarint n @ r, pos = 0\<rparr> = Inl GoPanic"
proof -
  let ?p = "length (PutUvarint n)"
  have p: "?p \<le> 10" using assms(2) by (intro PutUvarint_length) simp_all
  have "sint (of_nat ?p + of_nat n :: u64) = int (?p + n) - 2 ^ 64"
    using sint_huge [of "?p + n"] assms p by simp
  then have "sint (of_nat ?p + of_nat n :: u64) < int ?p" using assms(2) by simp
  moreover have "int ?p \<le> int (length (PutUvarint n @ r))" by simp
  ultimately show ?thesis
    using ReadUvarint64_Put [OF assms(2), of c r] by (simp add: ReadByteArray_def Let_def)
qed

section \<open>Properties\<close>




lemma PutUvarint_small: "x < 128 \<Longrightarrow> PutUvarint x = [of_nat x]"
  by (simp add: PutUvarint.simps [of x])

lemma digits_numeral: "digits (numeral k) x = of_nat (x mod 256) # digits (pred_numeral k) (x div 256)"
  by (simp only: numeral_eq_Suc [of k] digits.simps)

lemma decode_n_numeral: "decode_n f (numeral k) d =
    rbind (f d) (\<lambda>(v, d). rbind (decode_n f (pred_numeral k) d) (\<lambda>(vs, d). Inr (v # vs, d)))"
  by (simp only: numeral_eq_Suc [of k] decode_n.simps)

lemmas codec_eval = rlp_Encode_def db_encode_def rlp_Decode_def db_decode_def writeByteArray_def WriteUVarInt_def
  MAX_SIZE_OF_BYTE_ARRAYS_def MAX_NUM_ARRAY_ELEMENT_def writeBool_def writeUint16_def writeUint32_def writeUint64_def
  PutLittle_def PutBig_def pack_Float64_def pack_Uint128_def ReadUvarint64_def ReadByte_def read_bytes_def Uvarint_def
  unread_def remaining_def eos_assert_def digits_numeral decode_n_numeral PutUvarint_small



text \<open>
  C33. Whatever the input, a decoder that returns a value returns one of the type it was asked
  for, with the right number of array elements and no key twice in a map, and leaves the
  position inside the input, which it does not change.
\<close>

theorem decoded_value_typed:
  "well_tagged t \<Longrightarrow>
   (rlp_Decode t b = Inr (v, d) \<longrightarrow> has_type t v \<and> data d = b \<and> pos d \<le> length b) \<and>
   (db_decode t b = Inr (v, d) \<longrightarrow> has_type t v \<and> data d = b \<and> pos d \<le> length b)"
proof -
  have "has_type t v \<and> data d = b \<and> pos d \<le> length b" if "decode c NoTag t \<lparr>data = b, pos = 0\<rparr> = Inr (v, d)" for c
    using decode_stays [of t c NoTag, unfolded stays_def, rule_format, OF that] by simp
  then show ?thesis by (simp add: rlp_Decode_def db_decode_def)
qed

theorem decoded_value_typed_witness:
  "has_type (TSlice TUint8) (VList [V8 7, V8 8]) \<and>
   rlp_Decode (TSlice TUint8) [2, 7, 8, 9] = Inr (VList [V8 7, V8 8], \<lparr>data = [2, 7, 8, 9], pos = 3\<rparr>)"
proof -
  have d: "rlp_Decode (TSlice TUint8) [2, 7, 8, 9] = Inr (VList [V8 7, V8 8], \<lparr>data = [2, 7, 8, 9], pos = 3\<rparr>)"
    by (simp add: codec_eval)
  moreover have "well_tagged (TSlice TUint8)" by simp
  ultimately show ?thesis
    using decoded_value_typed [of "TSlice TUint8" "[2, 7, 8, 9]" "VList [V8 7, V8 8]" "\<lparr>data = [2, 7, 8, 9], pos = 3\<rparr>"]
    by blast
qed

text \<open>
  A Go \<open>int\<close> is written as four bytes and read back without a sign: what returns is the
  value modulo two to the 32nd, which is the value itself exactly when it is not negative
  and fits into 32 bits.
\<close>

theorem int_loses_sign:
  "(\<exists>bs. encode c NoTag TInt (V64 w) = Inr bs \<and>
      decode c NoTag TInt \<lparr>data = bs, pos = 0\<rparr> = Inr (V64 (take_bit 32 w), \<lparr>data = bs, pos = 4\<rparr>)) \<and>
   (take_bit 32 w = w \<longleftrightarrow> 0 \<le> sint w \<and> sint w < 2 ^ 32)"
proof
  let ?bs = "writeUint32 c (ucast w)"
  have "length ?bs = 4" by (cases c) (simp_all add: writeUint32_def)
  moreover have "ucast (ucast w :: u32) = take_bit 32 w" by (rule bit_word_eqI) (auto simp: bit_ucast_iff bit_take_bit_iff)
  ultimately have "decode c NoTag TInt \<lparr>data = ?bs, pos = 0\<rparr> = Inr (V64 (take_bit 32 w), \<lparr>data = ?bs, pos = 4\<rparr>)"
    using reads_uint(2) [of c "ucast w"] by (simp add: reads_def unread_def advance_def)
  then show "\<exists>bs. encode c NoTag TInt (V64 w) = Inr bs \<and>
      decode c NoTag TInt \<lparr>data = bs, pos = 0\<rparr> = Inr (V64 (take_bit 32 w), \<lparr>data = bs, pos = 4\<rparr>)" by simp
  have b: "unat w < 2 ^ 64" using unsigned_less [of w, where ?'a = nat] by simp
  have "take_bit 32 w = w \<longleftrightarrow> take_bit 32 (unat w) = unat w"
    unfolding word_unat_eq_iff by (simp add: unsigned_take_bit_eq)
  also have "\<dots> \<longleftrightarrow> unat w < 2 ^ 32" by (rule take_bit_nat_eq_self_iff)
  also have "\<dots> \<longleftrightarrow> 0 \<le> sint w \<and> sint w < 2 ^ 32"
  proof (cases "unat w < 2 ^ 63")
    case True
    then have "sint w = int (unat w)" using sint_of_nat64 [OF True] by (simp only: of_nat_unat ucast_id)
    then show ?thesis by (auto simp only: of_nat_less_numeral_power_cancel_iff of_nat_0_le_iff)
  next
    case False
    then have "sint (of_nat (unat w) :: u64) = int (unat w) - 2 ^ 64" using b by (intro sint_huge) linarith+
    then have "sint w = int (unat w) - 2 ^ 64" by (simp only: of_nat_unat ucast_id)
    moreover have "int (unat w) < 2 ^ 64" using b by (simp only: of_nat_less_numeral_power_cancel_iff)
    ultimately have "\<not> 0 \<le> sint w" by linarith
    then show ?thesis using False by simp
  qed
  finally show "take_bit 32 w = w \<longleftrightarrow> 0 \<le> sint w \<and> sint w < 2 ^ 32" .
qed

text \<open>
  C34. Bad lengths. When the input ends inside a length, the wire decoder takes the length for zero and
  returns an empty string or slice without reading anything, and the database decoder fails. A
  length of 64 bits makes both panic.
\<close>

theorem bad_lengths:
  assumes "\<forall>b\<in>set bs. 0x80 \<le> b" "2 ^ 63 \<le> n" "n < 2 ^ 64"
  shows "rlp_Decode TString bs = Inr (VBytes [], \<lparr>data = bs, pos = 0\<rparr>) \<and>
    rlp_Decode (TSlice t) bs = Inr (VList [], \<lparr>data = bs, pos = 0\<rparr>) \<and>
    db_decode TString bs = Inl ErrVarIntBufferSize \<and> db_decode (TSlice t) bs = Inl ErrVarIntBufferSize \<and>
    rlp_Decode TString (PutUvarint n @ r) = Inl GoPanic \<and> rlp_Decode (TSlice t) (PutUvarint n @ r) = Inl GoPanic \<and>
    db_decode TString (PutUvarint n @ r) = Inl GoPanic \<and> db_decode (TSlice t) (PutUvarint n @ r) = Inl GoPanic"
proof -
  have s: "sint (of_nat n :: u64) < 0" using sint_huge [of n] assms(2, 3) by simp
  have "decode c NoTag (TSlice t) \<lparr>data = PutUvarint n @ r, pos = 0\<rparr> = Inl GoPanic" for c
    using ReadUvarint64_Put [OF assms(3), of c r] s by simp
  then show ?thesis
    using ReadUvarint64_cut [OF assms(1)] ReadByteArray_huge [OF assms(2, 3)]
    by (simp add: rlp_Decode_def db_decode_def ReadByteArray_def unread_def)
qed

theorem bad_lengths_witness:
  "rlp_Decode TString [0xFF, 0x80] = Inr (VBytes [], \<lparr>data = [0xFF, 0x80], pos = 0\<rparr>) \<and>
   rlp_Decode TString (PutUvarint (2 ^ 63) @ [1]) = Inl GoPanic"
  using bad_lengths [of "[0xFF, 0x80]" "2 ^ 63" TBool "[1]"] by simp

text \<open>
  C35. Encoded keys sort like the numbers they encode: comparing the bytes from the left gives
  the order of unsigned 64- and 128-bit numbers, and for the floating-point formats the order of sign
  and magnitude, with negative numbers, the negative zero among them, before the others.
\<close>

theorem key_order:
  "(writeUint64 Db x < writeUint64 Db y \<longleftrightarrow> x < y) \<and>
   (pack_Uint128 l h < pack_Uint128 l' h' \<longleftrightarrow> unat h * 2 ^ 64 + unat l < unat h' * 2 ^ 64 + unat l') \<and>
   (pack_Float64 x < pack_Float64 y \<longleftrightarrow> bits_less 64 (unat x) (unat y)) \<and>
   (pack_Float128 l h < pack_Float128 l' h' \<longleftrightarrow>
      bits_less 128 (unat h * 2 ^ 64 + unat l) (unat h' * 2 ^ 64 + unat l'))"
  using Float64_order [of x y] Float128_order [of l h l' h'] pair_less(1) [of "unat h" l "unat h'" l']
  by (simp add: pack_Uint128_def sortable word_less_nat_alt del: power_numeral)

end
