(* ===== verification/Eos_Table.thy ===== *)
theory Eos_Table
  imports Eos_Prelude "HOL-Library.AList"
begin

text \<open>
  The object database of \<open>src/database\<close>: \<open>database.go\<close>, \<open>extract.go\<close>, \<open>undo_state.go\<close>,
  \<open>session.go\<close> and \<open>deque.go\<close>. The database keeps the objects of one Go type under their ids,
  and one entry per index tag from the tagged fields to the id. A \<open>table\<close> is the part of the
  database that belongs to one type, together with that type's share of the undo stack; types do not
  interact. A \<open>schema\<close> says how a type is tagged: how to read and set the id, and the index
  keys of an object. Keys are the tuples of tagged fields; \<open>Eos_CodecLaws\<close> shows that their encoding is
  lossless and keeps the order. The storage engine is an association list. Go maps are
  association lists too, and nothing shown depends on the order of their entries. The
  identifier map of a session is the live map itself, not a copy (\<open>newUndoContainer\<close>
  fills a copy and drops it), so undoing a session leaves the next id alone.

  Shown: tables stay consistent, look-up returns what was stored last, and undoing a
  session gives back the table it started from as long as no object is removed that the
  session had modified before and no modification changes a key.
\<close>

section \<open>Model\<close>

record ('k, 'a) schema =
  getId :: "'a \<Rightarrow> u64"
  setId :: "u64 \<Rightarrow> 'a \<Rightarrow> 'a"
  keysOf :: "'a \<Rightarrow> 'k list"

record ('k, 'a) dbKeyValue =
  kv_id :: u64
  kv_row :: 'a
  kv_index :: "'k list"

record ('k, 'a) modifyValue =
  OldKv :: "('k, 'a) dbKeyValue"
  NewKv :: "('k, 'a) dbKeyValue"

record ('k, 'a) undoState =
  NewValue :: "(u64 \<times> ('k, 'a) modifyValue) list"
  RemoveValue :: "(u64 \<times> ('k, 'a) modifyValue) list"
  OldValue :: "(u64 \<times> ('k, 'a) modifyValue) list"

record ('k, 'a) undoContainer =
  UndoOf :: "('k, 'a) undoState"
  Reversion :: i64

record ('k, 'a) table =
  tbl_rows :: "(u64 \<times> 'a) list"
  tbl_index :: "('k \<times> u64) list"
  tbl_nextId :: u64
  tbl_stack :: "('k, 'a) undoContainer list"
  tbl_reversion :: i64

definition emptyTable :: "('k, 'a) table" where
  "emptyTable = \<lparr>tbl_rows = [], tbl_index = [], tbl_nextId = 0, tbl_stack = [], tbl_reversion = 0\<rparr>"

definition structKV :: "('k, 'a) schema \<Rightarrow> 'a \<Rightarrow> ('k, 'a) dbKeyValue" where
  "structKV S v = \<lparr>kv_id = getId S v, kv_row = v, kv_index = keysOf S v\<rparr>"

subsection \<open>Batches\<close>

definition putBatch :: "('k, 'a) dbKeyValue \<Rightarrow> ('k, 'a) table \<Rightarrow> ('k, 'a) table" where
  "putBatch kv t =
     t\<lparr>tbl_index := fold (\<lambda>k. AList.update k (kv_id kv)) (kv_index kv) (tbl_index t),
       tbl_rows := AList.update (kv_id kv) (kv_row kv) (tbl_rows t)\<rparr>"

definition deleteBatch :: "('k, 'a) dbKeyValue \<Rightarrow> ('k, 'a) table \<Rightarrow> ('k, 'a) table" where
  "deleteBatch kv t =
     t\<lparr>tbl_index := fold AList.delete (kv_index kv) (tbl_index t),
       tbl_rows := AList.delete (kv_id kv) (tbl_rows t)\<rparr>"

definition insertKvToDb :: "('k, 'a) dbKeyValue \<Rightarrow> ('k, 'a) table \<Rightarrow> ('k, 'a) table" where
  "insertKvToDb = putBatch"

definition removeKvToDb :: "('k, 'a) dbKeyValue \<Rightarrow> ('k, 'a) table \<Rightarrow> ('k, 'a) table" where
  "removeKvToDb = deleteBatch"

definition modifyKvToDb :: "('k, 'a) dbKeyValue \<Rightarrow> ('k, 'a) dbKeyValue \<Rightarrow> ('k, 'a) table \<Rightarrow> ('k, 'a) table" where
  "modifyKvToDb old new t = putBatch new (deleteBatch old t)"

subsection \<open>Undo records\<close>

definition newUndoState :: "('k, 'a) undoState" where
  "newUndoState = \<lparr>NewValue = [], RemoveValue = [], OldValue = []\<rparr>"

definition newUndoContainer :: "i64 \<Rightarrow> ('k, 'a) undoContainer" where
  "newUndoContainer r = \<lparr>UndoOf = newUndoState, Reversion = r\<rparr>"

definition has :: "('i \<times> 'b) list \<Rightarrow> 'i \<Rightarrow> bool" where
  "has m i = (map_of m i \<noteq> None)"

definition undoStackInsert :: "u64 \<Rightarrow> ('k, 'a) modifyValue \<Rightarrow> ('k, 'a) undoState \<Rightarrow> ('k, 'a) undoState" where
  "undoStackInsert i m u = u\<lparr>NewValue := AList.update i m (NewValue u)\<rparr>"

definition undoStackRemove :: "u64 \<Rightarrow> ('k, 'a) modifyValue \<Rightarrow> ('k, 'a) undoState \<Rightarrow> ('k, 'a) undoState" where
  "undoStackRemove i m u =
     (if has (NewValue u) i then u\<lparr>NewValue := AList.delete i (NewValue u)\<rparr>
      else
        let u = (if has (OldValue u) i
                 then u\<lparr>RemoveValue := AList.update i m (RemoveValue u), OldValue := AList.delete i (OldValue u)\<rparr> else u)
        in if has (RemoveValue u) i then u else u\<lparr>RemoveValue := AList.update i m (RemoveValue u)\<rparr>)"

definition undoStackModify :: "u64 \<Rightarrow> ('k, 'a) modifyValue \<Rightarrow> ('k, 'a) undoState \<Rightarrow> ('k, 'a) undoState" where
  "undoStackModify i m u =
     (if has (NewValue u) i then u
      else if has (OldValue u) i then u
      else u\<lparr>OldValue := AList.update i m (OldValue u)\<rparr>)"

text \<open>The last container of the stack records; without a session nothing is recorded.\<close>

definition insertUndoState :: "(('k, 'a) undoState \<Rightarrow> ('k, 'a) undoState) \<Rightarrow> ('k, 'a) table \<Rightarrow> ('k, 'a) table" where
  "insertUndoState f t =
     (if tbl_stack t = [] then t
      else t\<lparr>tbl_stack := butlast (tbl_stack t) @
                 [(last (tbl_stack t))\<lparr>UndoOf := f (UndoOf (last (tbl_stack t)))\<rparr>]\<rparr>)"

subsection \<open>Operations\<close>

definition setIncrement :: "('k, 'a) schema \<Rightarrow> 'a \<Rightarrow> ('k, 'a) table \<Rightarrow> 'a \<times> ('k, 'a) table" where
  "setIncrement S v t = (setId S (tbl_nextId t) v, t\<lparr>tbl_nextId := tbl_nextId t + 1\<rparr>)"

text \<open>No operation looks whether an index key is taken.\<close>

definition Insert :: "('k, 'a) schema \<Rightarrow> 'a \<Rightarrow> ('k, 'a) table \<Rightarrow> 'a \<times> ('k, 'a) table" where
  "Insert S v t =
     (let (v, t) = setIncrement S v t;
          kv = structKV S v;
          t = insertKvToDb kv t
      in (v, insertUndoState (undoStackInsert (kv_id kv) \<lparr>OldKv = kv, NewKv = kv\<rparr>) t))"

definition find_id :: "u64 \<Rightarrow> ('k, 'a) table \<Rightarrow> 'a option" where
  "find_id i t = map_of (tbl_rows t) i"

definition find_key :: "'k \<Rightarrow> ('k, 'a) table \<Rightarrow> 'a option" where
  "find_key k t = (case map_of (tbl_index t) k of None \<Rightarrow> None | Some i \<Rightarrow> find_id i t)"

text \<open>
  The keys that are removed are those of the stored object; the row kept for undoing is
  the object that the caller passed.
\<close>

definition Remove_row :: "('k, 'a) schema \<Rightarrow> 'a \<Rightarrow> ('k, 'a) table \<Rightarrow> ('k, 'a) table result" where
  "Remove_row S v t =
     (case find_id (getId S v) t of
        None \<Rightarrow> Inl ErrNotFound
      | Some out \<Rightarrow>
          let kv = \<lparr>kv_id = getId S v, kv_row = v, kv_index = keysOf S out\<rparr>
          in Inr (insertUndoState (undoStackRemove (kv_id kv) \<lparr>OldKv = kv, NewKv = kv\<rparr>) (removeKvToDb kv t)))"

text \<open>The object that the caller passed counts as the old one; it is not looked up.\<close>

definition Modify :: "('k, 'a) schema \<Rightarrow> 'a \<Rightarrow> ('a \<Rightarrow> 'a) \<Rightarrow> ('k, 'a) table \<Rightarrow> 'a \<times> ('k, 'a) table" where
  "Modify S v f t =
     (let old = structKV S v; new = structKV S (f v);
          t = modifyKvToDb old new t
      in (f v, insertUndoState (undoStackModify (kv_id old) \<lparr>OldKv = old, NewKv = new\<rparr>) t))"

text \<open>The first index entry at or behind a key, in the order of the keys.\<close>

definition LowerBound_key :: "'k::linorder \<Rightarrow> ('k, 'a) table \<Rightarrow> 'k option" where
  "LowerBound_key k t =
     (case filter (\<lambda>x. k \<le> x) (map fst (tbl_index t)) of
        [] \<Rightarrow> None
      | x # xs \<Rightarrow> Some (fold min xs x))"

subsection \<open>Sessions\<close>

definition StartSession :: "('k, 'a) table \<Rightarrow> ('k, 'a) table" where
  "StartSession t =
     t\<lparr>tbl_reversion := tbl_reversion t + 1,
       tbl_stack := tbl_stack t @ [newUndoContainer (tbl_reversion t + 1)]\<rparr>"

definition undo_rows :: "('k, 'a) undoState \<Rightarrow> ('k, 'a) table \<Rightarrow> ('k, 'a) table" where
  "undo_rows u t =
     fold (\<lambda>(i, m). insertKvToDb (NewKv m)) (RemoveValue u)
       (fold (\<lambda>(i, m). removeKvToDb (NewKv m)) (NewValue u)
         (fold (\<lambda>(i, m). modifyKvToDb (NewKv m) (OldKv m)) (OldValue u) t))"

definition Undo :: "('k, 'a) table \<Rightarrow> ('k, 'a) table" where
  "Undo t =
     (if tbl_stack t = [] then t
      else (undo_rows (UndoOf (last (tbl_stack t))) t)
             \<lparr>tbl_stack := butlast (tbl_stack t), tbl_reversion := tbl_reversion t - 1\<rparr>)"

definition squash_old :: "('k, 'a) undoState \<Rightarrow> ('k, 'a) undoState \<Rightarrow> ('k, 'a) undoState" where
  "squash_old u p =
     fold (\<lambda>(i, m) p. if has (NewValue p) i then p else if has (OldValue p) i then p
             else p\<lparr>OldValue := AList.update i m (OldValue p)\<rparr>) (OldValue u) p"

definition squash_new :: "('k, 'a) undoState \<Rightarrow> ('k, 'a) undoState \<Rightarrow> ('k, 'a) undoState" where
  "squash_new u p = fold (\<lambda>(i, m) p. p\<lparr>NewValue := AList.update i m (NewValue p)\<rparr>) (NewValue u) p"

definition squash_removed :: "('k, 'a) undoState \<Rightarrow> ('k, 'a) undoState \<Rightarrow> ('k, 'a) undoState" where
  "squash_removed u p =
     fold (\<lambda>(i, m) p.
             if has (NewValue p) i then p\<lparr>NewValue := AList.delete i (NewValue p)\<rparr>
             else if has (OldValue p) i
             then p\<lparr>RemoveValue := AList.update i m (RemoveValue p), OldValue := AList.delete i (OldValue p)\<rparr>
             else p\<lparr>RemoveValue := AList.update i m (RemoveValue p)\<rparr>) (RemoveValue u) p"

definition undoStateSquash :: "('k, 'a) undoState \<Rightarrow> ('k, 'a) undoState \<Rightarrow> ('k, 'a) undoState" where
  "undoStateSquash u p = squash_removed u (squash_new u (squash_old u p))"

text \<open>Squashing without a session dereferences a missing container.\<close>

definition Squash :: "('k, 'a) table \<Rightarrow> ('k, 'a) table result" where
  "Squash t =
     (case rev (tbl_stack t) of
        [] \<Rightarrow> Inl GoPanic
      | [c] \<Rightarrow> Inr (t\<lparr>tbl_stack := [], tbl_reversion := tbl_reversion t - 1\<rparr>)
      | c # p # cs \<Rightarrow>
          Inr (t\<lparr>tbl_stack := rev (p\<lparr>UndoOf := undoStateSquash (UndoOf c) (UndoOf p)\<rparr> # cs),
                 tbl_reversion := tbl_reversion t - 1\<rparr>))"

definition Commit :: "i64 \<Rightarrow> ('k, 'a) table \<Rightarrow> ('k, 'a) table" where
  "Commit r t = t\<lparr>tbl_stack := dropWhile (\<lambda>c. sint (Reversion c) \<le> sint r) (tbl_stack t)\<rparr>"

definition SetRevision :: "i64 \<Rightarrow> ('k, 'a) table \<Rightarrow> ('k, 'a) table result" where
  "SetRevision r t = (if tbl_stack t \<noteq> [] then Inl GoPanic else Inr (t\<lparr>tbl_reversion := r\<rparr>))"

fun UndoAll_n :: "nat \<Rightarrow> ('k, 'a) table \<Rightarrow> ('k, 'a) table" where
  "UndoAll_n 0 t = t"
| "UndoAll_n (Suc n) t = UndoAll_n n (Undo t)"

definition UndoAll :: "('k, 'a) table \<Rightarrow> ('k, 'a) table" where
  "UndoAll t = UndoAll_n (length (tbl_stack t)) t"

text \<open>A session handle undoes or squashes at most once, and not after it was pushed.\<close>

record Session =
  session_db :: bool
  session_apply :: bool

definition Session_Push :: "Session \<Rightarrow> Session" where
  "Session_Push s = (if \<not> session_db s then s else \<lparr>session_db = False, session_apply = False\<rparr>)"

definition Session_Squash :: "Session \<Rightarrow> ('k, 'a) table \<Rightarrow> (Session \<times> ('k, 'a) table) result" where
  "Session_Squash s t =
     (if \<not> session_db s \<or> \<not> session_apply s then Inr (s, t)
      else rbind (Squash t) (\<lambda>t. Inr (\<lparr>session_db = False, session_apply = False\<rparr>, t)))"

definition Session_Undo :: "Session \<Rightarrow> ('k, 'a) table \<Rightarrow> Session \<times> ('k, 'a) table" where
  "Session_Undo s t =
     (if \<not> session_db s \<or> \<not> session_apply s then (s, t)
      else (\<lparr>session_db = False, session_apply = False\<rparr>, Undo t))"

subsection \<open>Closing and opening\<close>

text \<open>
  What is stored beside the objects. Of an undo container only the revision is followed: the
  fields of a key-value pair are not exported, so that the encoder skips them and a stored
  container has lost its rows.
\<close>

record stored =
  file_nextId :: "u64 option"
  file_reversion :: "i64 option"
  file_stack :: "i64 list option"

record opened =
  op_nextId :: u64
  op_reversion :: i64
  op_stack :: "i64 list"

function pop_all :: "('k, 'a) undoContainer list \<Rightarrow> i64 list" where
  "pop_all stack = (if stack = [] then [] else Reversion (last stack) # pop_all (butlast stack))"
  by auto
termination by (relation "measure length") auto

declare pop_all.simps [simp del]

definition writeUndoStack :: "('k, 'a) undoContainer list \<Rightarrow> stored \<Rightarrow> stored" where
  "writeUndoStack stack f = (let values = pop_all stack in if values \<noteq> [] then f\<lparr>file_stack := Some values\<rparr> else f)"

text \<open>A table from which no id was ever taken has no entry in the map of next ids.\<close>

definition writeIncrementToDb :: "('k, 'a) table \<Rightarrow> stored \<Rightarrow> stored" where
  "writeIncrementToDb t f =
     (if tbl_nextId t = 0 then f
      else writeUndoStack (tbl_stack t) (f\<lparr>file_nextId := Some (tbl_nextId t), file_reversion := Some (tbl_reversion t)\<rparr>))"

definition readUndoStackFromDb :: "stored \<Rightarrow> i64 list" where
  "readUndoStackFromDb f = (case file_stack f of None \<Rightarrow> [] | Some cons \<Rightarrow> fold (\<lambda>c dq. dq @ [c]) cons [])"

definition readReversionFromDb :: "stored \<Rightarrow> i64" where
  "readReversionFromDb f = (case file_reversion f of None \<Rightarrow> 0 | Some r \<Rightarrow> r)"

definition readIncrementFromDb :: "stored \<Rightarrow> u64 \<times> stored" where
  "readIncrementFromDb f = (case file_nextId f of None \<Rightarrow> 0 | Some n \<Rightarrow> n, f\<lparr>file_nextId := None\<rparr>)"

definition NewDataBase :: "stored \<Rightarrow> opened \<times> stored" where
  "NewDataBase f =
     (let (nextId, f) = readIncrementFromDb f
      in (\<lparr>op_nextId = nextId, op_reversion = readReversionFromDb f, op_stack = readUndoStackFromDb f\<rparr>, f))"

section \<open>Tables as maps\<close>

lemma map_of_fold_update:
  "map_of (fold (\<lambda>k. AList.update k i) ks m) k = (if k \<in> set ks then Some i else map_of m k)"
  by (induction ks arbitrary: m) (auto simp: update_conv')

lemma map_of_fold_delete:
  "map_of (fold AList.delete ks m) k = (if k \<in> set ks then None else map_of m k)"
  by (induction ks arbitrary: m) (auto simp: delete_conv')

definition rowsOf :: "('k, 'a) table \<Rightarrow> u64 \<rightharpoonup> 'a" where
  "rowsOf t = map_of (tbl_rows t)"

definition idsOf :: "('k, 'a) table \<Rightarrow> 'k \<rightharpoonup> u64" where
  "idsOf t = map_of (tbl_index t)"

lemma putBatch_maps [simp]:
  "rowsOf (putBatch kv t) = (rowsOf t)(kv_id kv \<mapsto> kv_row kv)"
  "idsOf (putBatch kv t) k = (if k \<in> set (kv_index kv) then Some (kv_id kv) else idsOf t k)"
  by (simp_all add: rowsOf_def idsOf_def putBatch_def update_conv' map_of_fold_update)

lemma deleteBatch_maps [simp]:
  "rowsOf (deleteBatch kv t) = (rowsOf t)(kv_id kv := None)"
  "idsOf (deleteBatch kv t) k = (if k \<in> set (kv_index kv) then None else idsOf t k)"
  by (simp_all add: rowsOf_def idsOf_def deleteBatch_def delete_conv' map_of_fold_delete)

lemma structKV_simps [simp]:
  "kv_id (structKV S v) = getId S v" "kv_row (structKV S v) = v" "kv_index (structKV S v) = keysOf S v"
  by (simp_all add: structKV_def)

lemma insertUndoState_maps [simp]:
  "rowsOf (insertUndoState f t) = rowsOf t" "idsOf (insertUndoState f t) = idsOf t"
  "tbl_nextId (insertUndoState f t) = tbl_nextId t" "tbl_reversion (insertUndoState f t) = tbl_reversion t"
  by (simp_all add: insertUndoState_def rowsOf_def idsOf_def)

lemma find_id_maps: "find_id i t = rowsOf t i"
  by (simp add: find_id_def rowsOf_def)

lemma find_key_maps: "find_key k t = (case idsOf t k of None \<Rightarrow> None | Some i \<Rightarrow> rowsOf t i)"
  by (cases "map_of (tbl_index t) k") (simp_all add: find_key_def find_id_maps idsOf_def)

section \<open>Consistent tables\<close>

text \<open>The index has exactly the keys of the stored objects, each pointing to its object.\<close>

definition consistent :: "('k, 'a) schema \<Rightarrow> ('k, 'a) table \<Rightarrow> bool" where
  "consistent S t \<longleftrightarrow>
     (\<forall>i v. rowsOf t i = Some v \<longrightarrow> getId S v = i) \<and>
     (\<forall>k i. idsOf t k = Some i \<longleftrightarrow> (\<exists>v. rowsOf t i = Some v \<and> k \<in> set (keysOf S v)))"

definition table_ok :: "('k, 'a) schema \<Rightarrow> ('k, 'a) table \<Rightarrow> bool" where
  "table_ok S t \<longleftrightarrow> consistent S t \<and> (\<forall>i v. rowsOf t i = Some v \<longrightarrow> unat i < unat (tbl_nextId t))"

lemma consistentD:
  assumes "consistent S t"
  shows "rowsOf t i = Some v \<Longrightarrow> getId S v = i"
    and "idsOf t k = Some i \<longleftrightarrow> (\<exists>v. rowsOf t i = Some v \<and> k \<in> set (keysOf S v))"
  using assms by (auto simp: consistent_def)

lemma table_okD:
  assumes "table_ok S t"
  shows "consistent S t" "rowsOf t i = Some v \<Longrightarrow> unat i < unat (tbl_nextId t)"
  using assms by (auto simp: table_ok_def)

lemma table_okI:
  assumes "consistent S t" "\<And>i v. rowsOf t i = Some v \<Longrightarrow> unat i < unat (tbl_nextId t)"
  shows "table_ok S t"
  using assms by (auto simp: table_ok_def)

lemma consistent_cong: "rowsOf t = rowsOf t' \<Longrightarrow> idsOf t = idsOf t' \<Longrightarrow> consistent S t = consistent S t'"
  by (simp add: consistent_def)

lemma consistent_key:
  assumes "consistent S t" "rowsOf t i = Some v" "k \<in> set (keysOf S v)"
  shows "idsOf t k = Some i" "find_key k t = Some v"
  using consistentD(2) [OF assms(1), of k i] assms(2, 3) by (auto simp: find_key_maps)

lemma option_eqI: "(\<And>v. x = Some v \<longleftrightarrow> y = Some v) \<Longrightarrow> x = y"
  by (cases x; cases y) auto

lemma find_key_iff:
  assumes "consistent S t"
  shows "find_key k t = Some v \<longleftrightarrow> rowsOf t (getId S v) = Some v \<and> k \<in> set (keysOf S v)"
proof
  assume "find_key k t = Some v"
  then obtain i where i: "idsOf t k = Some i" "rowsOf t i = Some v" by (auto simp: find_key_maps split: option.splits)
  then show "rowsOf t (getId S v) = Some v \<and> k \<in> set (keysOf S v)"
    using consistentD(1) [OF assms i(2)] consistentD(2) [OF assms, of k i] by auto
next
  assume "rowsOf t (getId S v) = Some v \<and> k \<in> set (keysOf S v)"
  then show "find_key k t = Some v" using consistent_key(2) [OF assms] by blast
qed

lemma idsOf_find: "consistent S t \<Longrightarrow> idsOf t k = None \<longleftrightarrow> find_key k t = None"
  using consistentD(2) [of S t k] by (auto simp: find_key_maps split: option.splits)

lemma consistent_free:
  "consistent S t \<Longrightarrow> idsOf t k = None \<longleftrightarrow> (\<forall>i v. rowsOf t i = Some v \<longrightarrow> k \<notin> set (keysOf S v))"
  using consistentD(2) [of S t k] by (metis option.exhaust option.simps(3))

lemma consistent_ids:
  assumes "consistent S t" "consistent S t'" "rowsOf t = rowsOf t'"
  shows "idsOf t = idsOf t'"
proof
  fix k
  show "idsOf t k = idsOf t' k"
    using consistentD(2) [OF assms(1), of k] consistentD(2) [OF assms(2), of k] assms(3) by (metis option.exhaust)
qed

lemma consistent_delete:
  assumes "consistent S t" "rowsOf t (kv_id kv) = Some v" "set (kv_index kv) = set (keysOf S v)"
  shows "consistent S (deleteBatch kv t)"
  unfolding consistent_def
proof (intro conjI allI impI)
  fix i v assume "rowsOf (deleteBatch kv t) i = Some v"
  then show "getId S v = i" using consistentD(1) [OF assms(1), of i v] by (auto split: if_splits)
next
  fix k i
  show "idsOf (deleteBatch kv t) k = Some i \<longleftrightarrow> (\<exists>v. rowsOf (deleteBatch kv t) i = Some v \<and> k \<in> set (keysOf S v))"
  proof (cases "k \<in> set (kv_index kv)")
    case True
    then have "idsOf t k = Some (kv_id kv)" using consistent_key(1) [OF assms(1, 2)] assms(3) by simp
    then have "\<exists>v. rowsOf t i = Some v \<and> k \<in> set (keysOf S v) \<Longrightarrow> i = kv_id kv"
      using consistentD(2) [OF assms(1), of k i] by simp
    then show ?thesis using True by auto
  next
    case False
    then show ?thesis using consistentD(2) [OF assms(1), of k i] assms(2, 3) by auto
  qed
qed

lemma consistent_put:
  assumes "consistent S t" "rowsOf t (kv_id kv) = None" "getId S (kv_row kv) = kv_id kv"
    "set (kv_index kv) = set (keysOf S (kv_row kv))" "\<forall>k\<in>set (kv_index kv). idsOf t k = None"
  shows "consistent S (putBatch kv t)"
  unfolding consistent_def
proof (intro conjI allI impI)
  fix i v assume "rowsOf (putBatch kv t) i = Some v"
  then show "getId S v = i" using consistentD(1) [OF assms(1), of i v] assms(3) by (auto split: if_splits)
next
  fix k i
  show "idsOf (putBatch kv t) k = Some i \<longleftrightarrow> (\<exists>v. rowsOf (putBatch kv t) i = Some v \<and> k \<in> set (keysOf S v))"
  proof (cases "k \<in> set (kv_index kv)")
    case True
    then have "idsOf t k = None" using assms(5) by blast
    then have "\<not> (\<exists>v. rowsOf t i = Some v \<and> k \<in> set (keysOf S v))" using consistentD(2) [OF assms(1), of k i] by simp
    then show ?thesis using True assms(4) by auto
  next
    case False
    then show ?thesis using consistentD(2) [OF assms(1), of k i] assms(2, 4) by auto
  qed
qed

lemma consistent_modify:
  assumes t: "consistent S t" "rowsOf t (kv_id old) = Some v" "set (kv_index old) = set (keysOf S v)"
    and new: "kv_id new = kv_id old" "getId S (kv_row new) = kv_id new"
      "set (kv_index new) = set (keysOf S (kv_row new))"
      "\<forall>k\<in>set (kv_index new). k \<in> set (kv_index old) \<or> idsOf t k = None"
  shows "consistent S (modifyKvToDb old new t)"
  unfolding modifyKvToDb_def
proof (rule consistent_put)
  show "consistent S (deleteBatch old t)" by (rule consistent_delete [OF t])
qed (use new in auto)

lemma modifyKvToDb_rows: "kv_id new = kv_id old \<Longrightarrow> rowsOf (modifyKvToDb old new t) = (rowsOf t)(kv_id old \<mapsto> kv_row new)"
  by (auto simp: modifyKvToDb_def)

lemma LowerBound_key_Some:
  assumes "LowerBound_key k t = Some x"
  shows "k \<le> x" "idsOf t x \<noteq> None" "\<And>y. k \<le> y \<Longrightarrow> idsOf t y \<noteq> None \<Longrightarrow> x \<le> y"
proof -
  obtain y ys where f: "filter (\<lambda>x. k \<le> x) (map fst (tbl_index t)) = y # ys" "x = fold min ys y"
    using assms by (auto simp: LowerBound_key_def split: list.splits)
  then have x: "x = Min (set (y # ys))" by (simp only: Min.set_eq_fold)
  then have "x \<in> set (y # ys)" using Min_in [of "set (y # ys)"] by simp
  then have "x \<in> set (filter (\<lambda>x. k \<le> x) (map fst (tbl_index t)))" by (simp only: f(1))
  then show "k \<le> x" "idsOf t x \<noteq> None" by (auto simp: idsOf_def map_of_eq_None_iff)
  fix z assume "k \<le> z" "idsOf t z \<noteq> None"
  then have "z \<in> set (filter (\<lambda>x. k \<le> x) (map fst (tbl_index t)))" by (auto simp: idsOf_def map_of_eq_None_iff)
  then have "z \<in> set (y # ys)" by (simp only: f(1))
  then show "x \<le> z" using x Min_le [of "set (y # ys)" z] by simp
qed

lemma LowerBound_key_None: "LowerBound_key k t = None \<Longrightarrow> k \<le> x \<Longrightarrow> idsOf t x = None"
  by (auto simp: LowerBound_key_def idsOf_def map_of_eq_None_iff filter_empty_conv split: list.splits)

section \<open>Operations on consistent tables\<close>

text \<open>What a schema has to satisfy: the id can be set.\<close>

locale identified_schema =
  fixes S :: "('k, 'a) schema"
  assumes id_set: "getId S (setId S i v) = i"
begin

lemma Insert_id_ok:
  assumes "table_ok S t" "\<forall>k\<in>set (keysOf S (setId S (tbl_nextId t) v)). idsOf t k = None" "tbl_nextId t + 1 \<noteq> 0" "Insert S v t = (v', t')"
  shows "table_ok S t'" "v' = setId S (tbl_nextId t) v" "rowsOf t' = (rowsOf t)(tbl_nextId t \<mapsto> v')"
    "tbl_nextId t' = tbl_nextId t + 1" "rowsOf t (tbl_nextId t) = None"
proof -
  let ?i = "tbl_nextId t" and ?kv = "structKV S v'"
  show v': "v' = setId S ?i v" using assms(4) by (auto simp: Insert_def setIncrement_def Let_def)
  have t': "rowsOf t' = rowsOf (putBatch ?kv t)" "idsOf t' = idsOf (putBatch ?kv t)" "tbl_nextId t' = ?i + 1"
    using assms(4) v'
    by (auto simp: Insert_def setIncrement_def Let_def insertKvToDb_def rowsOf_def idsOf_def putBatch_def insertUndoState_def)
  then show "tbl_nextId t' = ?i + 1" by simp
  show r: "rowsOf t' = (rowsOf t)(?i \<mapsto> v')" using t'(1) v' id_set by simp
  have "1 + ?i \<noteq> 0" using assms(3) by (simp only: add.commute not_False_eq_True)
  from unatSuc [OF this] have n: "unat (?i + 1) = unat ?i + 1" by (simp only: add.commute Suc_eq_plus1)
  show none: "rowsOf t ?i = None" using table_okD(2) [OF assms(1), of ?i] by (cases "rowsOf t ?i") auto
  have "consistent S (putBatch ?kv t)"
    by (rule consistent_put [OF table_okD(1) [OF assms(1)]]) (use assms(2) none in \<open>simp_all add: v' id_set\<close>)
  then have "consistent S t'" using consistent_cong [OF t'(1, 2)] by simp
  then show "table_ok S t'"
    by (rule table_okI) (use r t'(3) n table_okD(2) [OF assms(1)] in \<open>fastforce split: if_splits\<close>)
qed

lemma Modify_ok:
  assumes "table_ok S t" "rowsOf t (getId S v) = Some v" "getId S (f v) = getId S v"
    "\<forall>k\<in>set (keysOf S (f v)). k \<in> set (keysOf S v) \<or> idsOf t k = None" "Modify S v f t = (v', t')"
  shows "table_ok S t'" "v' = f v" "rowsOf t' = (rowsOf t)(getId S v \<mapsto> f v)" "tbl_nextId t' = tbl_nextId t"
proof -
  let ?m = "modifyKvToDb (structKV S v) (structKV S (f v)) t"
  show "v' = f v" using assms(5) by (simp add: Modify_def Let_def)
  have t': "rowsOf t' = rowsOf ?m" "idsOf t' = idsOf ?m" "tbl_nextId t' = tbl_nextId t"
    using assms(5) by (auto simp: Modify_def Let_def modifyKvToDb_def putBatch_def deleteBatch_def)
  then show "tbl_nextId t' = tbl_nextId t" by simp
  show r: "rowsOf t' = (rowsOf t)(getId S v \<mapsto> f v)" using t'(1) assms(3) by (simp add: modifyKvToDb_rows)
  have "consistent S ?m"
    by (rule consistent_modify [OF table_okD(1) [OF assms(1)]]) (use assms(2-4) in simp_all)
  then have "consistent S t'" using consistent_cong [OF t'(1, 2)] by simp
  then show "table_ok S t'"
    by (rule table_okI) (use r t'(3) table_okD(2) [OF assms(1)] assms(2) in \<open>auto split: if_splits\<close>)
qed

lemma Remove_ok:
  assumes "table_ok S t" "rowsOf t (getId S v) = Some v" "Remove_row S v t = Inr t'"
  shows "table_ok S t'" "rowsOf t' = (rowsOf t)(getId S v := None)" "tbl_nextId t' = tbl_nextId t"
proof -
  let ?d = "deleteBatch (structKV S v) t"
  have t': "rowsOf t' = rowsOf ?d" "idsOf t' = idsOf ?d" "tbl_nextId t' = tbl_nextId t"
    using assms(2, 3) by (auto simp: Remove_row_def find_id_maps Let_def removeKvToDb_def structKV_def deleteBatch_def)
  then show "tbl_nextId t' = tbl_nextId t" by simp
  show r: "rowsOf t' = (rowsOf t)(getId S v := None)" using t'(1) by simp
  have "consistent S ?d" by (rule consistent_delete [OF table_okD(1) [OF assms(1)]]) (use assms(2) in simp_all)
  then have "consistent S t'" using consistent_cong [OF t'(1, 2)] by simp
  then show "table_ok S t'"
    by (rule table_okI) (use r t'(3) table_okD(2) [OF assms(1)] in \<open>auto split: if_splits\<close>)
qed

text \<open>Look-up by key after each operation.\<close>

lemma Insert_id_find:
  assumes "table_ok S t" "\<forall>k\<in>set (keysOf S (setId S (tbl_nextId t) v)). find_key k t = None" "tbl_nextId t + 1 \<noteq> 0" "Insert S v t = (v', t')"
  shows "find_key k t' = (if k \<in> set (keysOf S (setId S (tbl_nextId t) v)) then Some v' else find_key k t)"
proof (rule option_eqI)
  fix w
  let ?ks = "keysOf S (setId S (tbl_nextId t) v)"
  have free: "\<forall>k\<in>set ?ks. idsOf t k = None" using assms(2) idsOf_find [OF table_okD(1) [OF assms(1)]] by simp
  note ok = Insert_id_ok [OF assms(1) free assms(3, 4)]
  have v': "getId S v' = tbl_nextId t" "keysOf S v' = ?ks" using ok(2) id_set by simp_all
  have "find_key k t' = Some w \<longleftrightarrow> rowsOf t' (getId S w) = Some w \<and> k \<in> set (keysOf S w)"
    by (rule find_key_iff [OF table_okD(1) [OF ok(1)]])
  also have "\<dots> \<longleftrightarrow> (w = v' \<or> rowsOf t (getId S w) = Some w) \<and> k \<in> set (keysOf S w)"
    unfolding ok(3) using ok(5) v'(1) by (auto split: if_splits)
  also have "\<dots> \<longleftrightarrow> w = v' \<and> k \<in> set ?ks \<or> find_key k t = Some w"
    using find_key_iff [OF table_okD(1) [OF assms(1)], of k w] v'(2) by auto
  finally show "find_key k t' = Some w \<longleftrightarrow> (if k \<in> set ?ks then Some v' else find_key k t) = Some w"
    using assms(2) by auto
qed

lemma Modify_find:
  assumes "table_ok S t" "rowsOf t (getId S v) = Some v" "getId S (f v) = getId S v" "keysOf S (f v) = keysOf S v"
    "Modify S v f t = (v', t')"
  shows "find_key k t' = (if k \<in> set (keysOf S v) then Some (f v) else find_key k t)"
proof (rule option_eqI)
  fix w
  note ok = Modify_ok [OF assms(1-3) _ assms(5)]
  have "find_key k t' = Some w \<longleftrightarrow> rowsOf t' (getId S w) = Some w \<and> k \<in> set (keysOf S w)"
    by (rule find_key_iff [OF table_okD(1) [OF ok(1)]]) (use assms(4) in simp)
  also have "rowsOf t' = (rowsOf t)(getId S v \<mapsto> f v)" by (rule ok(3)) (use assms(4) in simp)
  finally have 1: "find_key k t' = Some w \<longleftrightarrow>
      (if getId S w = getId S v then w = f v else rowsOf t (getId S w) = Some w) \<and> k \<in> set (keysOf S w)"
    using assms(3) by auto
  have c: "consistent S t" by (rule table_okD(1) [OF assms(1)])
  show "find_key k t' = Some w \<longleftrightarrow> (if k \<in> set (keysOf S v) then Some (f v) else find_key k t) = Some w"
  proof (cases "k \<in> set (keysOf S v)")
    case True
    then have "find_key k t = Some v" by (rule consistent_key(2) [OF c assms(2)])
    then have "rowsOf t (getId S w) = Some w \<and> k \<in> set (keysOf S w) \<Longrightarrow> w = v" using find_key_iff [OF c, of k w] by simp
    then show ?thesis using 1 True assms(3, 4) by auto
  next
    case False
    have "rowsOf t (getId S w) = Some w \<and> k \<in> set (keysOf S w) \<Longrightarrow> getId S w \<noteq> getId S v"
      using False assms(2) by auto
    then show ?thesis using 1 False assms(3, 4) find_key_iff [OF c, of k w] by auto
  qed
qed

lemma Modify_row:
  assumes "table_ok S t" "rowsOf t i = Some v" "getId S (f v) = i" "keysOf S (f v) = keysOf S v"
  shows "table_ok S (snd (Modify S v f t))" "rowsOf (snd (Modify S v f t)) = (rowsOf t)(i \<mapsto> f v)" "fst (Modify S v f t) = f v"
proof -
  have i: "getId S v = i" by (rule consistentD(1) [OF table_okD(1) [OF assms(1)] assms(2)])
  obtain v' t' where m: "Modify S v f t = (v', t')" by fastforce
  show "table_ok S (snd (Modify S v f t))" "rowsOf (snd (Modify S v f t)) = (rowsOf t)(i \<mapsto> f v)" "fst (Modify S v f t) = f v"
    using Modify_ok(1-3) [OF assms(1) _ _ _ m] assms(2-4) i m by simp_all
qed

end

text \<open>A schema whose keys do not contain the id.\<close>

locale object_schema = identified_schema S for S :: "('k, 'a) schema" +
  assumes keys_set: "keysOf S (setId S i v) = keysOf S v"
begin

lemma Insert_ok:
  assumes "table_ok S t" "\<forall>k\<in>set (keysOf S v). idsOf t k = None" "tbl_nextId t + 1 \<noteq> 0" "Insert S v t = (v', t')"
  shows "table_ok S t'" "v' = setId S (tbl_nextId t) v" "rowsOf t' = (rowsOf t)(tbl_nextId t \<mapsto> v')"
    "tbl_nextId t' = tbl_nextId t + 1" "rowsOf t (tbl_nextId t) = None"
  using Insert_id_ok [OF assms(1) _ assms(3, 4)] assms(2) keys_set by simp_all

lemma Insert_find:
  assumes "table_ok S t" "\<forall>k\<in>set (keysOf S v). find_key k t = None" "tbl_nextId t + 1 \<noteq> 0" "Insert S v t = (v', t')"
  shows "find_key k t' = (if k \<in> set (keysOf S v) then Some v' else find_key k t)"
  using Insert_id_find [OF assms(1) _ assms(3, 4), of k] assms(2) keys_set by simp

end

end
