(* ===== verification/Eos_LongDivision.thy ===== *)
theory Eos_LongDivision
  imports Eos_Prelude
begin

text \<open>
  Binary long division as an interface. The software integers of
  \<open>src/common/eos_math\<close> divide with the same loop at 128 and at 256 bits: shift the
  remainder and the quotient left, bring down the next bit of the dividend, and subtract
  the divisor when it fits. The locale \<open>long_division\<close> names the operations the loop body
  calls and the laws they satisfy on the represented number; the loop is proved once
  here and interpreted by each integer type on its own operations. The law for the left
  shift is only required where no bit is shifted out: the partial remainder is bounded
  by the prefix of the dividend consumed so far, so the loop never needs more.
\<close>

lemma long_division_step:
  fixes p d b :: nat
  assumes "0 < d" and "b \<le> 1"
  shows "(2 * p + b) div d = 2 * (p div d) + of_bool (d \<le> 2 * (p mod d) + b)"
    and "(2 * p + b) mod d =
      (if d \<le> 2 * (p mod d) + b then 2 * (p mod d) + b - d else 2 * (p mod d) + b)"
proof -
  let ?r = "2 * (p mod d) + b"
  have r: "?r < 2 * d" using assms mod_less_divisor [of d p] by linarith
  have "2 * p + b = 2 * (d * (p div d) + p mod d) + b" by simp
  also have "\<dots> = d * (2 * (p div d)) + ?r" by (simp only: distrib_left ac_simps)
  finally have p: "2 * p + b = d * (2 * (p div d)) + ?r" .
  have "(2 * p + b) div d = 2 * (p div d) + ?r div d"
    unfolding p using assms(1) by simp
  moreover have "?r div d = of_bool (d \<le> ?r)"
    using r by (auto simp: div_nat_eqI)
  ultimately show "(2 * p + b) div d = 2 * (p div d) + of_bool (d \<le> ?r)" by simp
  have "(2 * p + b) mod d = ?r mod d"
    unfolding p by simp
  also have "\<dots> = (if d \<le> ?r then ?r - d else ?r)"
    using r by (simp add: le_mod_geq)
  finally show "(2 * p + b) mod d = (if d \<le> ?r then ?r - d else ?r)" .
qed

locale long_division =
  fixes val :: "'a \<Rightarrow> nat"
    and width :: nat
    and zero :: 'a
    and shl :: "'a \<Rightarrow> 'a"
    and inc :: "'a \<Rightarrow> 'a"
    and sub :: "'a \<Rightarrow> 'a \<Rightarrow> 'a"
    and geq :: "'a \<Rightarrow> 'a \<Rightarrow> bool"
    and getat :: "'a \<Rightarrow> nat \<Rightarrow> bool"
    and body :: "'a \<Rightarrow> 'a \<Rightarrow> nat \<Rightarrow> 'a \<times> 'a \<Rightarrow> 'a \<times> 'a"
  assumes val_bound: "val x < 2 ^ width"
    and val_zero: "val zero = 0"
    and val_shl: "2 * val x < 2 ^ width \<Longrightarrow> val (shl x) = 2 * val x"
    and val_inc: "even (val x) \<Longrightarrow> val (inc x) = val x + 1"
    and val_sub: "val y \<le> val x \<Longrightarrow> val (sub x y) = val x - val y"
    and geq_iff: "geq x y \<longleftrightarrow> val y \<le> val x"
    and getat_iff: "i < width \<Longrightarrow> getat x i \<longleftrightarrow> odd (val x div 2 ^ i)"
    and body_eq: "body u d i QR =
      (let R = shl (snd QR); Q = shl (fst QR);
           R = (if getat u (width - 1 - i) then inc R else R)
       in if geq R d then (inc Q, sub R d) else (Q, R))"
begin

lemma prefix_step:
  assumes "k < width"
  shows "val u div 2 ^ (width - Suc k) =
    2 * (val u div 2 ^ (width - k)) + of_bool (getat u (width - 1 - k))"
proof -
  let ?p = "val u div 2 ^ (width - Suc k)"
  have "width - k = Suc (width - Suc k)" using assms by simp
  then have "val u div 2 ^ (width - k) = ?p div 2"
    by (simp only: power_Suc2 div_mult2_eq)
  moreover have "getat u (width - 1 - k) = odd ?p"
    using assms getat_iff [of "width - 1 - k" u] by simp
  ultimately show ?thesis
    by (cases "even ?p") (simp_all add: odd_two_times_div_two_succ)
qed

lemma prefix_bound:
  assumes "k < width"
  shows "2 * (val u div 2 ^ (width - k)) + 1 < 2 ^ width"
proof -
  have "val u < 2 ^ k * 2 ^ (width - k)"
    using val_bound [of u] assms by (simp flip: power_add)
  then have "val u div 2 ^ (width - k) < 2 ^ k"
    by (simp add: less_mult_imp_div_less)
  moreover have "(2 :: nat) ^ k * 2 \<le> 2 ^ width"
    using assms by (metis Suc_leI power_Suc2 power_increasing one_le_numeral)
  ultimately show ?thesis by linarith
qed

lemma division_loop:
  assumes "0 < val d" and "k \<le> width"
  shows "let QR = fold (body u d) [0..<k] (zero, zero); p = val u div 2 ^ (width - k)
    in val (fst QR) = p div val d \<and> val (snd QR) = p mod val d"
  using assms(2)
proof (induction k)
  case 0
  then show ?case using val_bound [of u] by (simp add: val_zero)
next
  case (Suc k)
  define QR where "QR = fold (body u d) [0..<k] (zero, zero)"
  define p where "p = val u div 2 ^ (width - k)"
  define b where "b = (of_bool (getat u (width - 1 - k)) :: nat)"
  have Q: "val (fst QR) = p div val d" and R: "val (snd QR) = p mod val d"
    using Suc by (simp_all add: QR_def p_def Let_def)
  have bound: "2 * p + 1 < 2 ^ width"
    using prefix_bound Suc.prems by (simp add: p_def)
  have Q2: "val (shl (fst QR)) = 2 * (p div val d)"
    using bound Q div_le_dividend [of p "val d"] by (subst val_shl; linarith)
  have R2: "val (shl (snd QR)) = 2 * (p mod val d)"
    using bound R mod_less_eq_dividend [of p "val d"] by (subst val_shl; linarith)
  define R' where "R' = (if getat u (width - 1 - k) then inc (shl (snd QR)) else shl (snd QR))"
  have R3: "val R' = 2 * (p mod val d) + b"
    by (simp add: R2 val_inc b_def R'_def)
  have nxt: "val u div 2 ^ (width - Suc k) = 2 * p + b"
    using Suc.prems by (simp add: prefix_step p_def b_def)
  have b: "b \<le> 1" by (simp add: b_def)
  have "fold (body u d) [0..<Suc k] (zero, zero) = body u d k QR"
    by (simp add: QR_def)
  also have "\<dots> = (if geq R' d then (inc (shl (fst QR)), sub R' d) else (shl (fst QR), R'))"
    by (simp only: body_eq R'_def Let_def)
  finally have loop: "fold (body u d) [0..<Suc k] (zero, zero) = \<dots>" .
  show ?case
    unfolding loop nxt Let_def
    using long_division_step [OF assms(1) b, of p]
    by (simp add: geq_iff val_inc val_sub R3 Q2)
qed

lemma division_correct:
  assumes "0 < val d"
  shows "val (fst (fold (body u d) [0..<width] (zero, zero))) = val u div val d"
    and "val (snd (fold (body u d) [0..<width] (zero, zero))) = val u mod val d"
  using division_loop [OF assms order_refl, of u] by (simp_all add: Let_def)

end

end
