(* ===== verification/Eos_Uint128.thy ===== *)
theory Eos_Uint128
  imports Eos_LongDivision
begin

unbundle bit_operations_syntax

text \<open>
  The software 128-bit unsigned integer of \<open>src/common/eos_math/uint128.go\<close>: a pair of
  64-bit halves with hand-written carries, shifts, multiplication and long division.
  The specification is the word type \<open>128 word\<close>: \<open>abs128\<close> concatenates the halves, and
  every operation is shown to commute with it. The division loop is an instance of
  the locale \<open>long_division\<close>. The widening product \<open>MulUint64\<close> is exact only where its
  guessed carry is the real one; the exact condition is stated and proved.
\<close>

section \<open>Model\<close>

record Uint128 =
  Low64 :: u64
  High64 :: u64

definition mk128 :: "u64 \<Rightarrow> u64 \<Rightarrow> Uint128" where
  "mk128 low high = \<lparr>Low64 = low, High64 = high\<rparr>"

definition IsZero :: "Uint128 \<Rightarrow> bool" where
  "IsZero u = (if Low64 u = 0 \<and> High64 u = 0 then True else False)"

definition GetAt :: "Uint128 \<Rightarrow> nat \<Rightarrow> bool" where
  "GetAt u i =
     (if i < 64 then Low64 u AND push_bit i 1 \<noteq> 0
      else High64 u AND push_bit (i - 64) 1 \<noteq> 0)"

definition SetBit :: "Uint128 \<Rightarrow> nat \<Rightarrow> nat \<Rightarrow> Uint128" where
  "SetBit u i b =
     (if i < 64 then
        (if b = 1 then u\<lparr>Low64 := Low64 u OR push_bit i 1\<rparr>
         else if b = 0 then u\<lparr>Low64 := Low64 u AND (- 1 - push_bit i 1)\<rparr>
         else u)
      else
        (if b = 1 then u\<lparr>High64 := High64 u OR push_bit (i - 64) 1\<rparr>
         else if b = 0 then u\<lparr>High64 := High64 u AND (- 1 - push_bit (i - 64) 1)\<rparr>
         else u))"

definition MaxUint128 :: Uint128 where
  "MaxUint128 = mk128 (- 1) (- 1)"

definition MinUint128 :: Uint128 where
  "MinUint128 = mk128 0 0"

definition LeftShift :: "Uint128 \<Rightarrow> Uint128" where
  "LeftShift u =
     (if GetAt u 63
      then SetBit (u\<lparr>Low64 := push_bit 1 (Low64 u), High64 := push_bit 1 (High64 u)\<rparr>) 64 1
      else u\<lparr>Low64 := push_bit 1 (Low64 u), High64 := push_bit 1 (High64 u)\<rparr>)"

definition LeftShifts :: "Uint128 \<Rightarrow> nat \<Rightarrow> Uint128" where
  "LeftShifts u shift = (LeftShift ^^ shift) u"

definition RightShift :: "Uint128 \<Rightarrow> Uint128" where
  "RightShift u =
     (if GetAt u 64
      then SetBit (u\<lparr>High64 := drop_bit 1 (High64 u), Low64 := drop_bit 1 (Low64 u)\<rparr>) 63 1
      else u\<lparr>High64 := drop_bit 1 (High64 u), Low64 := drop_bit 1 (Low64 u)\<rparr>)"

definition RightShifts :: "Uint128 \<Rightarrow> nat \<Rightarrow> Uint128" where
  "RightShifts u shift = (RightShift ^^ shift) u"

definition Compare :: "Uint128 \<Rightarrow> Uint128 \<Rightarrow> int" where
  "Compare u v =
     (if High64 u > High64 v then 1
      else if High64 u < High64 v then - 1
      else if Low64 u > Low64 v then 1
      else if Low64 u < Low64 v then - 1
      else 0)"

definition And128 :: "Uint128 \<Rightarrow> Uint128 \<Rightarrow> Uint128" where
  "And128 u v = u\<lparr>Low64 := Low64 u AND Low64 v, High64 := High64 u AND High64 v\<rparr>"

definition Or128 :: "Uint128 \<Rightarrow> Uint128 \<Rightarrow> Uint128" where
  "Or128 u v = u\<lparr>Low64 := Low64 u OR Low64 v, High64 := High64 u OR High64 v\<rparr>"

definition Add :: "Uint128 \<Rightarrow> Uint128 \<Rightarrow> Uint128" where
  "Add u v =
     (let u1 = (if Low64 u + Low64 v < Low64 u
                then u\<lparr>High64 := High64 u + (High64 v + 1)\<rparr>
                else u\<lparr>High64 := High64 u + High64 v\<rparr>)
      in u1\<lparr>Low64 := Low64 u1 + Low64 v\<rparr>)"

definition Sub :: "Uint128 \<Rightarrow> Uint128 \<Rightarrow> Uint128" where
  "Sub u v =
     (if Low64 u \<ge> Low64 v
      then u\<lparr>Low64 := Low64 u - Low64 v, High64 := High64 u - High64 v\<rparr>
      else u\<lparr>Low64 := Low64 u + (- 1 - Low64 v + 1), High64 := High64 u - (High64 v + 1)\<rparr>)"

definition MulUint64 :: "u64 \<Rightarrow> u64 \<Rightarrow> Uint128" where
  "MulUint64 u v =
     (let uH = drop_bit 32 u;
          vH = drop_bit 32 v;
          uL = drop_bit 32 (push_bit 32 u);
          vL = drop_bit 32 (push_bit 32 v);
          mulH = uH * vH;
          mulL = uL * vL;
          mulHL = (uH + uL) * (vH + vL) - mulH - mulL;
          mixH = drop_bit 32 mulHL;
          mixL = push_bit 32 (drop_bit 32 (push_bit 32 mulHL));
          specialH0 = drop_bit 1 (drop_bit 1 (uH + uL) * (vH + vL));
          specialH = push_bit 32 (drop_bit 62 specialH0)
      in if mulL + mixL < mulL
         then mk128 (mulL + mixL) (mulH + mixH + 1 + specialH)
         else mk128 (mulL + mixL) (mulH + mixH + specialH))"

definition Mul :: "Uint128 \<Rightarrow> Uint128 \<Rightarrow> Uint128" where
  "Mul u v =
     (let Product = MulUint64 (Low64 u) (Low64 v);
          tmp1 = Low64 (MulUint64 (High64 u) (Low64 v));
          tmp2 = Low64 (MulUint64 (Low64 u) (High64 v));
          tmp = Add (mk128 0 tmp1) (mk128 0 tmp2)
      in Add Product tmp)"

text \<open>
  The body of the division loop, for the loop index \<open>i\<close>; the loop runs it for
  \<open>i = 0, \<dots>, 127\<close>. A zero divisor is only reported on the console.
\<close>

definition Div_body :: "Uint128 \<Rightarrow> Uint128 \<Rightarrow> nat \<Rightarrow> Uint128 \<times> Uint128 \<Rightarrow> Uint128 \<times> Uint128" where
  "Div_body u divisor i QR =
     (let Remainder = LeftShift (snd QR);
          Quotient = LeftShift (fst QR);
          Remainder = (if GetAt u (127 - i) then Remainder\<lparr>Low64 := Low64 Remainder + 1\<rparr>
                       else Remainder)
      in if Compare Remainder divisor \<ge> 0
         then (Quotient\<lparr>Low64 := Low64 Quotient + 1\<rparr>, Sub Remainder divisor)
         else (Quotient, Remainder))"

definition Div :: "Uint128 \<Rightarrow> Uint128 \<Rightarrow> Uint128 \<times> Uint128" where
  "Div u divisor = fold (Div_body u divisor) [0..<128] (mk128 0 0, mk128 0 0)"

definition CreateUint128 :: "int \<Rightarrow> Uint128" where
  "CreateUint128 i = (if i \<ge> 0 then mk128 (word_of_int i) 0 else mk128 0 0)"

definition RightShifts2 :: "Uint128 \<Rightarrow> nat \<Rightarrow> Uint128" where
  "RightShifts2 u shift = (let Utemp = mk128 (Low64 u) (High64 u) in (RightShift ^^ shift) Utemp)"

text \<open>
  \<open>Sqrt\<close> is a binary search in a loop without a bound; the loop is a partial function with
  the local variables \<open>max\<close> (\<open>hi\<close>), \<open>min\<close> (\<open>lo\<close>) and \<open>m\<close> as arguments, \<open>None\<close> if it does not return.
\<close>

partial_function (option) Sqrt_loop :: "Uint128 \<Rightarrow> u64 \<Rightarrow> u64 \<Rightarrow> u64 \<Rightarrow> u64 option" where
  "Sqrt_loop u hi lo m =
     (let product = MulUint64 m m in
      if Compare u product = 0 then Some m
      else
        let lo = (if Compare u product > 0 then m else lo);
            hi = (if Compare u product > 0 then hi else m);
            m' = Low64 (RightShift (Add (mk128 hi 0) (mk128 lo 0)))
        in if hi = m' \<or> lo = m' then Some m' else Sqrt_loop u hi lo m')"

definition Sqrt :: "Uint128 \<Rightarrow> u64 option" where
  "Sqrt u =
     (if IsZero u then Some 0
      else let hi = - 1; lo = 1 in Sqrt_loop u hi lo (drop_bit 1 hi + lo))"

section \<open>Abstraction to 128-bit words\<close>

definition abs128 :: "Uint128 \<Rightarrow> 128 word" where
  "abs128 u = word_cat (High64 u) (Low64 u)"

lemma bit_abs128:
  "bit (abs128 u) i \<longleftrightarrow> (if i < 64 then bit (Low64 u) i else i < 128 \<and> bit (High64 u) (i - 64))"
  by (auto simp: abs128_def bit_word_cat_iff)

lemma unat_abs128: "unat (abs128 u) = unat (High64 u) * 2 ^ 64 + unat (Low64 u)"
proof -
  have "uint (abs128 u) = take_bit 128 (concat_bit 64 (uint (Low64 u)) (uint (High64 u)))"
    by (simp add: abs128_def word_cat_eq' uint_word_of_int_eq)
  also have "concat_bit 64 (uint (Low64 u)) (uint (High64 u)) = uint (High64 u) * 2 ^ 64 + uint (Low64 u)"
    by (simp add: concat_bit_eq push_bit_eq_mult take_bit_int_eq_self uint_lt64)
  also have "take_bit 128 \<dots> = \<dots>"
  proof -
    have "uint (High64 u) < 2 ^ 64" "uint (Low64 u) < 2 ^ 64" 
by (simp_all add: uint_lt64)
    then show ?thesis by (simp add: take_bit_int_eq_self)
  qed
  finally show ?thesis
    by (metis (mono_tags) of_nat_add of_nat_eq_iff of_nat_mult of_nat_numeral of_nat_power uint_nat)
qed

lemma GetAt_iff: "GetAt u i \<longleftrightarrow> i < 128 \<and> bit (abs128 u) i"
  by (auto simp: GetAt_def bit_abs128 word_and_push_bit_one and_exp_eq_0_iff_not_bit dest: bit_imp_le_length)


lemma abs128_Set1: "i < 128 \<Longrightarrow> abs128 (SetBit u i 1) = set_bit i (abs128 u)"
  by (rule bit_word_eqI) (auto simp: SetBit_def bit_abs128 bit_simps)

lemma abs128_Set0: "i < 128 \<Longrightarrow> abs128 (SetBit u i 0) = unset_bit i (abs128 u)"
  by (rule bit_word_eqI) (auto simp: SetBit_def bit_abs128 bit_simps minus_one_minus)


lemma abs128_Set1_Suc: "i < 128 \<Longrightarrow> abs128 (SetBit u i (Suc 0)) = set_bit i (abs128 u)"
  using abs128_Set1 by simp


lemma abs128_LeftShift: "abs128 (LeftShift u) = push_bit 1 (abs128 u)" (is "_ = ?r")
proof -
  let ?u = "u\<lparr>Low64 := push_bit 1 (Low64 u), High64 := push_bit 1 (High64 u)\<rparr>"
  have shape: "abs128 (LeftShift u) =
      (if GetAt u 63 then set_bit 64 (abs128 ?u) else abs128 ?u)"
    by (simp add: LeftShift_def abs128_Set1_Suc)
  show ?thesis
  proof (rule bit_word_eqI)
    fix n assume "n < LENGTH(128)"
    then have "n < 2 * 64" by simp
    then show "bit (abs128 (LeftShift u)) n = bit ?r n"
    proof (cases rule: half_cases)
      case 1
      then show ?thesis
        by (auto simp: shape GetAt_iff bit_abs128 bit_simps bit_double_iff mult.commute [of _ "2 :: _ word"])
    next
      case (2 m)
      then show ?thesis
        by (cases m) (auto simp: shape GetAt_iff bit_abs128 bit_simps bit_double_iff mult.commute [of _ "2 :: _ word"])
    qed
  qed
qed

lemma abs128_RightShift: "abs128 (RightShift u) = drop_bit 1 (abs128 u)" (is "_ = ?r")
proof -
  let ?u = "u\<lparr>High64 := drop_bit 1 (High64 u), Low64 := drop_bit 1 (Low64 u)\<rparr>"
  have shape: "abs128 (RightShift u) =
      (if GetAt u 64 then set_bit 63 (abs128 ?u) else abs128 ?u)"
    by (simp add: RightShift_def abs128_Set1_Suc)
  show ?thesis
  proof (rule bit_word_eqI)
    fix n assume "n < LENGTH(128)"
    then have "n < 2 * 64" by simp
    then show "bit (abs128 (RightShift u)) n = bit ?r n"
    proof (cases rule: half_cases)
      case 1
      then show ?thesis
        by (cases "n = 63") (auto simp: shape GetAt_iff bit_abs128 bit_simps dest: bit_imp_le_length)
    next
      case (2 m)
      then show ?thesis
        by (auto simp: shape GetAt_iff bit_abs128 bit_simps dest: bit_imp_le_length)
    qed
  qed
qed

lemma abs128_mk128: "unat (abs128 (mk128 l h)) = unat h * 2 ^ 64 + unat l"
  by (simp add: unat_abs128 mk128_def)

lemma abs128_zero [simp]: "abs128 (mk128 0 0) = 0"
  by (simp add: word_unat_eq_iff abs128_mk128)

lemma IsZero_iff: "IsZero u \<longleftrightarrow> abs128 u = 0"
  by (auto simp: IsZero_def word_unat_eq_iff unat_abs128)

lemma abs128_And: "abs128 (And128 u v) = abs128 u AND abs128 v"
  by (rule bit_word_eqI) (auto simp: And128_def bit_abs128 bit_simps)

lemma abs128_Or: "abs128 (Or128 u v) = abs128 u OR abs128 v"
  by (rule bit_word_eqI) (auto simp: Or128_def bit_abs128 bit_simps)


lemma abs128_inject: "abs128 u = abs128 v \<longleftrightarrow> u = v"
  by (auto simp: word_unat_eq_iff unat_abs128 concat_eq_iff)

lemma Compare_abs: "Compare u v =
    (if abs128 u > abs128 v then 1 else if abs128 u < abs128 v then - 1 else 0)"
  by (auto simp: Compare_def word_less_nat_alt unat_abs128 concat_less_iff word_unat_eq_iff)

lemma abs128_Add: "abs128 (Add u v) = abs128 u + abs128 v"
proof -
  let ?M = "2 ^ 64 :: nat"
  let ?c = "of_bool (Low64 u + Low64 v < Low64 u) :: nat"
  let ?l = "unat (Low64 u) + unat (Low64 v)"
  let ?h = "unat (High64 u) + unat (High64 v)"
  have low: "unat (Low64 (Add u v)) = ?l mod ?M"
    by (simp add: Add_def Let_def unat_add_mod)
  have "High64 (Add u v) = High64 u + High64 v + of_bool (Low64 u + Low64 v < Low64 u)"
    by (simp add: Add_def Let_def)
  then have high: "unat (High64 (Add u v)) = (?h + ?c) mod ?M"
    by (simp add: unat_add_mod mod_add_left_eq)
  have split: "?h * ?M + ?l = (?h + ?c) * ?M + ?l mod ?M"
    using add_carry_div [of "Low64 u" "Low64 v"] by (intro carry_split) simp
  have sum: "unat (abs128 u) + unat (abs128 v) = ?h * ?M + ?l"
    by (simp only: unat_abs128 distrib_right ac_simps)
  have "unat (abs128 u + abs128 v) = (?h * ?M + ?l) mod (?M * ?M)"
    unfolding unat_add_mod sum by simp
  also have "\<dots> = (?h + ?c) mod ?M * ?M + ?l mod ?M"
    unfolding split by (rule concat_mod) simp
  also have "\<dots> = unat (abs128 (Add u v))"
    by (simp only: unat_abs128 low high)
  finally show ?thesis by (simp add: word_unat_eq_iff)
qed

lemma Add_Sub: "Add (Sub u v) v = u"
  by (cases "Low64 v \<le> Low64 u") (auto simp: Sub_def Add_def sub_borrow_iff)

lemma abs128_Sub: "abs128 (Sub u v) = abs128 u - abs128 v"
  by (metis Add_Sub abs128_Add add_diff_cancel_right')

lemma unat_push_bit_1: "2 * unat x < 2 ^ 128 \<Longrightarrow> unat (push_bit 1 (x :: 128 word)) = 2 * unat x"
  by (simp add: unat_mult_mod mult.commute)

section \<open>Division\<close>

lemma unat_abs128_inc_low:
  assumes "even (unat (abs128 u))"
  shows "unat (abs128 (u\<lparr>Low64 := Low64 u + 1\<rparr>)) = unat (abs128 u) + 1"
proof -
  have "even (unat (Low64 u))" using assms by (simp add: unat_abs128)
  then have "unat (Low64 u) + 1 < 2 ^ 64" using unat_bound64 [of "Low64 u"]
    by (simp del: unat_bound64) presburger
  then show ?thesis by (simp add: unat_abs128 unat_add_mod)
qed

interpretation div128: long_division "\<lambda>u. unat (abs128 u)" 128 "mk128 0 0" LeftShift
  "\<lambda>u. u\<lparr>Low64 := Low64 u + 1\<rparr>" Sub "\<lambda>u v. Compare u v \<ge> 0" GetAt Div_body
proof (unfold_locales, goal_cases)
  case (1 x)
  then show ?case using unat_less_exp [of "abs128 x"] by simp
next
  case 2
  then show ?case by simp
next
  case (3 x)
  then show ?case unfolding abs128_LeftShift by (intro unat_push_bit_1) simp
next
  case (4 x)
  then show ?case by (rule unat_abs128_inc_low)
next
  case (5 y x)
  then show ?case by (simp add: abs128_Sub unat_sub_le word_le_nat_alt)
next
  case (6 x y)
  then show ?case by (simp add: Compare_abs word_less_nat_alt word_unat_eq_iff)
next
  case (7 i x)
  then show ?case by (simp add: GetAt_iff bit_unsigned_iff flip: bit_iff_odd)
next
  case (8 u d i QR)
  then show ?case by (simp add: Div_body_def Let_def)
qed

lemma abs128_Div:
  assumes "abs128 d \<noteq> 0"
  shows "abs128 (fst (Div u d)) = abs128 u div abs128 d"
    and "abs128 (snd (Div u d)) = abs128 u mod abs128 d"
proof -
  have "0 < unat (abs128 d)" using assms by (simp add: unat_gt_0)
  then show "abs128 (fst (Div u d)) = abs128 u div abs128 d"
    and "abs128 (snd (Div u d)) = abs128 u mod abs128 d"
    using div128.division_correct [of d u]
    by (simp_all add: Div_def word_unat_eq_iff unat_div unat_mod)
qed

section \<open>The widening product\<close>

text \<open>
  \<open>MulUint64\<close> splits both factors into 32-bit halves and forms the cross term with one
  multiplication modulo \<open>2 ^ 64\<close>. The cross term itself may need 65 bits; the lost bit is
  \<open>mul_cross u v div 2 ^ 64\<close>. The code replaces it by the top bit of another product,
  \<open>mul_guess u v\<close>.
\<close>

definition mul_cross :: "u64 \<Rightarrow> u64 \<Rightarrow> nat" where
  "mul_cross u v = (unat u div 2 ^ 32) * (unat v mod 2 ^ 32) + (unat u mod 2 ^ 32) * (unat v div 2 ^ 32)"

definition mul_guess :: "u64 \<Rightarrow> u64 \<Rightarrow> nat" where
  "mul_guess u v = ((unat u div 2 ^ 32 + unat u mod 2 ^ 32) div 2 * (unat v div 2 ^ 32 + unat v mod 2 ^ 32)) div 2 ^ 63 mod 2"

lemma unat_push_bit_32: "unat (push_bit 32 (x :: u64)) = unat x mod 2 ^ 32 * 2 ^ 32"
proof -
  have "unat (push_bit 32 x) = (unat x * 2 ^ 32) mod (2 ^ 32 * 2 ^ 32)"
    by (simp add: push_bit_eq_mult unat_mult_mod)
  also have "\<dots> = unat x mod 2 ^ 32 * 2 ^ 32" by (rule mod_mult_mult2)
  finally show ?thesis .
qed

lemma unat_low_half: "unat (drop_bit 32 (push_bit 32 (u :: u64))) = unat u mod 2 ^ 32"
  by (simp only: unat_drop_bit unat_push_bit_32) simp

lemma schoolbook:
  fixes uh ul vh vl k :: nat
  defines "x \<equiv> uh * vl + ul * vh"
  shows "(uh * k + ul) * (vh * k + vl) =
    (uh * vh + (x mod (k * k)) div k + x div (k * k) * k) * (k * k) + (ul * vl + x mod k * k)"
proof -
  have "x div k = (x div k div k) * k + x div k mod k" by simp
  also have "x div k mod k = (x mod (k * k)) div k"
    by (cases "k = 0") (simp_all add: mod_mult2_eq)
  also have "x div k div k = x div (k * k)" by (simp add: div_mult2_eq)
  finally have xk: "x = (x div (k * k) * k + (x mod (k * k)) div k) * k + x mod k"
    by (metis div_mult_mod_eq)
  have "(uh * k + ul) * (vh * k + vl) = uh * vh * (k * k) + x * k + ul * vl"
    by (simp add: x_def algebra_simps)
  also have "x * k = ((x div (k * k) * k + (x mod (k * k)) div k) * k + x mod k) * k"
    using xk by simp
  finally show ?thesis by (simp add: algebra_simps)
qed

lemma half_bounds:
  "unat (u :: u64) div 2 ^ 32 < 2 ^ 32" "unat u mod 2 ^ 32 < 2 ^ 32"
  using unat_bound64 [of u] by (simp_all add: less_mult_imp_div_less)

lemma MulUint64_parts:
  fixes u v :: u64
  defines "uh \<equiv> unat u div 2 ^ 32" and "ul \<equiv> unat u mod 2 ^ 32"
    and "vh \<equiv> unat v div 2 ^ 32" and "vl \<equiv> unat v mod 2 ^ 32"
  defines "s \<equiv> ul * vl + mul_cross u v mod 2 ^ 32 * 2 ^ 32"
  shows "unat (Low64 (MulUint64 u v)) = s mod 2 ^ 64"
    and "unat (High64 (MulUint64 u v)) =
      (uh * vh + mul_cross u v mod 2 ^ 64 div 2 ^ 32 + s div 2 ^ 64 + 2 ^ 32 * mul_guess u v) mod 2 ^ 64"
proof -
  let ?uH = "drop_bit 32 u" and ?uL = "drop_bit 32 (push_bit 32 u)"
    and ?vH = "drop_bit 32 v" and ?vL = "drop_bit 32 (push_bit 32 v)"
  have h: "unat ?uH = uh" "unat ?vH = vh" "unat ?uL = ul" "unat ?vL = vl"
    unfolding uh_def ul_def vh_def vl_def by (rule unat_drop_bit unat_low_half)+
  have b: "uh < 2 ^ 32" "ul < 2 ^ 32" "vh < 2 ^ 32" "vl < 2 ^ 32"
    by (simp_all only: half_bounds uh_def ul_def vh_def vl_def)
  have prods: "unat (?uH * ?vH) = uh * vh" "unat (?uL * ?vL) = ul * vl"
    using mult_lt_exp [of uh 32 vh 32] mult_lt_exp [of ul 32 vl 32] b h
    by (simp_all add: unat_no_wrap)
  have sums: "unat (?uH + ?uL) = uh + ul" "unat (?vH + ?vL) = vh + vl"
    using b h by (simp_all add: unat_no_wrap)
  let ?HL = "(?uH + ?uL) * (?vH + ?vL) - ?uH * ?vH - ?uL * ?vL"
  have "?HL = ?uH * ?vL + ?uL * ?vH" by (simp only: ring_distribs) simp
  then have HL: "unat ?HL = mul_cross u v mod 2 ^ 64"
    by (simp only: unat_add_mod unat_mult_mod h mul_cross_def uh_def ul_def vh_def vl_def) (simp add: mod_simps)
  let ?mixL = "push_bit 32 (drop_bit 32 (push_bit 32 ?HL))"
  have "mul_cross u v mod 2 ^ 64 mod 2 ^ 32 = mul_cross u v mod 2 ^ 32"
    by (rule mod_mod_cancel) simp
  then have mixL: "unat ?mixL = mul_cross u v mod 2 ^ 32 * 2 ^ 32"
    unfolding unat_push_bit_32 [of "drop_bit 32 (push_bit 32 ?HL)"] unat_low_half HL
    by (simp only: mod_mod_trivial)
  have mixH: "unat (drop_bit 32 ?HL) = mul_cross u v mod 2 ^ 64 div 2 ^ 32"
    by (simp only: unat_drop_bit HL)
  let ?sp = "push_bit 32 (drop_bit 62 (drop_bit 1 (drop_bit 1 (?uH + ?uL) * (?vH + ?vL))))"
  have "unat (drop_bit 1 (?uH + ?uL) * (?vH + ?vL)) = ((uh + ul) div 2 * (vh + vl)) mod 2 ^ 64"
    unfolding unat_mult_mod unat_drop_bit sums by simp
  then have "unat (drop_bit 62 (drop_bit 1 (drop_bit 1 (?uH + ?uL) * (?vH + ?vL)))) = mul_guess u v"
    unfolding unat_drop_bit [of 62] unat_drop_bit [of 1] mul_guess_def
      uh_def [symmetric] ul_def [symmetric] vh_def [symmetric] vl_def [symmetric]
    by (simp only: div_mult2_eq [symmetric]) (simp add: div_exp_mod_exp_eq [of _ 63 1, simplified])
  moreover have "mul_guess u v < 2" by (simp add: mul_guess_def)
  ultimately have sp: "unat ?sp = 2 ^ 32 * mul_guess u v"
    unfolding unat_push_bit_32 by simp
  have low: "Low64 (MulUint64 u v) = ?uL * ?vL + ?mixL"
    by (simp add: MulUint64_def Let_def mk128_def)
  have high: "High64 (MulUint64 u v) =
      ?uH * ?vH + drop_bit 32 ?HL + of_bool (?uL * ?vL + ?mixL < ?uL * ?vL) + ?sp"
    by (simp add: MulUint64_def Let_def mk128_def)
  show "unat (Low64 (MulUint64 u v)) = s mod 2 ^ 64"
    unfolding low unat_add_mod prods mixL s_def by simp
  have c: "s div 2 ^ 64 = of_bool (?uL * ?vL + ?mixL < ?uL * ?vL)"
    using add_carry_div [of "?uL * ?vL" ?mixL] unfolding prods mixL s_def by simp
  show "unat (High64 (MulUint64 u v)) =
      (uh * vh + mul_cross u v mod 2 ^ 64 div 2 ^ 32 + s div 2 ^ 64 + 2 ^ 32 * mul_guess u v) mod 2 ^ 64"
    unfolding high unat_add_mod c prods mixH sp
    by (simp add: mod_simps)
qed

lemma Low64_MulUint64: "Low64 (MulUint64 u v) = u * v"
proof -
  let ?K = "2 ^ 32 :: nat"
  have "unat u * unat v = (unat u div ?K * ?K + unat u mod ?K) * (unat v div ?K * ?K + unat v mod ?K)"
    by (simp only: div_mult_mod_eq)
  then have "unat u * unat v mod (?K * ?K) =
    (unat u mod ?K * (unat v mod ?K) + mul_cross u v mod ?K * ?K) mod (?K * ?K)"
    by (simp only: schoolbook mul_cross_def mod_mult_self3)
  then show ?thesis
    by (simp add: word_unat_eq_iff MulUint64_parts(1) unat_mult_mod)
qed

lemma guess_eq_iff:
  fixes b g k m q :: nat
  assumes "b + k * q < m" and "g \<le> 1" and "0 < k" and "k < m"
  shows "(b + k * g) mod m = b + k * q \<longleftrightarrow> g = q"
proof (cases "b + k * g < m")
  case True
  with assms(3) show ?thesis by simp
next
  case False
  with assms(1,2) have "g = 1" "b < m" by (cases g; simp)+
  with False assms(4) have "(b + k * g) mod m = b + k - m"
    by (simp add: le_mod_geq)
  moreover have "b + k - m < b" using False \<open>g = 1\<close> assms(4) \<open>b < m\<close> by simp
  moreover have "g \<noteq> q" using False assms(1) by auto
  ultimately show ?thesis by simp
qed

lemma MulUint64_exact_iff:
  "unat (abs128 (MulUint64 u v)) = unat u * unat v \<longleftrightarrow> mul_guess u v = mul_cross u v div 2 ^ 64"
proof -
  let ?K = "2 ^ 32 :: nat" and ?M = "2 ^ 64 :: nat"
  let ?s = "unat u mod ?K * (unat v mod ?K) + mul_cross u v mod ?K * ?K"
  let ?B = "unat u div ?K * (unat v div ?K) + mul_cross u v mod ?M div ?K + ?s div ?M"
  let ?q = "mul_cross u v div ?M" and ?g = "mul_guess u v"
  have KK: "?K * ?K = ?M" by simp
  have "unat u * unat v = (unat u div ?K * ?K + unat u mod ?K) * (unat v div ?K * ?K + unat v mod ?K)"
    by (simp only: div_mult_mod_eq)
  also have "\<dots> = (unat u div ?K * (unat v div ?K) + mul_cross u v mod ?M div ?K + ?q * ?K) * ?M + ?s"
    unfolding schoolbook KK mul_cross_def ..
  also have "\<dots> = (unat u div ?K * (unat v div ?K) + mul_cross u v mod ?M div ?K + ?q * ?K + ?s div ?M) * ?M + ?s mod ?M"
    by (rule carry_split) (rule refl)
  also have "\<dots> = (?B + ?K * ?q) * ?M + ?s mod ?M"
    by (simp only: ac_simps)
  finally have prod: "unat u * unat v = (?B + ?K * ?q) * ?M + ?s mod ?M" .
  have "unat u * unat v < 2 ^ (64 + 64)"
    by (rule mult_lt_exp) simp_all
  then have "(?B + ?K * ?q) * ?M < ?M * ?M"
    unfolding prod power_add by linarith
  then have Bq: "?B + ?K * ?q < ?M" by simp
  have code: "unat (abs128 (MulUint64 u v)) = (?B + ?K * ?g) mod ?M * ?M + ?s mod ?M"
    by (simp only: unat_abs128 MulUint64_parts)
  have g: "?g \<le> 1" by (simp add: mul_guess_def)
  have "unat (abs128 (MulUint64 u v)) = unat u * unat v \<longleftrightarrow> (?B + ?K * ?g) mod ?M = ?B + ?K * ?q"
    unfolding code prod by (subst concat_eq_iff) simp_all
  also have "\<dots> \<longleftrightarrow> ?g = ?q"
    by (rule guess_eq_iff [OF Bq g]) simp_all
  finally show ?thesis .
qed

lemma MulUint64_exact:
  assumes "(unat u div 2 ^ 32 + unat u mod 2 ^ 32) * (unat v div 2 ^ 32 + unat v mod 2 ^ 32) < 2 ^ 64"
  shows "unat (abs128 (MulUint64 u v)) = unat u * unat v"
proof -
  let ?s = "unat u div 2 ^ 32 + unat u mod 2 ^ 32" and ?t = "unat v div 2 ^ 32 + unat v mod 2 ^ 32"
  have "mul_cross u v \<le> ?s * ?t"
    by (simp add: mul_cross_def distrib_left distrib_right)
  then have "mul_cross u v div 2 ^ 64 = 0" using assms by simp
  moreover have "?s div 2 * ?t < 2 ^ 63"
    by (rule half_mult_less) (use assms in simp)
  then have "mul_guess u v = 0" by (simp add: mul_guess_def)
  ultimately show ?thesis by (simp only: MulUint64_exact_iff)
qed

lemma MulUint64_exact_small:
  assumes "unat v < 2 ^ 31"
  shows "unat (abs128 (MulUint64 u v)) = unat u * unat v"
proof (rule MulUint64_exact)
  have "unat u div 2 ^ 32 + unat u mod 2 ^ 32 < 2 ^ 33"
    using half_bounds [of u] by simp
  moreover have "unat v div 2 ^ 32 + unat v mod 2 ^ 32 < 2 ^ 31"
    using assms by simp
  ultimately show "(unat u div 2 ^ 32 + unat u mod 2 ^ 32) * (unat v div 2 ^ 32 + unat v mod 2 ^ 32) < 2 ^ 64"
    using mult_lt_exp [of _ 33 _ 31] by simp
qed

lemma MulUint64_wrong:
  "unat (abs128 (MulUint64 0xFFFFFFFF80000000 0xFFFFFFFF00000000)) \<noteq>
   unat (0xFFFFFFFF80000000 :: u64) * unat (0xFFFFFFFF00000000 :: u64)"
  unfolding MulUint64_exact_iff by (simp add: mul_guess_def mul_cross_def)

lemma abs128_Mul_iff:
  "abs128 (Mul u v) = abs128 u * abs128 v \<longleftrightarrow>
    unat (abs128 (MulUint64 (Low64 u) (Low64 v))) = unat (Low64 u) * unat (Low64 v)"
proof -
  let ?hi = "High64 u * Low64 v + Low64 u * High64 v"
  let ?t = "Add (mk128 0 (High64 u * Low64 v)) (mk128 0 (Low64 u * High64 v))"
  have "abs128 (Mul u v) = abs128 (MulUint64 (Low64 u) (Low64 v)) + abs128 ?t"
    by (simp add: Mul_def Let_def abs128_Add Low64_MulUint64)
  moreover have "?t = mk128 0 ?hi"
    by (simp add: Add_def mk128_def)
  moreover have "abs128 u * abs128 v = of_nat (unat (Low64 u) * unat (Low64 v)) + abs128 (mk128 0 ?hi)"
  proof -
    let ?M = "2 ^ 64 :: nat"
    let ?X = "unat (High64 u) * unat (Low64 v) + unat (Low64 u) * unat (High64 v)"
    have hi: "unat (abs128 (mk128 0 ?hi)) = ?X * ?M mod (?M * ?M)"
      unfolding abs128_mk128 unat_add_mod unat_mult_mod mod_mult_mult2
      by (simp add: mod_add_eq)
    have "unat (abs128 u) * unat (abs128 v) =
        unat (High64 u) * unat (High64 v) * (?M * ?M) + (?X * ?M + unat (Low64 u) * unat (Low64 v))"
      unfolding unat_abs128 by (simp only: ring_distribs ac_simps)
    then have "unat (abs128 u * abs128 v) = (?X * ?M + unat (Low64 u) * unat (Low64 v)) mod (?M * ?M)"
      unfolding unat_mult_mod [of "abs128 u"] by simp
    moreover have "unat (of_nat (unat (Low64 u) * unat (Low64 v)) + abs128 (mk128 0 ?hi)) =
        (unat (Low64 u) * unat (Low64 v) + ?X * ?M) mod (?M * ?M)"
      unfolding unat_add_mod [of "of_nat _"] unat_of_nat hi by (simp add: mod_simps del: of_nat_mult)
    ultimately show ?thesis
      by (simp only: word_unat_eq_iff add.commute)
  qed
  moreover have "unat (Low64 u) * unat (Low64 v) < 2 ^ (64 + 64)"
    by (rule mult_lt_exp) simp_all
  then have "unat (of_nat (unat (Low64 u) * unat (Low64 v)) :: 128 word) =
      unat (Low64 u) * unat (Low64 v)"
    unfolding unat_of_nat by simp
  ultimately show ?thesis by (simp add: word_unat_eq_iff [of "abs128 (MulUint64 _ _)"] del: of_nat_mult)
qed

lemma abs128_shifts:
  "abs128 (LeftShifts u n) = push_bit n (abs128 u)"
  "abs128 (RightShifts u n) = drop_bit n (abs128 u)"
  by (induction n)
     (simp_all add: LeftShifts_def RightShifts_def abs128_LeftShift abs128_RightShift
        push_bit_push_bit drop_bit_drop_bit flip: push_bit_Suc drop_bit_Suc)

lemmas abs128_ops = abs128_Add abs128_Sub abs128_And abs128_Or abs128_shifts

section \<open>The square root search\<close>

lemma unat_midpoint:
  "unat (Low64 (RightShift (Add (mk128 a 0) (mk128 b 0)))) = (unat a + unat b) div 2"
proof -
  have ab: "unat a + unat b < 2 ^ 65"
    using unat_bound64 [of a] unat_bound64 [of b] by (simp del: unat_bound64)
  have "unat (abs128 (RightShift (Add (mk128 a 0) (mk128 b 0)))) = (unat a + unat b) div 2"
    unfolding abs128_RightShift abs128_Add unat_drop_bit using ab
    by (simp add: unat_word_ariths abs128_mk128)
  moreover have "(unat a + unat b) div 2 < 2 ^ 64" using ab by simp
  ultimately have "unat (High64 (RightShift (Add (mk128 a 0) (mk128 b 0)))) * 2 ^ 64
      + unat (Low64 (RightShift (Add (mk128 a 0) (mk128 b 0)))) < 1 * 2 ^ 64 + 0"
    by (simp add: unat_abs128)
  then have "unat (High64 (RightShift (Add (mk128 a 0) (mk128 b 0)))) = 0" by simp
  with \<open>unat (abs128 _) = _\<close> show ?thesis by (simp add: unat_abs128)
qed

lemma Sqrt_loop_returns:
  "lo < m \<Longrightarrow> m < hi \<Longrightarrow> \<exists>r. Sqrt_loop u hi lo m = Some r"
proof (induction "unat hi - unat lo" arbitrary: hi lo m rule: less_induct)
  case less
  let ?lo = "if Compare u (MulUint64 m m) > 0 then m else lo"
  let ?hi = "if Compare u (MulUint64 m m) > 0 then hi else m"
  let ?m = "Low64 (RightShift (Add (mk128 ?hi 0) (mk128 ?lo 0)))"
  have sub: "?lo < ?hi" "unat ?hi - unat ?lo < unat hi - unat lo"
    using less.prems by (auto simp: word_less_nat_alt)
  show ?case
  proof (cases "Compare u (MulUint64 m m) = 0 \<or> ?hi = ?m \<or> ?lo = ?m")
    case True
    then show ?thesis by (subst Sqrt_loop.simps) (auto simp: Let_def)
  next
    case False
    moreover have "unat ?m = (unat ?hi + unat ?lo) div 2" by (rule unat_midpoint)
    ultimately have "?lo < ?m" "?m < ?hi"
      using sub(1) unfolding word_less_nat_alt by (auto simp: word_unat_eq_iff)
    from less.hyps [OF sub(2) this] False show ?thesis
      by (subst Sqrt_loop.simps) (simp add: Let_def)
  qed
qed

section \<open>Properties\<close>

text \<open>
  C22. The software 128-bit integer refines 128-bit machine words: addition, subtraction,
  the bitwise operations and the shifts commute with the abstraction (so every carry and
  borrow between the two halves is right, including on wrap-around), \<open>Compare\<close> orders
  values as the words are ordered, and \<open>GetAt\<close> reads the bit of the word.
\<close>

theorem uint128_refines_word:
  "abs128 (Add u v) = abs128 u + abs128 v
   \<and> abs128 (Sub u v) = abs128 u - abs128 v
   \<and> abs128 (And128 u v) = abs128 u AND abs128 v
   \<and> abs128 (Or128 u v) = abs128 u OR abs128 v
   \<and> abs128 (LeftShifts u n) = push_bit n (abs128 u)
   \<and> abs128 (RightShifts u n) = drop_bit n (abs128 u)
   \<and> Compare u v = (if abs128 u > abs128 v then 1 else if abs128 u < abs128 v then - 1 else 0)
   \<and> GetAt u i = (i < 128 \<and> bit (abs128 u) i)"
  by (intro conjI abs128_ops Compare_abs GetAt_iff)

text \<open>
  C12. The bit-by-bit long division of \<open>Div\<close> returns the quotient and the remainder of the
  128-bit words for every divisor but zero, although the running remainder is shifted left
  in 128 bits and could be expected to lose its top bit.
\<close>

theorem Div_correct:
  "abs128 d \<noteq> 0 \<Longrightarrow>
     abs128 (fst (Div u d)) = abs128 u div abs128 d \<and>
     abs128 (snd (Div u d)) = abs128 u mod abs128 d"
  by (simp add: abs128_Div)

theorem Div_correct_witness:
  "abs128 (fst (Div (mk128 7 5) (mk128 0 2))) = abs128 (mk128 7 5) div abs128 (mk128 0 2)"
  using Div_correct [of "mk128 0 2" "mk128 7 5"] by (simp add: word_unat_eq_iff abs128_mk128)

text \<open>
  C23. The widening product \<open>MulUint64\<close> is the exact 128-bit product if and only if the bit the
  code substitutes for the carry of the cross term is that carry; it is whenever one factor
  is below \<open>2 ^ 31\<close>, and it is not for all inputs.
\<close>

theorem MulUint64_exactness:
  "(unat (abs128 (MulUint64 u v)) = unat u * unat v
      \<longleftrightarrow> mul_guess u v = mul_cross u v div 2 ^ 64)
   \<and> (unat v < 2 ^ 31 \<longrightarrow> unat (abs128 (MulUint64 u v)) = unat u * unat v)
   \<and> unat (abs128 (MulUint64 0xFFFFFFFF80000000 0xFFFFFFFF00000000))
       \<noteq> unat (0xFFFFFFFF80000000 :: u64) * unat (0xFFFFFFFF00000000 :: u64)"
  using MulUint64_exact_iff MulUint64_exact_small MulUint64_wrong by blast

theorem MulUint64_exactness_witness:
  "unat (abs128 (MulUint64 0xFFFFFFFFFFFFFFFF 10000)) = unat (0xFFFFFFFFFFFFFFFF :: u64) * 10000"
  using MulUint64_exactness [of "0xFFFFFFFFFFFFFFFF" 10000] by simp

text \<open>
  The unbounded search loop of \<open>Sqrt\<close> returns for every argument: the interval between its
  bounds shrinks in every round, whatever the products computed inside it are.
\<close>

theorem Sqrt_returns: "\<exists>r. Sqrt u = Some r"
proof (cases "IsZero u")
  case True
  then show ?thesis by (simp add: Sqrt_def)
next
  case False
  have "drop_bit 1 (- 1) + 1 = (2 ^ 63 :: u64)" by (simp add: mask_eq_exp_minus_1)
  moreover have "\<exists>r. Sqrt_loop u (- 1) 1 (2 ^ 63) = Some r"
    by (rule Sqrt_loop_returns) (simp_all add: word_less_nat_alt unsigned_minus_1_eq_mask mask_eq_exp_minus_1)
  ultimately have "\<exists>r. Sqrt_loop u (- 1) 1 (drop_bit 1 (- 1) + 1) = Some r" by simp
  with False show ?thesis by (simp add: Sqrt_def Let_def)
qed

end
