(* ===== verification/Eos_Resource.thy ===== *)
theory Eos_Resource
  imports Eos_Table Eos_Uint128 "HOL-Library.Product_Lexorder"
begin

text \<open>
  Resource limits: \<open>src/chain/types/resource_limits_private.go\<close> (moving averages and elastic
  limits), the four objects of \<open>src/entity/resource_*.go\<close>, and the manager of
  \<open>src/chain/resource_limits.go\<close> with its four database tables. An object that is not found leaves
  the caller's default object as it is; errors of the database are logged only, which the model
  drops. A failed assertion inside a modification leaves the call; the session around it is
  undone by the caller.
\<close>

section \<open>Moving averages and elastic limits\<close>

record Ratio =
  Numerator :: u64
  Denominator :: u64

record ElasticLimitParameters =
  Target :: u64
  MaxLimit :: u64
  Periods :: u32
  MaxMultiplier :: u32
  ContractRate :: Ratio
  ExpandRate :: Ratio

record AccountResourceLimit =
  arl_Used :: i64
  arl_Available :: i64
  arl_Max :: i64

record Accumulator =
  LastOrdinal :: u32
  ValueEx :: u64
  Consumed :: u64

definition RateLimitingPrecision :: u64 where
  "RateLimitingPrecision = 1000 * 1000"

text \<open>Go panics on a division by zero.\<close>

definition udiv :: "u64 \<Rightarrow> u64 \<Rightarrow> u64 result" where
  "udiv a b = (if b = 0 then Inl GoPanic else Inr (a div b))"

definition Validate :: "ElasticLimitParameters \<Rightarrow> unit result" where
  "Validate e =
     eos_assert (Periods e > 0) ResourceLimitException
       (eos_assert (Denominator (ContractRate e) > 0) ResourceLimitException
         (eos_assert (Denominator (ExpandRate e) > 0) ResourceLimitException (Inr ())))"

definition UpdateElasticLimit :: "u64 \<Rightarrow> u64 \<Rightarrow> ElasticLimitParameters \<Rightarrow> u64 result" where
  "UpdateElasticLimit currentLimit averageUsage params =
     rbind
       (if averageUsage > Target params
        then udiv (currentLimit * Numerator (ContractRate params)) (Denominator (ContractRate params))
        else udiv (currentLimit * Numerator (ExpandRate params)) (Denominator (ExpandRate params)))
       (\<lambda>res. Inr (min (max res (MaxLimit params)) (MaxLimit params * ucast (MaxMultiplier params))))"

definition IntegerDivideCeil :: "u64 \<Rightarrow> u64 \<Rightarrow> u64 result" where
  "IntegerDivideCeil num den =
     (if den = 0 then Inl GoPanic
      else Inr (if num mod den > 0 then num div den + 1 else num div den))"

definition makeRatio :: "u64 \<Rightarrow> u64 \<Rightarrow> Ratio" where
  "makeRatio numerator denominator = \<lparr>Numerator = numerator, Denominator = denominator\<rparr>"

definition MultiWithRatio :: "u64 \<Rightarrow> Ratio \<Rightarrow> u64 result" where
  "MultiWithRatio v ratio = udiv (v * Numerator ratio) (Denominator ratio)"

definition DowngradeCast :: "Uint128 \<Rightarrow> i64" where
  "DowngradeCast val = Low64 val"

definition Average :: "Accumulator \<Rightarrow> u64 result" where
  "Average ema = IntegerDivideCeil (ValueEx ema) RateLimitingPrecision"

definition Accumulator_Add :: "u64 \<Rightarrow> u32 \<Rightarrow> u32 \<Rightarrow> Accumulator \<Rightarrow> Accumulator result" where
  "Accumulator_Add units ordinal windowSize ema =
     rbind (IntegerDivideCeil (units * RateLimitingPrecision) (ucast windowSize)) (\<lambda>valueExContrib.
     rbind
       (if LastOrdinal ema \<noteq> ordinal
        then
          rbind
            (if LastOrdinal ema + windowSize > ordinal
             then
               let delta = ordinal - LastOrdinal ema;
                   decay = makeRatio (ucast (windowSize - delta)) (ucast windowSize)
               in rbind (MultiWithRatio (ValueEx ema) decay) (\<lambda>x. Inr (ema\<lparr>ValueEx := x\<rparr>))
             else Inr (ema\<lparr>ValueEx := 0\<rparr>))
            (\<lambda>ema.
               let ema = ema\<lparr>LastOrdinal := ordinal\<rparr>
               in rbind (Average ema) (\<lambda>a. Inr (ema\<lparr>Consumed := a\<rparr>)))
        else Inr ema)
       (\<lambda>ema. Inr (ema\<lparr>Consumed := Consumed ema + units, ValueEx := ValueEx ema + valueExContrib\<rparr>)))"

section \<open>Objects\<close>

record ResourceLimitsConfigObject =
  cfg_ID :: u64
  CpuLimitParameters :: ElasticLimitParameters
  NetLimitParameters :: ElasticLimitParameters
  AccountCpuUsageAverageWindow :: u32
  AccountNetUsageAverageWindow :: u32

record ResourceLimitsStateObject =
  st_ID :: u64
  AverageBlockNetUsage :: Accumulator
  AverageBlockCpuUsage :: Accumulator
  PendingNetUsage :: u64
  PendingCpuUsage :: u64
  TotalNetWeight :: u64
  TotalCpuWeight :: u64
  TotalRamBytes :: u64
  VirtualNetLimit :: u64
  VirtualCpuLimit :: u64

record ResourceLimitsObject =
  rl_ID :: u64
  rl_Pending :: bool
  rl_Owner :: eos_name
  NetWeight :: i64
  CpuWeight :: i64
  RamBytes :: i64

record ResourceUsageObject =
  ru_ID :: u64
  ru_Owner :: eos_name
  NetUsage :: Accumulator
  CpuUsage :: Accumulator
  RamUsage :: u64

definition zeroAccumulator :: Accumulator where
  "zeroAccumulator = \<lparr>LastOrdinal = 0, ValueEx = 0, Consumed = 0\<rparr>"

definition zeroParameters :: ElasticLimitParameters where
  "zeroParameters = \<lparr>Target = 0, MaxLimit = 0, Periods = 0, MaxMultiplier = 0,
     ContractRate = makeRatio 0 0, ExpandRate = makeRatio 0 0\<rparr>"

definition DefaultResourceLimitsConfigObject :: ResourceLimitsConfigObject where
  "DefaultResourceLimitsConfigObject = \<lparr>cfg_ID = 0, CpuLimitParameters = zeroParameters,
     NetLimitParameters = zeroParameters, AccountCpuUsageAverageWindow = 0, AccountNetUsageAverageWindow = 0\<rparr>"

definition DefaultResourceLimitsStateObject :: ResourceLimitsStateObject where
  "DefaultResourceLimitsStateObject = \<lparr>st_ID = 0, AverageBlockNetUsage = zeroAccumulator,
     AverageBlockCpuUsage = zeroAccumulator, PendingNetUsage = 0, PendingCpuUsage = 0, TotalNetWeight = 0,
     TotalCpuWeight = 0, TotalRamBytes = 0, VirtualNetLimit = 0, VirtualCpuLimit = 0\<rparr>"

definition limitsObject :: "bool \<Rightarrow> eos_name \<Rightarrow> ResourceLimitsObject" where
  "limitsObject pending account = \<lparr>rl_ID = 0, rl_Pending = pending, rl_Owner = account, NetWeight = 0, CpuWeight = 0, RamBytes = 0\<rparr>"

definition usageObject :: "eos_name \<Rightarrow> ResourceUsageObject" where
  "usageObject account = \<lparr>ru_ID = 0, ru_Owner = account, NetUsage = zeroAccumulator, CpuUsage = zeroAccumulator, RamUsage = 0\<rparr>"

definition NewResourceLimitsObject :: ResourceLimitsObject where
  "NewResourceLimitsObject = \<lparr>rl_ID = 0, rl_Pending = False, rl_Owner = 0, NetWeight = - 1, CpuWeight = - 1, RamBytes = - 1\<rparr>"

definition EosPercent :: "u64 \<Rightarrow> u32 \<Rightarrow> u64" where
  "EosPercent v percentage = v * ucast percentage div 10000"

definition NewResourceLimitsConfigObject :: ResourceLimitsConfigObject where
  "NewResourceLimitsConfigObject = \<lparr>cfg_ID = 0,
     CpuLimitParameters = \<lparr>Target = EosPercent 200000 1000, MaxLimit = 200000, Periods = 60000 div 500,
       MaxMultiplier = 1000, ContractRate = makeRatio 99 100, ExpandRate = makeRatio 1000 999\<rparr>,
     NetLimitParameters = \<lparr>Target = EosPercent (1024 * 1024) 1000, MaxLimit = 1024 * 1024, Periods = 60000 div 500,
       MaxMultiplier = 1000, ContractRate = makeRatio 99 100, ExpandRate = makeRatio 1000 999\<rparr>,
     AccountCpuUsageAverageWindow = 86400000 div 500, AccountNetUsageAverageWindow = 86400000 div 500\<rparr>"

definition UpdateVirtualCpuLimit :: "ResourceLimitsConfigObject \<Rightarrow> ResourceLimitsStateObject \<Rightarrow> ResourceLimitsStateObject result" where
  "UpdateVirtualCpuLimit cfg state =
     rbind (Average (AverageBlockCpuUsage state)) (\<lambda>a.
     rbind (UpdateElasticLimit (VirtualCpuLimit state) a (CpuLimitParameters cfg)) (\<lambda>l.
     Inr (state\<lparr>VirtualCpuLimit := l\<rparr>)))"

definition UpdateVirtualNetLimit :: "ResourceLimitsConfigObject \<Rightarrow> ResourceLimitsStateObject \<Rightarrow> ResourceLimitsStateObject result" where
  "UpdateVirtualNetLimit cfg state =
     rbind (Average (AverageBlockNetUsage state)) (\<lambda>a.
     rbind (UpdateElasticLimit (VirtualNetLimit state) a (NetLimitParameters cfg)) (\<lambda>l.
     Inr (state\<lparr>VirtualNetLimit := l\<rparr>)))"

section \<open>Manager\<close>

text \<open>The configuration and the state have no index besides their id.\<close>

definition configSchema :: "(unit, ResourceLimitsConfigObject) schema" where
  "configSchema = \<lparr>getId = cfg_ID, setId = (\<lambda>i v. v\<lparr>cfg_ID := i\<rparr>), keysOf = (\<lambda>v. [])\<rparr>"

definition stateSchema :: "(unit, ResourceLimitsStateObject) schema" where
  "stateSchema = \<lparr>getId = st_ID, setId = (\<lambda>i v. v\<lparr>st_ID := i\<rparr>), keysOf = (\<lambda>v. [])\<rparr>"

definition limitsSchema :: "(bool \<times> eos_name, ResourceLimitsObject) schema" where
  "limitsSchema = \<lparr>getId = rl_ID, setId = (\<lambda>i v. v\<lparr>rl_ID := i\<rparr>), keysOf = (\<lambda>v. [(rl_Pending v, rl_Owner v)])\<rparr>"

definition usageSchema :: "(eos_name, ResourceUsageObject) schema" where
  "usageSchema = \<lparr>getId = ru_ID, setId = (\<lambda>i v. v\<lparr>ru_ID := i\<rparr>), keysOf = (\<lambda>v. [ru_Owner v])\<rparr>"

record ResourceDb =
  configTable :: "(unit, ResourceLimitsConfigObject) table"
  stateTable :: "(unit, ResourceLimitsStateObject) table"
  limitsTable :: "(bool \<times> eos_name, ResourceLimitsObject) table"
  usageTable :: "(eos_name, ResourceUsageObject) table"

definition emptyResourceDb :: ResourceDb where
  "emptyResourceDb = \<lparr>configTable = emptyTable, stateTable = emptyTable, limitsTable = emptyTable, usageTable = emptyTable\<rparr>"

text \<open>A modification whose function may fail.\<close>

definition Modify_res :: "('k, 'a) schema \<Rightarrow> 'a \<Rightarrow> ('a \<Rightarrow> 'a result) \<Rightarrow> ('k, 'a) table \<Rightarrow> ('a \<times> ('k, 'a) table) result" where
  "Modify_res S v f t = rbind (f v) (\<lambda>w. Inr (Modify S v (\<lambda>_. w) t))"

definition found :: "'a option \<Rightarrow> 'a \<Rightarrow> 'a" where
  "found r d = (case r of None \<Rightarrow> d | Some v \<Rightarrow> v)"

definition find_config :: "ResourceDb \<Rightarrow> ResourceLimitsConfigObject" where
  "find_config r = found (find_id 0 (configTable r)) DefaultResourceLimitsConfigObject"

definition find_state :: "ResourceDb \<Rightarrow> ResourceLimitsStateObject" where
  "find_state r = found (find_id 0 (stateTable r)) DefaultResourceLimitsStateObject"

definition InitializeDatabase :: "ResourceDb \<Rightarrow> ResourceDb" where
  "InitializeDatabase r =
     (let (config, ct) = Insert configSchema NewResourceLimitsConfigObject (configTable r);
          state = DefaultResourceLimitsStateObject
            \<lparr>VirtualCpuLimit := MaxLimit (CpuLimitParameters config), VirtualNetLimit := MaxLimit (NetLimitParameters config)\<rparr>;
          (state, st) = Insert stateSchema state (stateTable r)
      in r\<lparr>configTable := ct, stateTable := st\<rparr>)"

definition InitializeAccount :: "eos_name \<Rightarrow> ResourceDb \<Rightarrow> ResourceDb" where
  "InitializeAccount account r =
     (let (bl, lt) = Insert limitsSchema (NewResourceLimitsObject\<lparr>rl_Owner := account\<rparr>) (limitsTable r);
          (bu, ut) = Insert usageSchema (usageObject account) (usageTable r)
      in r\<lparr>limitsTable := lt, usageTable := ut\<rparr>)"

definition SetBlockParameters :: "ElasticLimitParameters \<Rightarrow> ElasticLimitParameters \<Rightarrow> ResourceDb \<Rightarrow> ResourceDb result" where
  "SetBlockParameters cpu net r =
     rbind (Validate cpu) (\<lambda>_. rbind (Validate net) (\<lambda>_.
     Inr (r\<lparr>configTable := snd (Modify configSchema (find_config r)
            (\<lambda>c. c\<lparr>CpuLimitParameters := cpu, NetLimitParameters := net\<rparr>) (configTable r))\<rparr>)))"

text \<open>The object of the loop is declared outside it: an account that is not found keeps the previous one.\<close>

fun UpdateAccountUsage_loop :: "ResourceLimitsConfigObject \<Rightarrow> u32 \<Rightarrow> eos_name list \<Rightarrow> ResourceUsageObject \<Rightarrow> ResourceDb \<Rightarrow> ResourceDb result" where
  "UpdateAccountUsage_loop config timeSlot [] usage r = Inr r"
| "UpdateAccountUsage_loop config timeSlot (a # as) usage r =
     (let usage = found (find_key a (usageTable r)) (usage\<lparr>ru_Owner := a\<rparr>)
      in rbind (Modify_res usageSchema usage
           (\<lambda>bu. rbind (Accumulator_Add 0 timeSlot (AccountNetUsageAverageWindow config) (NetUsage bu)) (\<lambda>n.
                 rbind (Accumulator_Add 0 timeSlot (AccountCpuUsageAverageWindow config) (CpuUsage bu)) (\<lambda>c.
                 Inr (bu\<lparr>NetUsage := n, CpuUsage := c\<rparr>)))) (usageTable r))
         (\<lambda>(usage, ut). UpdateAccountUsage_loop config timeSlot as usage (r\<lparr>usageTable := ut\<rparr>)))"

definition UpdateAccountUsage :: "eos_name list \<Rightarrow> u32 \<Rightarrow> ResourceDb \<Rightarrow> ResourceDb result" where
  "UpdateAccountUsage accounts timeSlot r = UpdateAccountUsage_loop (find_config r) timeSlot accounts (usageObject 0) r"

definition GetAccountLimits :: "eos_name \<Rightarrow> ResourceDb \<Rightarrow> i64 \<times> i64 \<times> i64" where
  "GetAccountLimits account r =
     (case find_key (True, account) (limitsTable r) of
        Some b \<Rightarrow> (RamBytes b, NetWeight b, CpuWeight b)
      | None \<Rightarrow>
          let b = found (find_key (False, account) (limitsTable r)) (limitsObject False account)
          in (RamBytes b, NetWeight b, CpuWeight b))"

text \<open>The usage of an account in its window, and its share of the capacity of the window.\<close>

definition used_in_window :: "Accumulator \<Rightarrow> u32 \<Rightarrow> Uint128" where
  "used_in_window usage window = fst (Div (MulUint64 (ValueEx usage) (ucast window)) (mk128 RateLimitingPrecision 0))"

definition max_use_in_window :: "u64 \<Rightarrow> u32 \<Rightarrow> i64 \<Rightarrow> u64 \<Rightarrow> Uint128" where
  "max_use_in_window capacity window weight allWeight =
     fst (Div (Mul (MulUint64 capacity (ucast window)) (mk128 weight 0)) (mk128 allWeight 0))"

fun AddTransactionUsage_loop :: "ResourceLimitsConfigObject \<Rightarrow> ResourceLimitsStateObject \<Rightarrow> u64 \<Rightarrow> u64 \<Rightarrow> u32
    \<Rightarrow> eos_name list \<Rightarrow> ResourceDb \<Rightarrow> ResourceDb result" where
  "AddTransactionUsage_loop config state cpu net timeSlot [] r = Inr r"
| "AddTransactionUsage_loop config state cpu net timeSlot (a # as) r =
     (let usage = found (find_key a (usageTable r)) (usageObject a);
          (unused, netWeight, cpuWeight) = GetAccountLimits a r
      in rbind (Modify_res usageSchema usage
           (\<lambda>bu. rbind (Accumulator_Add cpu timeSlot (AccountCpuUsageAverageWindow config) (CpuUsage bu)) (\<lambda>c.
                 rbind (Accumulator_Add net timeSlot (AccountNetUsageAverageWindow config) (NetUsage bu)) (\<lambda>n.
                 Inr (bu\<lparr>CpuUsage := c, NetUsage := n\<rparr>)))) (usageTable r))
         (\<lambda>(usage, ut).
            eos_assert
              (sint cpuWeight \<ge> 0 \<and> TotalCpuWeight state > 0 \<longrightarrow>
               Compare (used_in_window (CpuUsage usage) (AccountCpuUsageAverageWindow config))
                 (max_use_in_window (VirtualCpuLimit state) (AccountCpuUsageAverageWindow config) cpuWeight (TotalCpuWeight state)) < 1)
              TxCpuUsageExceeded
              (eos_assert
                (sint netWeight \<ge> 0 \<and> TotalNetWeight state > 0 \<longrightarrow>
                 Compare (used_in_window (NetUsage usage) (AccountNetUsageAverageWindow config))
                   (max_use_in_window (VirtualNetLimit state) (AccountNetUsageAverageWindow config) netWeight (TotalNetWeight state)) < 1)
                TxNetUsageExceeded
                (AddTransactionUsage_loop config state cpu net timeSlot as (r\<lparr>usageTable := ut\<rparr>)))))"

definition AddTransactionUsage :: "eos_name list \<Rightarrow> u64 \<Rightarrow> u64 \<Rightarrow> u32 \<Rightarrow> ResourceDb \<Rightarrow> ResourceDb result" where
  "AddTransactionUsage accounts cpu net timeSlot r =
     (let state = find_state r; config = find_config r
      in rbind (AddTransactionUsage_loop config state cpu net timeSlot accounts r) (\<lambda>r.
           let (state, st) = Modify stateSchema state
                 (\<lambda>s. s\<lparr>PendingCpuUsage := PendingCpuUsage s + cpu, PendingNetUsage := PendingNetUsage s + net\<rparr>) (stateTable r)
           in eos_assert (PendingCpuUsage state \<le> MaxLimit (CpuLimitParameters config)) BlockResourceExhausted
                (eos_assert (PendingNetUsage state \<le> MaxLimit (NetLimitParameters config)) BlockResourceExhausted
                  (Inr (r\<lparr>stateTable := st\<rparr>)))))"

definition AddPendingRamUsage :: "eos_name \<Rightarrow> i64 \<Rightarrow> ResourceDb \<Rightarrow> ResourceDb result" where
  "AddPendingRamUsage account ramDelta r =
     (if ramDelta = 0 then Inr r
      else
        let usage = found (find_key account (usageTable r)) (usageObject account)
        in eos_assert (sint ramDelta \<le> 0 \<or> 0xFFFFFFFFFFFFFFFF - RamUsage usage \<ge> ramDelta) TransactionException
             (eos_assert (sint ramDelta \<ge> 0 \<or> RamUsage usage \<ge> - ramDelta) TransactionException
               (Inr (r\<lparr>usageTable := snd (Modify usageSchema usage (\<lambda>u. u\<lparr>RamUsage := RamUsage u + ramDelta\<rparr>) (usageTable r))\<rparr>))))"

definition GetAccountRamUsage :: "eos_name \<Rightarrow> ResourceDb \<Rightarrow> i64" where
  "GetAccountRamUsage account r = RamUsage (found (find_key account (usageTable r)) (usageObject account))"

definition VerifyAccountRamUsage :: "eos_name \<Rightarrow> ResourceDb \<Rightarrow> unit result" where
  "VerifyAccountRamUsage account r =
     (let (ramBytes, netWeight, cpuWeight) = GetAccountLimits account r;
          usage = found (find_key account (usageTable r)) (usageObject account)
      in if sint ramBytes \<ge> 0 then eos_assert (RamUsage usage \<le> ramBytes) RamUsageExceeded (Inr ()) else Inr ())"

definition findOrCreatePendingLimits :: "eos_name \<Rightarrow> ResourceDb \<Rightarrow> ResourceLimitsObject \<times> ResourceDb" where
  "findOrCreatePendingLimits account r =
     (case find_key (True, account) (limitsTable r) of
        Some pending \<Rightarrow> (pending, r)
      | None \<Rightarrow>
          let limits = found (find_key (False, account) (limitsTable r)) (limitsObject False account);
              (pending, lt) = Insert limitsSchema
                ((limitsObject True account)\<lparr>rl_Owner := rl_Owner limits, RamBytes := RamBytes limits,
                   NetWeight := NetWeight limits, CpuWeight := CpuWeight limits, rl_Pending := True\<rparr>) (limitsTable r)
          in (pending, r\<lparr>limitsTable := lt\<rparr>))"

definition SetAccountLimits :: "eos_name \<Rightarrow> i64 \<Rightarrow> i64 \<Rightarrow> i64 \<Rightarrow> ResourceDb \<Rightarrow> bool \<times> ResourceDb" where
  "SetAccountLimits account ramBytes netWeight cpuWeight r =
     (let (limits, r) = findOrCreatePendingLimits account r;
          decreasedLimit = (sint ramBytes \<ge> 0 \<and> (sint (RamBytes limits) < 0 \<or> sint ramBytes < sint (RamBytes limits)));
          (limits, lt) = Modify limitsSchema limits
            (\<lambda>p. p\<lparr>RamBytes := ramBytes, NetWeight := netWeight, CpuWeight := cpuWeight\<rparr>) (limitsTable r)
      in (decreasedLimit, r\<lparr>limitsTable := lt\<rparr>))"

definition updateStateAndValue :: "u64 \<Rightarrow> i64 \<Rightarrow> i64 \<Rightarrow> (u64 \<times> i64) result" where
  "updateStateAndValue tot val pendingValue =
     rbind (if sint val > 0 then eos_assert (tot \<ge> val) RateLimitingStateInconsistent (Inr (tot - val)) else Inr tot)
       (\<lambda>tot.
     rbind (if sint pendingValue > 0
            then eos_assert (0xFFFFFFFFFFFFFFFF - tot \<ge> pendingValue) RateLimitingStateInconsistent (Inr (tot + pendingValue))
            else Inr tot)
       (\<lambda>tot. Inr (tot, pendingValue)))"

definition apply_limits :: "ResourceLimitsObject \<Rightarrow> ResourceLimitsStateObject \<Rightarrow> ResourceLimitsObject
    \<Rightarrow> (ResourceLimitsStateObject \<times> ResourceLimitsObject) result" where
  "apply_limits limit rso rlo =
     rbind (updateStateAndValue (TotalRamBytes rso) (RamBytes rlo) (RamBytes limit)) (\<lambda>(tr, vr).
     rbind (updateStateAndValue (TotalCpuWeight rso) (CpuWeight rlo) (CpuWeight limit)) (\<lambda>(tc, vc).
     rbind (updateStateAndValue (TotalNetWeight rso) (NetWeight rlo) (NetWeight limit)) (\<lambda>(tn, vn).
     Inr (rso\<lparr>TotalRamBytes := tr, TotalCpuWeight := tc, TotalNetWeight := tn\<rparr>,
          rlo\<lparr>RamBytes := vr, CpuWeight := vc, NetWeight := vn\<rparr>))))"

text \<open>
  The loop over the pending entries. It takes the first key at or behind the first pending one again
  and again; an entry that cannot be removed would keep it running.
\<close>

partial_function (option) ProcessLimits_loop :: "ResourceLimitsObject \<Rightarrow> ResourceLimitsStateObject
    \<Rightarrow> (bool \<times> eos_name, ResourceLimitsObject) table
    \<Rightarrow> (ResourceLimitsStateObject \<times> (bool \<times> eos_name, ResourceLimitsObject) table) result option" where
  "ProcessLimits_loop limit rso lt =
     (if tbl_index lt = [] then Some (Inr (rso, lt))
      else case LowerBound_key (True, 0) lt of
        None \<Rightarrow> Some (Inr (rso, lt))
      | Some k \<Rightarrow>
          let limit = found (find_key k lt) limit
          in if \<not> rl_Pending limit then Some (Inr (rso, lt))
             else
               let actualEntry = found (find_key (False, rl_Owner limit) lt) (limitsObject False (rl_Owner limit))
               in case apply_limits limit rso actualEntry of
                 Inl e \<Rightarrow> Some (Inl e)
               | Inr (rso, entry) \<Rightarrow>
                   let lt = snd (Modify limitsSchema actualEntry (\<lambda>_. entry) lt)
                   in case Remove_row limitsSchema limit lt of
                     Inl e \<Rightarrow> ProcessLimits_loop limit rso lt
                   | Inr lt \<Rightarrow> ProcessLimits_loop limit rso lt)"

definition ProcessAccountLimitUpdates :: "ResourceDb \<Rightarrow> ResourceDb result" where
  "ProcessAccountLimitUpdates r =
     (let state = find_state r
      in rbind (returned (ProcessLimits_loop (limitsObject False 0) state (limitsTable r))) (\<lambda>(rso, lt).
           Inr (r\<lparr>limitsTable := lt, stateTable := snd (Modify stateSchema state (\<lambda>_. rso) (stateTable r))\<rparr>)))"

definition ProcessBlockUsage :: "u32 \<Rightarrow> ResourceDb \<Rightarrow> ResourceDb result" where
  "ProcessBlockUsage blockNum r =
     (let config = find_config r
      in rbind (Modify_res stateSchema (find_state r)
           (\<lambda>state.
              rbind (Accumulator_Add (PendingCpuUsage state) blockNum (Periods (CpuLimitParameters config)) (AverageBlockCpuUsage state)) (\<lambda>c.
              rbind (UpdateVirtualCpuLimit config (state\<lparr>AverageBlockCpuUsage := c\<rparr>)) (\<lambda>state.
              let state = state\<lparr>PendingCpuUsage := 0\<rparr>
              in rbind (Accumulator_Add (PendingNetUsage state) blockNum (Periods (NetLimitParameters config)) (AverageBlockNetUsage state)) (\<lambda>n.
                 rbind (UpdateVirtualNetLimit config (state\<lparr>AverageBlockNetUsage := n\<rparr>)) (\<lambda>state.
                 Inr (state\<lparr>PendingNetUsage := 0\<rparr>)))))) (stateTable r))
         (\<lambda>(s, st). Inr (r\<lparr>stateTable := st\<rparr>)))"

definition GetVirtualBlockCpuLimit :: "ResourceDb \<Rightarrow> u64" where
  "GetVirtualBlockCpuLimit r = VirtualCpuLimit (find_state r)"

definition GetVirtualBlockNetLimit :: "ResourceDb \<Rightarrow> u64" where
  "GetVirtualBlockNetLimit r = VirtualNetLimit (find_state r)"

definition GetBlockCpuLimit :: "ResourceDb \<Rightarrow> u64" where
  "GetBlockCpuLimit r = MaxLimit (CpuLimitParameters (find_config r)) - PendingCpuUsage (find_state r)"

definition GetBlockNetLimit :: "ResourceDb \<Rightarrow> u64" where
  "GetBlockNetLimit r = MaxLimit (NetLimitParameters (find_config r)) - PendingNetUsage (find_state r)"

definition limit_in_window :: "Uint128 \<Rightarrow> Uint128 \<Rightarrow> AccountResourceLimit" where
  "limit_in_window most used =
     \<lparr>arl_Used = DowngradeCast used,
      arl_Available = (if Compare most used \<noteq> 1 then 0 else DowngradeCast (Sub most used)),
      arl_Max = DowngradeCast most\<rparr>"

definition unlimited :: AccountResourceLimit where
  "unlimited = \<lparr>arl_Used = - 1, arl_Available = - 1, arl_Max = - 1\<rparr>"

definition GetAccountCpuLimitEx :: "eos_name \<Rightarrow> bool \<Rightarrow> ResourceDb \<Rightarrow> AccountResourceLimit" where
  "GetAccountCpuLimitEx name elastic r =
     (let state = find_state r; config = find_config r;
          usage = found (find_key name (usageTable r)) (usageObject name);
          (x, y, cpuWeight) = GetAccountLimits name r
      in if sint cpuWeight < 0 \<or> TotalCpuWeight state = 0 then unlimited
         else
           let window = AccountCpuUsageAverageWindow config;
               capacity = (if elastic then VirtualCpuLimit state else MaxLimit (CpuLimitParameters config))
           in limit_in_window (max_use_in_window capacity window cpuWeight (TotalCpuWeight state))
                (used_in_window (CpuUsage usage) window))"

text \<open>The window is the one of the other resource.\<close>

definition GetAccountNetLimitEx :: "eos_name \<Rightarrow> bool \<Rightarrow> ResourceDb \<Rightarrow> AccountResourceLimit" where
  "GetAccountNetLimitEx name elastic r =
     (let state = find_state r; config = find_config r;
          usage = found (find_key name (usageTable r)) (usageObject name);
          (x, netWeight, y) = GetAccountLimits name r
      in if sint netWeight < 0 \<or> TotalNetWeight state = 0 then unlimited
         else
           let window = AccountCpuUsageAverageWindow config;
               capacity = (if elastic then VirtualNetLimit state else MaxLimit (NetLimitParameters config))
           in limit_in_window (max_use_in_window capacity window netWeight (TotalNetWeight state))
                (used_in_window (NetUsage usage) window))"

definition GetAccountCpuLimit :: "eos_name \<Rightarrow> bool \<Rightarrow> ResourceDb \<Rightarrow> i64" where
  "GetAccountCpuLimit name elastic r = arl_Available (GetAccountCpuLimitEx name elastic r)"

definition GetAccountNetLimit :: "eos_name \<Rightarrow> bool \<Rightarrow> ResourceDb \<Rightarrow> i64" where
  "GetAccountNetLimit name elastic r = arl_Available (GetAccountNetLimitEx name elastic r)"

section \<open>Schemas\<close>

interpretation config_schema: object_schema configSchema
  by unfold_locales (simp_all add: configSchema_def)

interpretation state_schema: object_schema stateSchema
  by unfold_locales (simp_all add: stateSchema_def)

interpretation limits_schema: object_schema limitsSchema
  by unfold_locales (simp_all add: limitsSchema_def)

interpretation usage_schema: object_schema usageSchema
  by unfold_locales (simp_all add: usageSchema_def)

end
