(* ===== verification/Eos_ResourceLaws.thy ===== *)
theory Eos_ResourceLaws
  imports Eos_Resource
begin

text \<open>
  What the resource manager of \<open>Eos_Resource\<close> guarantees: the totals of the chain are the sums over the
  accounts, moving averages stay exact and bounded, memory accounting is exact, and which
  transactions are billed.
\<close>

section \<open>Sums over accounts\<close>

definition positive :: "i64 \<Rightarrow> nat" where
  "positive w = nat (sint w)"

definition weight :: "(ResourceLimitsObject \<Rightarrow> i64) \<Rightarrow> ResourceLimitsObject \<Rightarrow> nat" where
  "weight g v = (if rl_Pending v then 0 else positive (g v))"

definition sum_rows :: "('a \<Rightarrow> nat) \<Rightarrow> (u64 \<rightharpoonup> 'a) \<Rightarrow> nat" where
  "sum_rows h m = (\<Sum>i\<in>dom m. h (the (m i)))"

abbreviation sum_weights :: "(ResourceLimitsObject \<Rightarrow> i64) \<Rightarrow> (u64 \<rightharpoonup> ResourceLimitsObject) \<Rightarrow> nat" where
  "sum_weights g \<equiv> sum_rows (weight g)"

abbreviation sum_all :: "(ResourceLimitsObject \<Rightarrow> i64) \<Rightarrow> (u64 \<rightharpoonup> ResourceLimitsObject) \<Rightarrow> nat" where
  "sum_all g \<equiv> sum_rows (\<lambda>v. positive (g v))"

lemma sum_rows_upd:
  assumes "finite (dom m)"
  shows "m i = None \<Longrightarrow> sum_rows h (m(i \<mapsto> w)) = sum_rows h m + h w"
    and "m i = Some v \<Longrightarrow> sum_rows h (m(i \<mapsto> w)) + h v = sum_rows h m + h w"
    and "m i = Some v \<Longrightarrow> sum_rows h (m(i := None)) + h v = sum_rows h m"
proof -
  have rest: "(\<Sum>j\<in>dom m - {i}. h (the ((m(i := x)) j))) = (\<Sum>j\<in>dom m - {i}. h (the (m j)))" for x
    by (rule sum.cong) auto
  show "m i = None \<Longrightarrow> sum_rows h (m(i \<mapsto> w)) = sum_rows h m + h w"
  proof -
    assume n: "m i = None"
    then have "dom m - {i} = dom m" by auto
    with rest [of "Some w"] show ?thesis
      using assms n by (simp add: sum_rows_def sum.insert_remove)
  qed
  assume s: "m i = Some v"
  have m: "sum_rows h m = h v + (\<Sum>j\<in>dom m - {i}. h (the (m j)))"
    using sum.remove [OF assms, of i "\<lambda>j. h (the (m j))"] s by (auto simp: sum_rows_def)
  show "sum_rows h (m(i \<mapsto> w)) + h v = sum_rows h m + h w"
    using m rest [of "Some w"] assms by (simp add: sum_rows_def sum.insert_remove)
  show "sum_rows h (m(i := None)) + h v = sum_rows h m"
    using m rest [of None] by (simp add: sum_rows_def)
qed

lemma sum_weights_le_all: "sum_weights g m \<le> sum_all g m"
  unfolding sum_rows_def by (rule sum_mono) (simp add: weight_def)

lemma finite_rows: "finite (dom (rowsOf t))"
  by (simp add: rowsOf_def finite_dom_map_of)

lemma member_le_sum_rows: "m i = Some v \<Longrightarrow> finite (dom m) \<Longrightarrow> h v \<le> sum_rows h m"
  using sum_rows_upd(3) [of m i v h] by simp

section \<open>Applying pending limits\<close>

lemma sint_nonneg:
  fixes v :: i64
  assumes "0 \<le> sint v"
  shows "unat v = nat (sint v)"
proof -
  have "sint v < 2 ^ 63" using sint_lt [of v] by simp
  moreover have "uint v = take_bit 64 (sint v)" using uint_sint [of v] by simp
  ultimately have "uint v = sint v" using assms by (simp add: take_bit_int_eq_self)
  then show ?thesis by (simp only: unat_eq_nat_uint)
qed

lemma positive_nonpos [simp]: "sint w \<le> 0 \<Longrightarrow> positive w = 0"
  by (simp add: positive_def)

lemma positive_pos: "0 < sint w \<Longrightarrow> positive w = unat w"
  using sint_nonneg [of w] by (simp add: positive_def)

text \<open>The old value of an account is never more than the total, so only the overflow can be hit.\<close>

lemma updateStateAndValue_spec:
  assumes "positive val \<le> unat tot"
  shows "updateStateAndValue tot val pend =
    (if unat tot - positive val + positive pend < 2 ^ 64
     then Inr (of_nat (unat tot - positive val + positive pend), pend) else Inl RateLimitingStateInconsistent)"
proof -
  let ?a = "unat tot - positive val"
  define mid where "mid = (of_nat ?a :: u64)"
  have mid: "unat mid = ?a"
  proof -
    have "?a < 2 ^ 64" using unat_bound64 [of tot] by (simp add: less_imp_diff_less)
    then show ?thesis unfolding mid_def by (rule unat_of_nat64)
  qed
  have 1: "(if sint val > 0 then eos_assert (tot \<ge> val) RateLimitingStateInconsistent (Inr (tot - val)) else Inr tot) = Inr mid"
  proof (cases "sint val > 0")
    case True
    then have "val \<le> tot" using assms by (simp add: positive_pos word_le_nat_alt)
    moreover from this have "unat (tot - val) = ?a" using True by (simp add: unat_sub positive_pos)
    ultimately show ?thesis using True mid by (simp add: word_unat_eq_iff)
  next
    case False
    then show ?thesis using mid by (simp add: word_unat_eq_iff)
  qed
  have 2: "(if sint pend > 0 then eos_assert (0xFFFFFFFFFFFFFFFF - mid \<ge> pend) RateLimitingStateInconsistent (Inr (mid + pend)) else Inr mid) =
      (if ?a + positive pend < 2 ^ 64 then Inr (of_nat (?a + positive pend)) else Inl RateLimitingStateInconsistent)"
  proof (cases "sint pend > 0")
    case True
    have "unat (0xFFFFFFFFFFFFFFFF - mid) = 2 ^ 64 - 1 - ?a"
      using mid unat_bound64 [of mid] by (subst unat_sub) (simp_all add: word_le_nat_alt)
    then have "pend \<le> 0xFFFFFFFFFFFFFFFF - mid \<longleftrightarrow> ?a + positive pend < 2 ^ 64"
      using mid unat_bound64 [of mid] True by (simp add: word_le_nat_alt positive_pos) linarith
    moreover have "mid + pend = of_nat (?a + positive pend)"
      using mid True by (simp add: positive_pos mid_def)
    ultimately show ?thesis using True by simp
  next
    case False
    then show ?thesis using mid unat_bound64 [of mid] by (simp add: mid_def)
  qed
  show ?thesis unfolding updateStateAndValue_def 1 rbind_simps 2 by simp
qed

definition account_limits :: "(bool \<times> eos_name, ResourceLimitsObject) table \<Rightarrow> eos_name \<Rightarrow> i64 \<times> i64 \<times> i64" where
  "account_limits lt a = GetAccountLimits a (emptyResourceDb\<lparr>limitsTable := lt\<rparr>)"

lemma GetAccountLimits_table: "GetAccountLimits a r = account_limits (limitsTable r) a"
  by (cases "find_key (True, a) (limitsTable r)") (simp_all add: account_limits_def GetAccountLimits_def)

lemma account_limits_cases:
  "find_key (True, a) lt = Some b \<Longrightarrow> account_limits lt a = (RamBytes b, NetWeight b, CpuWeight b)"
  "find_key (True, a) lt = None \<Longrightarrow> find_key (False, a) lt = Some b \<Longrightarrow>
    account_limits lt a = (RamBytes b, NetWeight b, CpuWeight b)"
  "find_key (True, a) lt = None \<Longrightarrow> find_key (False, a) lt = None \<Longrightarrow> account_limits lt a = (0, 0, 0)"
  by (simp_all add: account_limits_def GetAccountLimits_def found_def limitsObject_def Let_def)

lemma account_limits_cong:
  "(\<And>p. find_key (p, a) lt = find_key (p, a) lt') \<Longrightarrow> account_limits lt a = account_limits lt' a"
  by (cases "find_key (True, a) lt'") (simp_all add: account_limits_def GetAccountLimits_def)

definition totals_ok :: "ResourceLimitsStateObject \<Rightarrow> (u64 \<rightharpoonup> ResourceLimitsObject) \<Rightarrow> bool" where
  "totals_ok s m \<longleftrightarrow>
     unat (TotalRamBytes s) = sum_weights RamBytes m \<and> unat (TotalCpuWeight s) = sum_weights CpuWeight m \<and>
     unat (TotalNetWeight s) = sum_weights NetWeight m"

definition without_totals :: "ResourceLimitsStateObject \<Rightarrow> ResourceLimitsStateObject" where
  "without_totals s = s\<lparr>TotalRamBytes := 0, TotalCpuWeight := 0, TotalNetWeight := 0\<rparr>"

text \<open>Every pending entry belongs to an account that has an entry in force.\<close>

definition limits_ok :: "(bool \<times> eos_name, ResourceLimitsObject) table \<Rightarrow> bool" where
  "limits_ok lt \<longleftrightarrow>
     table_ok limitsSchema lt \<and> (\<forall>a. find_key (True, a) lt \<noteq> None \<longrightarrow> find_key (False, a) lt \<noteq> None)"

lemma limits_schema_simps [simp]:
  "getId limitsSchema v = rl_ID v" "setId limitsSchema i v = v\<lparr>rl_ID := i\<rparr>" "keysOf limitsSchema v = [(rl_Pending v, rl_Owner v)]"
  by (simp_all add: limitsSchema_def)

lemma limits_find:
  assumes "table_ok limitsSchema lt"
  shows "find_key (p, a) lt = Some v \<longleftrightarrow> rowsOf lt (rl_ID v) = Some v \<and> rl_Pending v = p \<and> rl_Owner v = a"
  using find_key_iff [OF table_okD(1) [OF assms], of "(p, a)" v] by auto

definition pending_accounts :: "(bool \<times> eos_name, ResourceLimitsObject) table \<Rightarrow> eos_name set" where
  "pending_accounts lt = {a. find_key (True, a) lt \<noteq> None}"

definition limited_accounts :: "(bool \<times> eos_name, ResourceLimitsObject) table \<Rightarrow> eos_name set" where
  "limited_accounts lt = {a. find_key (False, a) lt \<noteq> None}"

lemma finite_pending: "finite (pending_accounts lt)"
proof -
  have "pending_accounts lt \<subseteq> snd ` dom (idsOf lt)"
    by (force simp: pending_accounts_def find_key_maps split: option.splits)
  then show ?thesis by (rule finite_subset) (simp add: idsOf_def finite_dom_map_of)
qed

lemma apply_limits_spec:
  assumes "totals_ok rso m" "finite (dom m)" "m i = Some e" "\<not> rl_Pending e"
  shows "(\<exists>rso' e'. apply_limits l rso e = Inr (rso', e') \<and> totals_ok rso' (m(i \<mapsto> e')) \<and>
      e' = e\<lparr>RamBytes := RamBytes l, CpuWeight := CpuWeight l, NetWeight := NetWeight l\<rparr> \<and>
      without_totals rso' = without_totals rso) \<or>
    apply_limits l rso e = Inl RateLimitingStateInconsistent \<and>
    (\<exists>g\<in>{RamBytes, CpuWeight, NetWeight}. 2 ^ 64 \<le> sum_weights g
      (m(i \<mapsto> e\<lparr>RamBytes := RamBytes l, CpuWeight := CpuWeight l, NetWeight := NetWeight l\<rparr>)))"
proof -
  let ?e = "e\<lparr>RamBytes := RamBytes l, CpuWeight := CpuWeight l, NetWeight := NetWeight l\<rparr>"
  have le: "positive (g e) \<le> sum_weights g m" for g
    using member_le_sum_rows [OF assms(3, 2), of "weight g"] assms(4) by (simp add: weight_def)
  have upd: "sum_weights g (m(i \<mapsto> ?e)) = sum_weights g m - positive (g e) + positive (g ?e)" for g
    using sum_rows_upd(2) [OF assms(2, 3), of "weight g" ?e] le [of g] assms(4) by (simp add: weight_def)
  have t: "unat (TotalRamBytes rso) = sum_weights RamBytes m" "unat (TotalCpuWeight rso) = sum_weights CpuWeight m"
    "unat (TotalNetWeight rso) = sum_weights NetWeight m"
    using assms(1) by (simp_all add: totals_ok_def)
  have r: "updateStateAndValue (TotalRamBytes rso) (RamBytes e) (RamBytes l) =
      (if sum_weights RamBytes (m(i \<mapsto> ?e)) < 2 ^ 64 then Inr (of_nat (sum_weights RamBytes (m(i \<mapsto> ?e))), RamBytes l)
       else Inl RateLimitingStateInconsistent)"
    using updateStateAndValue_spec [of "RamBytes e" "TotalRamBytes rso" "RamBytes l"] le [of RamBytes] upd [of RamBytes] t(1) by simp
  have c: "updateStateAndValue (TotalCpuWeight rso) (CpuWeight e) (CpuWeight l) =
      (if sum_weights CpuWeight (m(i \<mapsto> ?e)) < 2 ^ 64 then Inr (of_nat (sum_weights CpuWeight (m(i \<mapsto> ?e))), CpuWeight l)
       else Inl RateLimitingStateInconsistent)"
    using updateStateAndValue_spec [of "CpuWeight e" "TotalCpuWeight rso" "CpuWeight l"] le [of CpuWeight] upd [of CpuWeight] t(2) by simp
  have n: "updateStateAndValue (TotalNetWeight rso) (NetWeight e) (NetWeight l) =
      (if sum_weights NetWeight (m(i \<mapsto> ?e)) < 2 ^ 64 then Inr (of_nat (sum_weights NetWeight (m(i \<mapsto> ?e))), NetWeight l)
       else Inl RateLimitingStateInconsistent)"
    using updateStateAndValue_spec [of "NetWeight e" "TotalNetWeight rso" "NetWeight l"] le [of NetWeight] upd [of NetWeight] t(3) by simp
  show ?thesis
    unfolding apply_limits_def r c n by (auto simp: totals_ok_def unat_of_nat64 without_totals_def)
qed

text \<open>One round of the loop: the entry in force takes the pending values and the pending entry goes.\<close>

lemma process_round:
  assumes ok: "limits_ok lt" and l: "find_key (True, a) lt = Some l" and e: "find_key (False, a) lt = Some e"
    and e': "e' = e\<lparr>RamBytes := RamBytes l, CpuWeight := CpuWeight l, NetWeight := NetWeight l\<rparr>"
    and lt1: "lt1 = snd (Modify limitsSchema e (\<lambda>_. e') lt)"
  obtains lt2 where "Remove_row limitsSchema l lt1 = Inr lt2" "limits_ok lt2"
    "rowsOf lt2 = (rowsOf lt)(rl_ID e \<mapsto> e', rl_ID l := None)" "rl_ID l \<noteq> rl_ID e"
    "pending_accounts lt2 = pending_accounts lt - {a}" "account_limits lt2 = account_limits lt"
    "limited_accounts lt2 = limited_accounts lt"
proof -
  have t: "table_ok limitsSchema lt" using ok by (simp add: limits_ok_def)
  have L: "rowsOf lt (rl_ID l) = Some l" "rl_Pending l" "rl_Owner l = a" using l limits_find [OF t, of True a l] by simp_all
  have E: "rowsOf lt (rl_ID e) = Some e" "\<not> rl_Pending e" "rl_Owner e = a" using e limits_find [OF t, of False a e] by simp_all
  have ne: "rl_ID l \<noteq> rl_ID e"
  proof
    assume "rl_ID l = rl_ID e"
    then have "Some l = Some e" unfolding L(1) [symmetric] E(1) [symmetric] by (rule arg_cong)
    then show False using L(2) E(2) by simp
  qed
  obtain v' where m: "Modify limitsSchema e (\<lambda>_. e') lt = (v', lt1)" using lt1 by (metis surjective_pairing)
  have M: "table_ok limitsSchema lt1" "rowsOf lt1 = (rowsOf lt)(rl_ID e \<mapsto> e')"
    using limits_schema.Modify_ok(1, 3) [OF t _ _ _ m] E(1) unfolding e' by simp_all
  have row: "rowsOf lt1 (rl_ID l) = Some l" using M(2) L(1) ne by simp
  then obtain lt2 where r: "Remove_row limitsSchema l lt1 = Inr lt2"
    by (auto simp: Remove_row_def find_id_maps Let_def)
  have R: "table_ok limitsSchema lt2" "rowsOf lt2 = (rowsOf lt)(rl_ID e \<mapsto> e', rl_ID l := None)"
    using limits_schema.Remove_ok [OF M(1) _ r] row M(2) by simp_all
  have F: "find_key (p, b) lt2 = (if b = a then (if p then None else Some e') else find_key (p, b) lt)" for p b
  proof (rule option_eqI)
    fix v
    have "find_key (p, b) lt2 = Some v \<longleftrightarrow> rowsOf lt2 (rl_ID v) = Some v \<and> rl_Pending v = p \<and> rl_Owner v = b"
      by (rule limits_find [OF R(1)])
    also have "\<dots> \<longleftrightarrow> (if b = a then \<not> p \<and> v = e' else find_key (p, b) lt = Some v)"
    proof (cases "b = a")
      case True
      have "v = l \<or> v = e" if "rowsOf lt (rl_ID v) = Some v" "rl_Owner v = a"
        using l e limits_find [OF t, of "rl_Pending v" a v] that by (cases "rl_Pending v") simp_all
      moreover have "rl_ID e' = rl_ID e" "\<not> rl_Pending e'" "rl_Owner e' = a" using E e' by simp_all
      ultimately show ?thesis unfolding R(2) using True ne by (auto split: if_splits)
    next
      case False
      have "rl_ID v \<noteq> rl_ID l \<and> rl_ID v \<noteq> rl_ID e" if "rowsOf lt (rl_ID v) = Some v" "rl_Owner v = b"
        using that L(1, 3) E(1, 3) False by (metis option.inject)
      moreover have "rl_Owner e' = a" using E e' by simp
      ultimately show ?thesis unfolding R(2) using False limits_find [OF t, of p b v] by (auto split: if_splits)
    qed
    finally show "find_key (p, b) lt2 = Some v \<longleftrightarrow> (if b = a then (if p then None else Some e') else find_key (p, b) lt) = Some v"
      by auto
  qed
  have "limits_ok lt2" using ok R(1) F by (simp add: limits_ok_def)
  moreover have "pending_accounts lt2 = pending_accounts lt - {a}" using F by (auto simp: pending_accounts_def)
  moreover have "limited_accounts lt2 = limited_accounts lt" using F e by (auto simp: limited_accounts_def)
  moreover have "account_limits lt2 b = account_limits lt b" for b
  proof (cases "b = a")
    case True
    then show ?thesis using account_limits_cases(1) [OF l] account_limits_cases(2) [of a lt2 e'] F e' by simp
  next
    case False
    then show ?thesis by (intro account_limits_cong) (simp add: F)
  qed
  ultimately show ?thesis using that [OF r] R(2) ne by blast
qed

lemma LowerBound_pending:
  assumes "limits_ok lt"
  shows "LowerBound_key (True, 0) lt = None \<Longrightarrow> pending_accounts lt = {}"
    and "LowerBound_key (True, 0) lt = Some k \<Longrightarrow> \<exists>a l. k = (True, a) \<and> find_key (True, a) lt = Some l"
proof -
  have c: "consistent limitsSchema lt" using assms by (simp add: limits_ok_def table_ok_def)
  show "LowerBound_key (True, 0) lt = None \<Longrightarrow> pending_accounts lt = {}"
    using LowerBound_key_None [of "(True, 0)" lt] idsOf_find [OF c] by (auto simp: pending_accounts_def)
  assume k: "LowerBound_key (True, 0) lt = Some k"
  then have "fst k" using LowerBound_key_Some(1) [OF k] by (cases k) auto
  moreover have "find_key k lt \<noteq> None" using LowerBound_key_Some(2) [OF k] idsOf_find [OF c] by simp
  ultimately show "\<exists>a l. k = (True, a) \<and> find_key (True, a) lt = Some l" by (cases k) auto
qed

text \<open>A round only takes the value in force away from the sum over all entries.\<close>

lemma round_sums:
  assumes "finite (dom m)" "m i = Some e" "m j = Some l" "j \<noteq> i" "rl_Pending l" "\<not> rl_Pending e'" "g e' = g l"
  shows "sum_weights g (m(i \<mapsto> e')) \<le> sum_all g m" "sum_all g (m(i \<mapsto> e', j := None)) \<le> sum_all g m"
proof -
  have j: "(m(i \<mapsto> e')) j = Some l" using assms(3, 4) by simp
  have fin: "finite (dom (m(i \<mapsto> e')))" using assms(1) by simp
  show all: "sum_all g (m(i \<mapsto> e', j := None)) \<le> sum_all g m"
    using sum_rows_upd(3) [of "m(i \<mapsto> e')" j l "\<lambda>v. positive (g v)", OF fin j] sum_rows_upd(2) [OF assms(1, 2), of "\<lambda>v. positive (g v)" e'] assms(7) by simp
  have "sum_weights g (m(i \<mapsto> e')) = sum_weights g (m(i \<mapsto> e', j := None))"
    using sum_rows_upd(3) [of "m(i \<mapsto> e')" j l "weight g", OF fin j] assms(5) by (simp add: weight_def)
  then show "sum_weights g (m(i \<mapsto> e')) \<le> sum_all g m"
    using sum_weights_le_all [of g "m(i \<mapsto> e', j := None)"] all by simp
qed

lemma ProcessLimits_loop_spec:
  assumes "limits_ok lt" "totals_ok rso (rowsOf lt)"
  shows "(\<exists>rso' lt'. ProcessLimits_loop limit rso lt = Some (Inr (rso', lt')) \<and> limits_ok lt' \<and> totals_ok rso' (rowsOf lt') \<and>
      pending_accounts lt' = {} \<and> account_limits lt' = account_limits lt \<and> limited_accounts lt' = limited_accounts lt \<and>
      without_totals rso' = without_totals rso) \<or>
    ProcessLimits_loop limit rso lt = Some (Inl RateLimitingStateInconsistent) \<and>
    (\<exists>g\<in>{RamBytes, CpuWeight, NetWeight}. 2 ^ 64 \<le> sum_all g (rowsOf lt))"
  using assms
proof (induction "card (pending_accounts lt)" arbitrary: limit rso lt rule: less_induct)
  case less
  have stop: ?case if "ProcessLimits_loop limit rso lt = Some (Inr (rso, lt))" "pending_accounts lt = {}"
    using that less.prems by simp
  show ?case
  proof (cases "LowerBound_key (True, 0) lt")
    case None
    then have "ProcessLimits_loop limit rso lt = Some (Inr (rso, lt))" by (subst ProcessLimits_loop.simps) simp
    then show ?thesis using stop LowerBound_pending(1) [OF less.prems(1) None] by blast
  next
    case (Some k)
    then obtain a l where k: "k = (True, a)" and l: "find_key (True, a) lt = Some l" using LowerBound_pending(2) [OF less.prems(1)] by blast
    have t: "table_ok limitsSchema lt" using less.prems(1) by (simp add: limits_ok_def)
    obtain e where e: "find_key (False, a) lt = Some e" using less.prems(1) l by (auto simp: limits_ok_def)
    have L: "rl_Pending l" "rl_Owner l = a" "rowsOf lt (rl_ID l) = Some l" using l limits_find [OF t, of True a l] by simp_all
    have E: "rowsOf lt (rl_ID e) = Some e" "\<not> rl_Pending e" using e limits_find [OF t, of False a e] by simp_all
    have ne': "rl_ID l \<noteq> rl_ID e" using L(1, 3) E by (metis option.inject)
    have ne: "tbl_index lt \<noteq> []" using Some by (auto simp: LowerBound_key_def)
    let ?lt1 = "\<lambda>e'. snd (Modify limitsSchema e (\<lambda>_. e') lt)"
    have unf: "ProcessLimits_loop limit rso lt = (case apply_limits l rso e of Inl x \<Rightarrow> Some (Inl x)
        | Inr (rso, e') \<Rightarrow> (case Remove_row limitsSchema l (?lt1 e') of
            Inl x \<Rightarrow> ProcessLimits_loop l rso (?lt1 e') | Inr lt \<Rightarrow> ProcessLimits_loop l rso lt))"
      by (subst ProcessLimits_loop.simps, cases "apply_limits l rso e")
        (simp_all add: Some k l e L ne found_def Let_def split: prod.split)
    consider (ok) rso' e' where "apply_limits l rso e = Inr (rso', e')" "totals_ok rso' ((rowsOf lt)(rl_ID e \<mapsto> e'))"
        "e' = e\<lparr>RamBytes := RamBytes l, CpuWeight := CpuWeight l, NetWeight := NetWeight l\<rparr>"
        "without_totals rso' = without_totals rso"
      | (bad) g where "apply_limits l rso e = Inl RateLimitingStateInconsistent" "g \<in> {RamBytes, CpuWeight, NetWeight}"
          "2 ^ 64 \<le> sum_weights g ((rowsOf lt)(rl_ID e \<mapsto> e\<lparr>RamBytes := RamBytes l, CpuWeight := CpuWeight l, NetWeight := NetWeight l\<rparr>))"
      using apply_limits_spec [OF less.prems(2) finite_rows E, of l] by blast
    then show ?thesis
    proof cases
      case (bad g)
      have "sum_weights g ((rowsOf lt)(rl_ID e \<mapsto> e\<lparr>RamBytes := RamBytes l, CpuWeight := CpuWeight l, NetWeight := NetWeight l\<rparr>))
          \<le> sum_all g (rowsOf lt)"
        using bad(2) by (intro round_sums(1) [OF finite_rows E(1) L(3) ne' L(1)]) (use E(2) in auto)
      then have "2 ^ 64 \<le> sum_all g (rowsOf lt)" using bad(3) by (rule order_trans [rotated])
      then show ?thesis using bad(1, 2) unfolding unf by (intro disjI2 conjI bexI [of _ g]) simp_all
    next
      case (ok rso' e')
      obtain lt2 where r: "Remove_row limitsSchema l (?lt1 e') = Inr lt2" "limits_ok lt2"
          "rowsOf lt2 = (rowsOf lt)(rl_ID e \<mapsto> e', rl_ID l := None)" "rl_ID l \<noteq> rl_ID e"
          "pending_accounts lt2 = pending_accounts lt - {a}" "account_limits lt2 = account_limits lt"
          "limited_accounts lt2 = limited_accounts lt"
        by (rule process_round [OF less.prems(1) l e ok(3) refl])
      have "((rowsOf lt)(rl_ID e \<mapsto> e')) (rl_ID l) = Some l" using r(4) l limits_find [OF t, of True a l] by simp
      then have "sum_weights g (rowsOf lt2) = sum_weights g ((rowsOf lt)(rl_ID e \<mapsto> e'))" for g
        using sum_rows_upd(3) [of "(rowsOf lt)(rl_ID e \<mapsto> e')" "rl_ID l" l "weight g"] L(1) finite_rows [of lt]
        unfolding r(3) by (simp add: weight_def)
      then have tot: "totals_ok rso' (rowsOf lt2)" using ok(2) by (simp add: totals_ok_def)
      have "a \<in> pending_accounts lt" using l by (simp add: pending_accounts_def)
      then have "card (pending_accounts lt2) < card (pending_accounts lt)"
        unfolding r(5) by (rule card_Diff1_less [OF finite_pending])
      note IH = less.hyps [OF this r(2) tot, of l]
      have all: "sum_all g (rowsOf lt2) \<le> sum_all g (rowsOf lt)" if "g \<in> {RamBytes, CpuWeight, NetWeight}" for g
        unfolding r(3) using that by (intro round_sums(2) [OF finite_rows E(1) L(3) ne' L(1)]) (use E(2) ok(3) in auto)
      have run: "ProcessLimits_loop limit rso lt = ProcessLimits_loop l rso' lt2" unfolding unf ok(1) using r(1) by simp
      have "\<exists>g\<in>{RamBytes, CpuWeight, NetWeight}. 2 ^ 64 \<le> sum_all g (rowsOf lt)"
        if "\<exists>g\<in>{RamBytes, CpuWeight, NetWeight}. 2 ^ 64 \<le> sum_all g (rowsOf lt2)"
        using that all order_trans by blast
      then show ?thesis unfolding run using IH unfolding r(6, 7) ok(4) by blast
    qed
  qed
qed

section \<open>Billing\<close>

lemma usage_schema_simps [simp]:
  "getId usageSchema v = ru_ID v" "setId usageSchema i v = v\<lparr>ru_ID := i\<rparr>" "keysOf usageSchema v = [ru_Owner v]"
  by (simp_all add: usageSchema_def)

lemma state_schema_simps [simp]:
  "getId stateSchema v = st_ID v" "setId stateSchema i v = v\<lparr>st_ID := i\<rparr>" "keysOf stateSchema v = []"
  by (simp_all add: stateSchema_def)

lemma unat_ucast32: "unat (ucast (w :: u32) :: u64) = unat w"
proof -
  have "unat w < 2 ^ 32" using unsigned_less [of w, where ?'a = nat] by simp
  then have "unat w < 2 ^ 64" by simp
  then show ?thesis by (simp add: unsigned_ucast_eq take_bit_nat_eq_self_iff)
qed

lemma ucast_neq_0: "w \<noteq> 0 \<Longrightarrow> (ucast (w :: u32) :: u64) \<noteq> 0"
  using unat_ucast32 [of w] by (metis unat_eq_0)

lemma IntegerDivideCeil_total: "d \<noteq> 0 \<Longrightarrow> \<exists>q. IntegerDivideCeil n d = Inr q"
  by (simp add: IntegerDivideCeil_def udiv_def)

lemma Average_total: "\<exists>a. Average ema = Inr a"
  unfolding Average_def by (rule IntegerDivideCeil_total) (simp add: RateLimitingPrecision_def)

lemma MultiWithRatio_total: "d \<noteq> 0 \<Longrightarrow> \<exists>q. MultiWithRatio v (makeRatio n d) = Inr q"
  by (simp add: MultiWithRatio_def makeRatio_def udiv_def)

lemma Accumulator_Add_total:
  assumes "w \<noteq> 0"
  shows "\<exists>ema'. Accumulator_Add units ordinal w ema = Inr ema'"
proof -
  note nz = ucast_neq_0 [OF assms]
  obtain c where "IntegerDivideCeil (units * RateLimitingPrecision) (ucast w) = Inr c" using IntegerDivideCeil_total [OF nz] by blast
  moreover have "\<exists>q. MultiWithRatio v (makeRatio n (ucast w)) = Inr q" for v n by (rule MultiWithRatio_total [OF nz])
  then obtain m where "\<And>v n. MultiWithRatio v (makeRatio n (ucast w)) = Inr (m v n)" by metis
  moreover obtain av where "\<And>e. Average e = Inr (av e)" using Average_total by metis
  ultimately show ?thesis by (simp add: Accumulator_Add_def Let_def)
qed

text \<open>What a transaction makes of the usage of a billed account.\<close>

definition billed :: "ResourceLimitsConfigObject \<Rightarrow> u64 \<Rightarrow> u64 \<Rightarrow> u32 \<Rightarrow> ResourceUsageObject \<Rightarrow> ResourceUsageObject result" where
  "billed config cpu net timeSlot bu =
     rbind (Accumulator_Add cpu timeSlot (AccountCpuUsageAverageWindow config) (CpuUsage bu)) (\<lambda>c.
     rbind (Accumulator_Add net timeSlot (AccountNetUsageAverageWindow config) (NetUsage bu)) (\<lambda>n.
     Inr (bu\<lparr>CpuUsage := c, NetUsage := n\<rparr>)))"

definition cpu_fits :: "ResourceLimitsConfigObject \<Rightarrow> ResourceLimitsStateObject \<Rightarrow> i64 \<Rightarrow> ResourceUsageObject \<Rightarrow> bool" where
  "cpu_fits config state w u \<longleftrightarrow>
     (0 \<le> sint w \<and> TotalCpuWeight state \<noteq> 0 \<longrightarrow>
      abs128 (used_in_window (CpuUsage u) (AccountCpuUsageAverageWindow config)) \<le>
      abs128 (max_use_in_window (VirtualCpuLimit state) (AccountCpuUsageAverageWindow config) w (TotalCpuWeight state)))"

definition net_fits :: "ResourceLimitsConfigObject \<Rightarrow> ResourceLimitsStateObject \<Rightarrow> i64 \<Rightarrow> ResourceUsageObject \<Rightarrow> bool" where
  "net_fits config state w u \<longleftrightarrow>
     (0 \<le> sint w \<and> TotalNetWeight state \<noteq> 0 \<longrightarrow>
      abs128 (used_in_window (NetUsage u) (AccountNetUsageAverageWindow config)) \<le>
      abs128 (max_use_in_window (VirtualNetLimit state) (AccountNetUsageAverageWindow config) w (TotalNetWeight state)))"

lemma Compare_le: "Compare u v < 1 \<longleftrightarrow> abs128 u \<le> abs128 v"
  by (auto simp: Compare_abs)

lemma billed_total:
  assumes "AccountCpuUsageAverageWindow config \<noteq> 0" "AccountNetUsageAverageWindow config \<noteq> 0"
  obtains u' where "billed config cpu net slot u = Inr u'" "ru_ID u' = ru_ID u" "ru_Owner u' = ru_Owner u" "RamUsage u' = RamUsage u"
proof -
  obtain c n where "Accumulator_Add cpu slot (AccountCpuUsageAverageWindow config) (CpuUsage u) = Inr c"
      "Accumulator_Add net slot (AccountNetUsageAverageWindow config) (NetUsage u) = Inr n"
    using Accumulator_Add_total [OF assms(1)] Accumulator_Add_total [OF assms(2)] by meson
  then show ?thesis using that by (simp add: billed_def)
qed

lemma billed_keeps: "billed config cpu net slot u = Inr u' \<Longrightarrow> ru_ID u' = ru_ID u \<and> ru_Owner u' = ru_Owner u \<and> RamUsage u' = RamUsage u"
  by (auto simp: billed_def rbind_Inr_iff)

lemma usage_find:
  assumes "table_ok usageSchema ut"
  shows "find_key a ut = Some u \<longleftrightarrow> rowsOf ut (ru_ID u) = Some u \<and> ru_Owner u = a"
  using find_key_iff [OF table_okD(1) [OF assms], of a u] by auto

lemma usage_modify:
  assumes "table_ok usageSchema ut" "find_key a ut = Some u" "ru_ID w = ru_ID u" "ru_Owner w = ru_Owner u" "f u = w"
    "Modify usageSchema u f ut = (v, ut')"
  shows "table_ok usageSchema ut'" "find_key b ut' = (if b = a then Some w else find_key b ut)" "v = w"
proof -
  have u: "rowsOf ut (ru_ID u) = Some u" "ru_Owner u = a" using assms(2) usage_find [OF assms(1)] by simp_all
  show "table_ok usageSchema ut'" "v = w"
    using usage_schema.Modify_ok(1, 2) [OF assms(1) _ _ _ assms(6)] u assms(3-5) by simp_all
  show "find_key b ut' = (if b = a then Some w else find_key b ut)"
    using usage_schema.Modify_find [OF assms(1) _ _ _ assms(6), of b] u assms(3-5) by simp
qed

text \<open>The accounts a transaction may bill: both shares cover the usage with the transaction in it.\<close>

definition fits :: "ResourceLimitsConfigObject \<Rightarrow> ResourceLimitsStateObject \<Rightarrow> u64 \<Rightarrow> u64 \<Rightarrow> u32 \<Rightarrow> ResourceDb \<Rightarrow> eos_name \<Rightarrow> bool" where
  "fits config state cpu net slot r a =
     (case find_key a (usageTable r) of None \<Rightarrow> False
      | Some u \<Rightarrow> (case billed config cpu net slot u of Inl e \<Rightarrow> False
          | Inr u' \<Rightarrow> cpu_fits config state (snd (snd (GetAccountLimits a r))) u' \<and>
                      net_fits config state (fst (snd (GetAccountLimits a r))) u'))"



lemma AddTransactionUsage_step:
  assumes "table_ok usageSchema (usageTable r)" "find_key a (usageTable r) = Some u"
    "AccountCpuUsageAverageWindow config \<noteq> 0" "AccountNetUsageAverageWindow config \<noteq> 0"
  obtains u' ut where "billed config cpu net slot u = Inr u'" "table_ok usageSchema ut"
    "\<And>b. find_key b ut = (if b = a then Some u' else find_key b (usageTable r))"
    "fits config state cpu net slot r a \<Longrightarrow>
      AddTransactionUsage_loop config state cpu net slot (a # as) r = AddTransactionUsage_loop config state cpu net slot as (r\<lparr>usageTable := ut\<rparr>)"
    "\<not> fits config state cpu net slot r a \<Longrightarrow>
      \<exists>e\<in>{TxCpuUsageExceeded, TxNetUsageExceeded}. AddTransactionUsage_loop config state cpu net slot (a # as) r = Inl e"
proof -
  obtain u' where u': "billed config cpu net slot u = Inr u'" "ru_ID u' = ru_ID u" "ru_Owner u' = ru_Owner u"
    by (rule billed_total [OF assms(3, 4)])
  obtain ram nw cw where g: "GetAccountLimits a r = (ram, nw, cw)" using prod_cases3 by blast
  obtain v ut where m: "Modify usageSchema u (\<lambda>_. u') (usageTable r) = (v, ut)" by fastforce
  note M = usage_modify [OF assms(1, 2) u'(2, 3) refl m]
  have "AddTransactionUsage_loop config state cpu net slot (a # as) r =
      rbind (rbind (billed config cpu net slot u) (\<lambda>w. Inr (Modify usageSchema u (\<lambda>_. w) (usageTable r))))
        (\<lambda>(usage, ut). eos_assert (cpu_fits config state cw usage) TxCpuUsageExceeded
           (eos_assert (net_fits config state nw usage) TxNetUsageExceeded
             (AddTransactionUsage_loop config state cpu net slot as (r\<lparr>usageTable := ut\<rparr>))))"
    using assms(2) g
    by (simp only: AddTransactionUsage_loop.simps Let_def found_def option.case prod.case Modify_res_def billed_def
        cpu_fits_def net_fits_def Compare_le word_neq_0_conv)
  also have "\<dots> = eos_assert (cpu_fits config state cw u') TxCpuUsageExceeded
           (eos_assert (net_fits config state nw u') TxNetUsageExceeded
             (AddTransactionUsage_loop config state cpu net slot as (r\<lparr>usageTable := ut\<rparr>)))"
    using u'(1) m M(3) by simp
  finally have step: "AddTransactionUsage_loop config state cpu net slot (a # as) r = \<dots>" .
  have "fits config state cpu net slot r a \<longleftrightarrow> cpu_fits config state cw u' \<and> net_fits config state nw u'"
    using assms(2) u'(1) g by (simp add: fits_def)
  with step show ?thesis by (intro that [OF u'(1) M(1, 2)]) (auto simp: eos_assert_def)
qed



section \<open>Reachable states\<close>

lemma config_schema_simps [simp]:
  "getId configSchema v = cfg_ID v" "setId configSchema i v = v\<lparr>cfg_ID := i\<rparr>" "keysOf configSchema v = []"
  by (simp_all add: configSchema_def)

text \<open>The averaging window of an account: a day in half seconds.\<close>

definition config_ok :: "ResourceDb \<Rightarrow> bool" where
  "config_ok r \<longleftrightarrow> table_ok configSchema (configTable r) \<and> rowsOf (configTable r) 0 = Some (find_config r) \<and>
     Validate (CpuLimitParameters (find_config r)) = Inr () \<and> Validate (NetLimitParameters (find_config r)) = Inr () \<and>
     AccountCpuUsageAverageWindow (find_config r) = 172800 \<and> AccountNetUsageAverageWindow (find_config r) = 172800"

definition state_ok :: "ResourceDb \<Rightarrow> bool" where
  "state_ok r \<longleftrightarrow> table_ok stateSchema (stateTable r) \<and> rowsOf (stateTable r) 0 = Some (find_state r) \<and>
     totals_ok (find_state r) (rowsOf (limitsTable r))"

definition accounts_ok :: "ResourceDb \<Rightarrow> bool" where
  "accounts_ok r \<longleftrightarrow> limits_ok (limitsTable r) \<and> table_ok usageSchema (usageTable r) \<and>
     (\<forall>a. find_key a (usageTable r) = None \<longleftrightarrow> find_key (False, a) (limitsTable r) = None)"

definition resource_ok :: "ResourceDb \<Rightarrow> bool" where
  "resource_ok r \<longleftrightarrow> config_ok r \<and> state_ok r \<and> accounts_ok r"

text \<open>The accounts of the chain are those whose objects exist.\<close>

definition known :: "ResourceDb \<Rightarrow> eos_name \<Rightarrow> bool" where
  "known r a \<longleftrightarrow> find_key a (usageTable r) \<noteq> None"

inductive resource_reachable :: "ResourceDb \<Rightarrow> bool" where
  init: "resource_reachable (InitializeDatabase emptyResourceDb)"
| account: "resource_reachable (InitializeAccount a r)"
    if "resource_reachable r" "\<not> known r a" "tbl_nextId (limitsTable r) + 1 \<noteq> 0" "tbl_nextId (usageTable r) + 1 \<noteq> 0"
| parameters: "resource_reachable r'" if "resource_reachable r" "SetBlockParameters cpu net r = Inr r'"
| usage: "resource_reachable r'"
    if "resource_reachable r" "\<forall>a\<in>set as. known r a" "UpdateAccountUsage as slot r = Inr r'"
| transaction: "resource_reachable r'"
    if "resource_reachable r" "\<forall>a\<in>set as. known r a" "AddTransactionUsage as cpu_us net_us slot r = Inr r'"
| ram: "resource_reachable r'" if "resource_reachable r" "known r a" "AddPendingRamUsage a delta r = Inr r'"
| limits: "resource_reachable (snd (SetAccountLimits a ram_bytes net_weight cpu_weight r))"
    if "resource_reachable r" "known r a" "tbl_nextId (limitsTable r) + 1 \<noteq> 0"
| updates: "resource_reachable r'" if "resource_reachable r" "ProcessAccountLimitUpdates r = Inr r'"
| block: "resource_reachable r'" if "resource_reachable r" "ProcessBlockUsage num r = Inr r'"

lemma find_config_row: "rowsOf (configTable r) 0 = Some c \<Longrightarrow> find_config r = c"
  by (simp add: find_config_def found_def find_id_maps)

lemma find_state_row: "rowsOf (stateTable r) 0 = Some s \<Longrightarrow> find_state r = s"
  by (simp add: find_state_def found_def find_id_maps)

lemma config_ok_cong: "configTable r = configTable r' \<Longrightarrow> config_ok r = config_ok r'"
  by (simp add: config_ok_def find_config_def)

lemma state_ok_cong: "stateTable r = stateTable r' \<Longrightarrow> limitsTable r = limitsTable r' \<Longrightarrow> state_ok r = state_ok r'"
  by (simp add: state_ok_def find_state_def)

lemma accounts_ok_cong: "limitsTable r = limitsTable r' \<Longrightarrow> usageTable r = usageTable r' \<Longrightarrow> accounts_ok r = accounts_ok r'"
  by (simp add: accounts_ok_def)

lemmas resource_ok_congs = config_ok_cong state_ok_cong accounts_ok_cong

lemma config_ok_modify:
  assumes "config_ok r" "Validate cpu = Inr ()" "Validate net = Inr ()"
  shows "config_ok (r\<lparr>configTable := snd (Modify configSchema (find_config r)
    (\<lambda>c. c\<lparr>CpuLimitParameters := cpu, NetLimitParameters := net\<rparr>) (configTable r))\<rparr>)"
proof -
  let ?f = "\<lambda>c. c\<lparr>CpuLimitParameters := cpu, NetLimitParameters := net\<rparr>"
  let ?r = "r\<lparr>configTable := snd (Modify configSchema (find_config r) ?f (configTable r))\<rparr>"
  have c: "table_ok configSchema (configTable r)" "rowsOf (configTable r) 0 = Some (find_config r)" using assms(1) by (simp_all add: config_ok_def)
  have "cfg_ID (find_config r) = 0" using consistentD(1) [OF table_okD(1) [OF c(1)] c(2)] by simp
  note m = config_schema.Modify_row [OF c, of ?f, simplified, OF this]
  have "find_config ?r = ?f (find_config r)" by (rule find_config_row) (simp add: m)
  then show ?thesis using assms m by (simp add: config_ok_def)
qed

lemma state_ok_modify:
  assumes "state_ok r" "st_ID (f (find_state r)) = st_ID (find_state r)" "totals_ok (f (find_state r)) (rowsOf lt)"
  shows "state_ok (r\<lparr>limitsTable := lt, stateTable := snd (Modify stateSchema (find_state r) f (stateTable r))\<rparr>)"
    "find_state (r\<lparr>limitsTable := lt, stateTable := snd (Modify stateSchema (find_state r) f (stateTable r))\<rparr>) = f (find_state r)"
proof -
  let ?r = "r\<lparr>limitsTable := lt, stateTable := snd (Modify stateSchema (find_state r) f (stateTable r))\<rparr>"
  have c: "table_ok stateSchema (stateTable r)" "rowsOf (stateTable r) 0 = Some (find_state r)" using assms(1) by (simp_all add: state_ok_def)
  have "st_ID (f (find_state r)) = 0" using consistentD(1) [OF table_okD(1) [OF c(1)] c(2)] assms(2) by simp
  note m = state_schema.Modify_row [OF c, of f, simplified, OF this]
  show s: "find_state ?r = f (find_state r)" by (rule find_state_row) (simp add: m)
  show "state_ok ?r" using assms(3) m s by (simp add: state_ok_def)
qed

subsection \<open>Usage objects\<close>

definition same_accounts :: "ResourceDb \<Rightarrow> ResourceDb \<Rightarrow> bool" where
  "same_accounts r r' \<longleftrightarrow> (\<exists>ut. r' = r\<lparr>usageTable := ut\<rparr> \<and> table_ok usageSchema ut \<and>
     (\<forall>a. find_key a ut = None \<longleftrightarrow> find_key a (usageTable r) = None))"

lemma same_accounts_trans: "same_accounts r r' \<Longrightarrow> same_accounts r' r'' \<Longrightarrow> same_accounts r r''"
  by (force simp: same_accounts_def)

lemma same_accounts_refl: "table_ok usageSchema (usageTable r) \<Longrightarrow> same_accounts r r"
  by (auto simp: same_accounts_def intro: exI [of _ "usageTable r"])

lemma same_accounts_ok: "same_accounts r r' \<Longrightarrow> resource_ok r \<Longrightarrow> resource_ok r'"
  by (auto simp: same_accounts_def resource_ok_def accounts_ok_def
      cong: config_ok_cong state_ok_cong)

lemma same_accounts_known: "same_accounts r r' \<Longrightarrow> known r' a = known r a"
  unfolding same_accounts_def known_def by (elim exE conjE) (simp del: not_None_eq)

lemma same_accounts_table: "same_accounts r r' \<Longrightarrow> table_ok usageSchema (usageTable r')"
  by (auto simp: same_accounts_def)

lemma same_accounts_modify:
  assumes "table_ok usageSchema (usageTable r)" "find_key a (usageTable r) = Some u" "ru_ID (f u) = ru_ID u" "ru_Owner (f u) = ru_Owner u"
  shows "same_accounts r (r\<lparr>usageTable := snd (Modify usageSchema u f (usageTable r))\<rparr>)"
    "find_key b (snd (Modify usageSchema u f (usageTable r))) = (if b = a then Some (f u) else find_key b (usageTable r))"
proof -
  obtain v ut where m: "Modify usageSchema u f (usageTable r) = (v, ut)" by fastforce
  note M = usage_modify [OF assms(1, 2, 3, 4) refl m]
  show "same_accounts r (r\<lparr>usageTable := snd (Modify usageSchema u f (usageTable r))\<rparr>)"
    unfolding same_accounts_def using M(1, 2) assms(2) m by (intro exI [of _ ut]) auto
  show "find_key b (snd (Modify usageSchema u f (usageTable r))) = (if b = a then Some (f u) else find_key b (usageTable r))"
    using M(2) m by simp
qed

lemma AddTransactionUsage_loop_accounts:
  assumes "table_ok usageSchema (usageTable r)" "\<forall>a\<in>set as. known r a"
    "AccountCpuUsageAverageWindow config \<noteq> 0" "AccountNetUsageAverageWindow config \<noteq> 0"
    "AddTransactionUsage_loop config state cpu net slot as r = Inr r'"
  shows "same_accounts r r'"
  using assms(1, 2, 5)
proof (induction as arbitrary: r)
  case Nil
  then show ?case using same_accounts_refl by simp
next
  case (Cons a as)
  obtain u where u: "find_key a (usageTable r) = Some u" using Cons.prems(2) by (auto simp: known_def)
  obtain u' ut where s: "table_ok usageSchema ut" "\<And>b. find_key b ut = (if b = a then Some u' else find_key b (usageTable r))"
    "fits config state cpu net slot r a \<Longrightarrow>
      AddTransactionUsage_loop config state cpu net slot (a # as) r = AddTransactionUsage_loop config state cpu net slot as (r\<lparr>usageTable := ut\<rparr>)"
    "\<not> fits config state cpu net slot r a \<Longrightarrow>
      \<exists>e\<in>{TxCpuUsageExceeded, TxNetUsageExceeded}. AddTransactionUsage_loop config state cpu net slot (a # as) r = Inl e"
    by (rule AddTransactionUsage_step [OF Cons.prems(1) u assms(3, 4), where state = state and as = as and cpu = cpu and net = net and slot = slot]) blast
  have f: "fits config state cpu net slot r a" using s(4) Cons.prems(3) by auto
  have 1: "same_accounts r (r\<lparr>usageTable := ut\<rparr>)" unfolding same_accounts_def using s(1, 2) u by (intro exI [of _ ut]) auto
  have "same_accounts (r\<lparr>usageTable := ut\<rparr>) r'"
    by (rule Cons.IH) (use s(1) Cons.prems(2, 3) same_accounts_known [OF 1] s(3) [OF f] in simp_all)
  then show ?case by (rule same_accounts_trans [OF 1])
qed

lemma UpdateAccountUsage_loop_accounts:
  assumes "table_ok usageSchema (usageTable r)" "\<forall>a\<in>set as. known r a"
    "UpdateAccountUsage_loop config slot as usage r = Inr r'"
  shows "same_accounts r r'"
  using assms
proof (induction as arbitrary: r usage)
  case Nil
  then show ?case using same_accounts_refl by simp
next
  case (Cons a as)
  obtain u where u: "find_key a (usageTable r) = Some u" using Cons.prems(2) by (auto simp: known_def)
  obtain n c where "Accumulator_Add 0 slot (AccountNetUsageAverageWindow config) (NetUsage u) = Inr n"
      "Accumulator_Add 0 slot (AccountCpuUsageAverageWindow config) (CpuUsage u) = Inr c"
    and rest: "UpdateAccountUsage_loop config slot as (fst (Modify usageSchema u (\<lambda>_. u\<lparr>NetUsage := n, CpuUsage := c\<rparr>) (usageTable r)))
      (r\<lparr>usageTable := snd (Modify usageSchema u (\<lambda>_. u\<lparr>NetUsage := n, CpuUsage := c\<rparr>) (usageTable r))\<rparr>) = Inr r'"
    using Cons.prems(3) u
    by (auto simp: found_def Let_def Modify_res_def rbind_Inr_iff split: prod.splits)
  let ?r = "r\<lparr>usageTable := snd (Modify usageSchema u (\<lambda>_. u\<lparr>NetUsage := n, CpuUsage := c\<rparr>) (usageTable r))\<rparr>"
  have 1: "same_accounts r ?r" by (rule same_accounts_modify(1) [OF Cons.prems(1) u]) simp_all
  have "same_accounts ?r r'"
    by (rule Cons.IH [OF _ _ rest]) (use same_accounts_table [OF 1] same_accounts_known [OF 1] Cons.prems(2) in simp_all)
  then show ?case by (rule same_accounts_trans [OF 1])
qed

subsection \<open>Limits\<close>

lemma limits_insert:
  assumes "limits_ok lt" "find_key (rl_Pending v, rl_Owner v) lt = None" "rl_Pending v \<Longrightarrow> find_key (False, rl_Owner v) lt \<noteq> None"
    "tbl_nextId lt + 1 \<noteq> 0" "Insert limitsSchema v lt = (v', lt')"
  shows "limits_ok lt'" "find_key k lt' = (if k = (rl_Pending v, rl_Owner v) then Some v' else find_key k lt)"
    "sum_weights g (rowsOf lt') = sum_weights g (rowsOf lt) + weight g v'" "v' = v\<lparr>rl_ID := tbl_nextId lt\<rparr>"
proof -
  have t: "table_ok limitsSchema lt" using assms(1) by (simp add: limits_ok_def)
  have free: "\<forall>k\<in>set (keysOf limitsSchema v). idsOf lt k = None" using assms(2) idsOf_find [OF table_okD(1) [OF t]] by simp
  note ok = limits_schema.Insert_ok [OF t free assms(4, 5)]
  show v': "v' = v\<lparr>rl_ID := tbl_nextId lt\<rparr>" using ok(2) by simp
  have f: "find_key k lt' = (if k = (rl_Pending v, rl_Owner v) then Some v' else find_key k lt)" for k
    using limits_schema.Insert_find [OF t _ assms(4, 5), of k] assms(2) by simp
  then show "find_key k lt' = (if k = (rl_Pending v, rl_Owner v) then Some v' else find_key k lt)" .
  show "limits_ok lt'" using assms(1, 3) ok(1) f by (auto simp: limits_ok_def)
  show "sum_weights g (rowsOf lt') = sum_weights g (rowsOf lt) + weight g v'"
    unfolding ok(3) by (rule sum_rows_upd(1) [OF finite_rows ok(5)])
qed

lemma limits_modify_pending:
  assumes "limits_ok lt" "find_key (True, a) lt = Some l" "rl_ID (f l) = rl_ID l" "rl_Pending (f l) = rl_Pending l" "rl_Owner (f l) = rl_Owner l"
  shows "limits_ok (snd (Modify limitsSchema l f lt))"
    "find_key k (snd (Modify limitsSchema l f lt)) = (if k = (True, a) then Some (f l) else find_key k lt)"
    "sum_weights g (rowsOf (snd (Modify limitsSchema l f lt))) = sum_weights g (rowsOf lt)"
proof -
  have t: "table_ok limitsSchema lt" using assms(1) by (simp add: limits_ok_def)
  have l: "rowsOf lt (rl_ID l) = Some l" "rl_Pending l" "rl_Owner l = a" using assms(2) limits_find [OF t, of True a l] by simp_all
  obtain v lt' where m: "Modify limitsSchema l f lt = (v, lt')" by fastforce
  have M: "table_ok limitsSchema lt'" "rowsOf lt' = (rowsOf lt)(rl_ID l \<mapsto> f l)"
    using limits_schema.Modify_ok(1, 3) [OF t _ _ _ m] l(1) assms(3-5) by simp_all
  have f: "find_key k lt' = (if k = (True, a) then Some (f l) else find_key k lt)" for k
    using limits_schema.Modify_find [OF t _ _ _ m, of k] l assms(3-5) by simp
  then show "find_key k (snd (Modify limitsSchema l f lt)) = (if k = (True, a) then Some (f l) else find_key k lt)" using m by simp
  show "limits_ok (snd (Modify limitsSchema l f lt))" using assms(1, 2) M(1) f m by (auto simp: limits_ok_def)
  show "sum_weights g (rowsOf (snd (Modify limitsSchema l f lt))) = sum_weights g (rowsOf lt)"
    using sum_rows_upd(2) [OF finite_rows l(1), of "weight g" "f l"] M(2) m l(2) assms(4) by (simp add: weight_def)
qed

lemma totals_ok_cong: "(\<And>g. sum_weights g m = sum_weights g m') \<Longrightarrow> totals_ok s m = totals_ok s m'"
  by (simp add: totals_ok_def)

lemma findOrCreatePendingLimits_spec:
  assumes "limits_ok (limitsTable r)" "find_key (False, a) (limitsTable r) = Some e" "tbl_nextId (limitsTable r) + 1 \<noteq> 0"
  obtains l lt where "findOrCreatePendingLimits a r = (l, r\<lparr>limitsTable := lt\<rparr>)" "limits_ok lt" "find_key (True, a) lt = Some l"
    "\<And>k. k \<noteq> (True, a) \<Longrightarrow> find_key k lt = find_key k (limitsTable r)" "\<And>g. sum_weights g (rowsOf lt) = sum_weights g (rowsOf (limitsTable r))"
    "(RamBytes l, NetWeight l, CpuWeight l) = GetAccountLimits a r"
proof (cases "find_key (True, a) (limitsTable r)")
  case (Some l)
  then show ?thesis using assms(1)
    by (intro that [of l "limitsTable r"]) (simp_all add: findOrCreatePendingLimits_def GetAccountLimits_def)
next
  case None
  have e: "rl_Owner e = a" using assms(1, 2) limits_find [of "limitsTable r" False a e] by (simp add: limits_ok_def)
  let ?p = "(limitsObject True a)\<lparr>rl_Owner := rl_Owner e, RamBytes := RamBytes e, NetWeight := NetWeight e, CpuWeight := CpuWeight e, rl_Pending := True\<rparr>"
  obtain l lt where i: "Insert limitsSchema ?p (limitsTable r) = (l, lt)" by fastforce
  note L = limits_insert [OF assms(1) _ _ assms(3) i, simplified e limitsObject_def, simplified, OF None]
  have l: "l = ?p\<lparr>rl_ID := tbl_nextId (limitsTable r)\<rparr>" using L(4) assms(2) e by (simp add: limitsObject_def)
  have w: "weight g l = 0" for g unfolding l by (simp add: weight_def)
  show ?thesis
  proof (rule that [of l lt])
    show "findOrCreatePendingLimits a r = (l, r\<lparr>limitsTable := lt\<rparr>)"
      using None assms(2) i by (simp add: findOrCreatePendingLimits_def found_def)
    show "(RamBytes l, NetWeight l, CpuWeight l) = GetAccountLimits a r"
      using None assms(2) l by (simp add: GetAccountLimits_def found_def)
  qed (use L w assms(2) in auto)
qed

text \<open>What an account is given, whether or not an update is pending already.\<close>

lemma SetAccountLimits_spec:
  assumes "limits_ok (limitsTable r)" "find_key (False, a) (limitsTable r) = Some e" "tbl_nextId (limitsTable r) + 1 \<noteq> 0"
  obtains lt where "SetAccountLimits a ram net cpu r =
      (let (old, unused) = GetAccountLimits a r in sint ram \<ge> 0 \<and> (sint old < 0 \<or> sint ram < sint old), r\<lparr>limitsTable := lt\<rparr>)"
    "limits_ok lt" "find_key (True, a) lt \<noteq> None" "\<And>k. k \<noteq> (True, a) \<Longrightarrow> find_key k lt = find_key k (limitsTable r)"
    "\<And>g. sum_weights g (rowsOf lt) = sum_weights g (rowsOf (limitsTable r))" "account_limits lt a = (ram, net, cpu)"
proof -
  obtain l lt where p: "findOrCreatePendingLimits a r = (l, r\<lparr>limitsTable := lt\<rparr>)" "limits_ok lt" "find_key (True, a) lt = Some l"
    "\<And>k. k \<noteq> (True, a) \<Longrightarrow> find_key k lt = find_key k (limitsTable r)" "\<And>g. sum_weights g (rowsOf lt) = sum_weights g (rowsOf (limitsTable r))"
    "(RamBytes l, NetWeight l, CpuWeight l) = GetAccountLimits a r"
    by (rule findOrCreatePendingLimits_spec [OF assms]) blast
  let ?f = "\<lambda>p. p\<lparr>RamBytes := ram, NetWeight := net, CpuWeight := cpu\<rparr>"
  note m = limits_modify_pending [OF p(2, 3), of ?f, simplified]
  have s: "SetAccountLimits a ram net cpu r = (let (old, unused) = GetAccountLimits a r in sint ram \<ge> 0 \<and> (sint old < 0 \<or> sint ram < sint old),
      r\<lparr>limitsTable := snd (Modify limitsSchema l ?f lt)\<rparr>)"
    using p(1) unfolding p(6) [symmetric] by (simp add: SetAccountLimits_def split: prod.split)
  have "account_limits (snd (Modify limitsSchema l ?f lt)) a = (ram, net, cpu)"
    using account_limits_cases(1) [of a "snd (Modify limitsSchema l ?f lt)" "?f l"] m(2) by simp
  with s show ?thesis by (intro that) (use m p(4, 5) in auto)
qed

subsection \<open>The invariant\<close>

lemma table_ok_empty: "table_ok S emptyTable" "rowsOf emptyTable = Map.empty" "idsOf emptyTable k = None" "find_key k emptyTable = None" "tbl_nextId emptyTable = 0"
  by (simp_all add: table_ok_def consistent_def rowsOf_def idsOf_def find_key_def emptyTable_def)

lemma resource_ok_init: "resource_ok (InitializeDatabase emptyResourceDb)"
proof -
  let ?s = "DefaultResourceLimitsStateObject\<lparr>VirtualCpuLimit := MaxLimit (CpuLimitParameters NewResourceLimitsConfigObject),
    VirtualNetLimit := MaxLimit (NetLimitParameters NewResourceLimitsConfigObject)\<rparr>"
  obtain c ct where i: "Insert configSchema NewResourceLimitsConfigObject emptyTable = (c, ct)" by fastforce
  obtain s st where j: "Insert stateSchema ?s emptyTable = (s, st)" by fastforce
  have C: "table_ok configSchema ct" "c = NewResourceLimitsConfigObject\<lparr>cfg_ID := 0\<rparr>" "rowsOf ct 0 = Some c"
    using config_schema.Insert_ok(1-3) [OF table_ok_empty(1) _ _ i] by (simp_all add: table_ok_empty)
  have S: "table_ok stateSchema st" "s = ?s\<lparr>st_ID := 0\<rparr>" "rowsOf st 0 = Some s"
    using state_schema.Insert_ok(1-3) [OF table_ok_empty(1) _ _ j] by (simp_all add: table_ok_empty)
  let ?r = "emptyResourceDb\<lparr>configTable := ct, stateTable := st\<rparr>"
  have r: "InitializeDatabase emptyResourceDb = ?r"
    using i j C(2) by (simp add: InitializeDatabase_def emptyResourceDb_def)
  have "find_config ?r = c" "find_state ?r = s" using C(3) S(3) by (simp_all add: find_config_row find_state_row)
  then show ?thesis
    unfolding r resource_ok_def config_ok_def state_ok_def accounts_ok_def limits_ok_def
    using C S
    by (simp add: emptyResourceDb_def table_ok_empty totals_ok_def sum_rows_def NewResourceLimitsConfigObject_def Validate_def
        makeRatio_def DefaultResourceLimitsStateObject_def)
qed

lemma resource_ok_account:
  assumes "resource_ok r" "\<not> known r a" "tbl_nextId (limitsTable r) + 1 \<noteq> 0" "tbl_nextId (usageTable r) + 1 \<noteq> 0"
  shows "resource_ok (InitializeAccount a r)"
proof -
  have ok: "limits_ok (limitsTable r)" "table_ok usageSchema (usageTable r)" "find_key a (usageTable r) = None" "find_key (False, a) (limitsTable r) = None"
    using assms(1, 2) by (simp_all add: resource_ok_def accounts_ok_def known_def)
  obtain l lt where i: "Insert limitsSchema (NewResourceLimitsObject\<lparr>rl_Owner := a\<rparr>) (limitsTable r) = (l, lt)" by fastforce
  obtain u ut where j: "Insert usageSchema (usageObject a) (usageTable r) = (u, ut)" by fastforce
  note L = limits_insert [OF ok(1) _ _ assms(3) i, simplified NewResourceLimitsObject_def, simplified, OF ok(4)]
  have w: "sum_weights g (rowsOf lt) = sum_weights g (rowsOf (limitsTable r))" if "g \<in> {RamBytes, CpuWeight, NetWeight}" for g
    using that L(3, 4) by (auto simp: weight_def)
  have "\<forall>k\<in>set (keysOf usageSchema (usageObject a)). find_key k (usageTable r) = None" using ok(3) by (simp add: usageObject_def)
  note U = usage_schema.Insert_find [OF ok(2) this assms(4) j]
  have "table_ok usageSchema ut"
    by (rule usage_schema.Insert_ok(1) [OF ok(2) _ assms(4) j]) (use ok(3) idsOf_find [OF table_okD(1) [OF ok(2)]] in \<open>simp add: usageObject_def\<close>)
  moreover have "find_key b ut = None \<longleftrightarrow> find_key (False, b) lt = None" for b
    using U [of b] L(2) [of "(False, b)"] assms(1) by (simp add: usageObject_def resource_ok_def accounts_ok_def)
  moreover have "InitializeAccount a r = r\<lparr>limitsTable := lt, usageTable := ut\<rparr>"
    using i j by (simp add: InitializeAccount_def)
  moreover have "find_state (r\<lparr>limitsTable := lt, usageTable := ut\<rparr>) = find_state r" "config_ok (r\<lparr>limitsTable := lt, usageTable := ut\<rparr>) = config_ok r"
    by (simp_all add: find_state_def cong: config_ok_cong)
  ultimately show ?thesis using assms(1) L(1) w by (simp add: resource_ok_def accounts_ok_def state_ok_def totals_ok_def)
qed

lemma resource_ok_parameters:
  assumes "resource_ok r" "SetBlockParameters cpu net r = Inr r'"
  shows "resource_ok r'"
proof -
  have v: "Validate cpu = Inr ()" "Validate net = Inr ()" and r': "r' = r\<lparr>configTable := snd (Modify configSchema (find_config r)
      (\<lambda>c. c\<lparr>CpuLimitParameters := cpu, NetLimitParameters := net\<rparr>) (configTable r))\<rparr>"
    using assms(2) by (auto simp: SetBlockParameters_def rbind_Inr_iff)
  show ?thesis unfolding r' using assms(1) config_ok_modify [OF _ v, of r]
    by (simp add: resource_ok_def cong: state_ok_cong accounts_ok_cong)
qed

lemma resource_ok_state:
  assumes "resource_ok r" "st_ID (f (find_state r)) = st_ID (find_state r)" "totals_ok (f (find_state r)) (rowsOf (limitsTable r))"
  shows "resource_ok (r\<lparr>stateTable := snd (Modify stateSchema (find_state r) f (stateTable r))\<rparr>)"
    "find_state (r\<lparr>stateTable := snd (Modify stateSchema (find_state r) f (stateTable r))\<rparr>) = f (find_state r)"
proof -
  have "state_ok r" using assms(1) by (simp add: resource_ok_def)
  from state_ok_modify [where f = f, OF this assms(2, 3)]
  show "resource_ok (r\<lparr>stateTable := snd (Modify stateSchema (find_state r) f (stateTable r))\<rparr>)"
    "find_state (r\<lparr>stateTable := snd (Modify stateSchema (find_state r) f (stateTable r))\<rparr>) = f (find_state r)"
    using assms(1) by (simp_all add: resource_ok_def cong: config_ok_cong accounts_ok_cong)
qed

lemma totals_ok_pending:
  "totals_ok (s\<lparr>PendingCpuUsage := x, PendingNetUsage := y\<rparr>) m = totals_ok s m"
  by (simp add: totals_ok_def)

lemma resource_okD:
  assumes "resource_ok r"
  shows "table_ok usageSchema (usageTable r)" "totals_ok (find_state r) (rowsOf (limitsTable r))" "limits_ok (limitsTable r)"
    "AccountCpuUsageAverageWindow (find_config r) = 172800" "AccountNetUsageAverageWindow (find_config r) = 172800"
    "find_key a (usageTable r) = None \<longleftrightarrow> find_key (False, a) (limitsTable r) = None"
  using assms by (simp_all add: resource_ok_def accounts_ok_def state_ok_def config_ok_def)

lemma same_accounts_tables:
  assumes "same_accounts r r'"
  shows "find_state r' = find_state r" "find_config r' = find_config r" "stateTable r' = stateTable r" "configTable r' = configTable r"
    "limitsTable r' = limitsTable r"
  using assms by (auto simp: same_accounts_def find_state_def find_config_def)

text \<open>The part of billing behind the loop.\<close>

lemma AddTransactionUsage_pending:
  assumes "resource_ok r" "AddTransactionUsage_loop (find_config r) (find_state r) cpu net slot as r = Inr r1" "same_accounts r r1"
  defines "s \<equiv> (find_state r)\<lparr>PendingCpuUsage := PendingCpuUsage (find_state r) + cpu, PendingNetUsage := PendingNetUsage (find_state r) + net\<rparr>"
  obtains r2 where "resource_ok r2" "find_state r2 = s" "r2 = r1\<lparr>stateTable := stateTable r2\<rparr>"
    "AddTransactionUsage as cpu net slot r =
      (if PendingCpuUsage s \<le> MaxLimit (CpuLimitParameters (find_config r)) \<and> PendingNetUsage s \<le> MaxLimit (NetLimitParameters (find_config r))
       then Inr r2 else Inl BlockResourceExhausted)"
proof -
  let ?f = "\<lambda>s. s\<lparr>PendingCpuUsage := PendingCpuUsage s + cpu, PendingNetUsage := PendingNetUsage s + net\<rparr>"
  let ?r2 = "r1\<lparr>stateTable := snd (Modify stateSchema (find_state r1) ?f (stateTable r1))\<rparr>"
  have r1: "resource_ok r1" by (rule same_accounts_ok [OF assms(3, 1)])
  note t = same_accounts_tables [OF assms(3)]
  have 2: "resource_ok ?r2" "find_state ?r2 = ?f (find_state r1)"
    using resource_ok_state [where f = ?f, OF r1] resource_okD(2) [OF r1] by (simp_all add: totals_ok_pending)
  obtain st where m: "Modify stateSchema (find_state r) ?f (stateTable r1) = (s, st)" by (simp add: Modify_def Let_def s_def)
  show ?thesis
  proof (rule that [OF 2(1)])
    show "AddTransactionUsage as cpu net slot r =
      (if PendingCpuUsage s \<le> MaxLimit (CpuLimitParameters (find_config r)) \<and> PendingNetUsage s \<le> MaxLimit (NetLimitParameters (find_config r))
       then Inr ?r2 else Inl BlockResourceExhausted)"
      using assms(2) m t(1) by (simp add: AddTransactionUsage_def Let_def eos_assert_def)
  qed (use 2(2) t(1) in \<open>simp_all add: s_def\<close>)
qed

lemma resource_ok_transaction:
  assumes "resource_ok r" "\<forall>a\<in>set as. known r a" "AddTransactionUsage as cpu net slot r = Inr r'"
  shows "resource_ok r'"
proof -
  obtain r1 where l: "AddTransactionUsage_loop (find_config r) (find_state r) cpu net slot as r = Inr r1"
    using assms(3) by (auto simp: AddTransactionUsage_def Let_def rbind_Inr_iff)
  have "same_accounts r r1"
    by (rule AddTransactionUsage_loop_accounts [OF _ assms(2) _ _ l]) (use resource_okD [OF assms(1)] in simp_all)
  then obtain r2 where "resource_ok r2" "AddTransactionUsage as cpu net slot r \<in> {Inr r2, Inl BlockResourceExhausted}"
    using AddTransactionUsage_pending [OF assms(1) l] by (metis insertCI)
  then show ?thesis using assms(3) by simp
qed

lemma resource_ok_usage:
  assumes "resource_ok r" "\<forall>a\<in>set as. known r a" "UpdateAccountUsage as slot r = Inr r'"
  shows "resource_ok r'"
  by (rule same_accounts_ok [OF UpdateAccountUsage_loop_accounts [OF resource_okD(1) [OF assms(1)] assms(2)
        assms(3) [unfolded UpdateAccountUsage_def]] assms(1)])

lemma AddPendingRamUsage_accounts:
  assumes "table_ok usageSchema (usageTable r)" "known r a" "AddPendingRamUsage a delta r = Inr r'"
  shows "same_accounts r r'"
proof -
  obtain u where u: "find_key a (usageTable r) = Some u" using assms(2) by (auto simp: known_def)
  show ?thesis
    using assms(3) u same_accounts_refl [OF assms(1)] same_accounts_modify(1) [OF assms(1) u, of "\<lambda>u. u\<lparr>RamUsage := RamUsage u + delta\<rparr>"]
    by (auto simp: AddPendingRamUsage_def found_def Let_def eos_assert_def split: if_splits)
qed

lemma resource_ok_limits:
  assumes "resource_ok r" "known r a" "tbl_nextId (limitsTable r) + 1 \<noteq> 0"
  shows "resource_ok (snd (SetAccountLimits a ram net cpu r))"
proof -
  obtain e where e: "find_key (False, a) (limitsTable r) = Some e" using assms(1, 2) resource_okD(6) [OF assms(1), of a] by (auto simp: known_def)
  obtain lt where s: "snd (SetAccountLimits a ram net cpu r) = r\<lparr>limitsTable := lt\<rparr>" "limits_ok lt"
    "\<And>k. k \<noteq> (True, a) \<Longrightarrow> find_key k lt = find_key k (limitsTable r)" "\<And>g. sum_weights g (rowsOf lt) = sum_weights g (rowsOf (limitsTable r))"
    by (rule SetAccountLimits_spec [OF resource_okD(3) [OF assms(1)] e assms(3), where ram = ram and net = net and cpu = cpu]) simp
  have "find_state (r\<lparr>limitsTable := lt\<rparr>) = find_state r" by (simp add: find_state_def)
  then show ?thesis unfolding s(1) using assms(1) s(2, 3, 4)
    by (simp add: resource_ok_def accounts_ok_def state_ok_def totals_ok_def cong: config_ok_cong)
qed

lemma without_totals_ID: "without_totals s = without_totals s' \<Longrightarrow> st_ID s = st_ID s'"
  by (drule arg_cong [of _ _ st_ID]) (simp add: without_totals_def)

text \<open>Processing the updates ends, and only a sum that does not fit makes it fail.\<close>

lemma ProcessAccountLimitUpdates_spec:
  assumes "resource_ok r"
  shows "(\<exists>r'. ProcessAccountLimitUpdates r = Inr r' \<and> resource_ok r' \<and> pending_accounts (limitsTable r') = {} \<and>
      account_limits (limitsTable r') = account_limits (limitsTable r) \<and> usageTable r' = usageTable r \<and> configTable r' = configTable r \<and>
      without_totals (find_state r') = without_totals (find_state r)) \<or>
    ProcessAccountLimitUpdates r = Inl RateLimitingStateInconsistent \<and>
      (\<exists>g\<in>{RamBytes, CpuWeight, NetWeight}. 2 ^ 64 \<le> sum_all g (rowsOf (limitsTable r)))"
  using ProcessLimits_loop_spec [OF resource_okD(3) [OF assms] resource_okD(2) [OF assms], of "limitsObject False 0"]
proof (elim disjE exE conjE)
  fix rso lt
  assume l: "ProcessLimits_loop (limitsObject False 0) (find_state r) (limitsTable r) = Some (Inr (rso, lt))" "limits_ok lt"
    "totals_ok rso (rowsOf lt)" "pending_accounts lt = {}" "account_limits lt = account_limits (limitsTable r)"
    "without_totals rso = without_totals (find_state r)" "limited_accounts lt = limited_accounts (limitsTable r)"
  let ?r = "r\<lparr>limitsTable := lt, stateTable := snd (Modify stateSchema (find_state r) (\<lambda>_. rso) (stateTable r))\<rparr>"
  have p: "ProcessAccountLimitUpdates r = Inr ?r" using l(1) by (simp add: ProcessAccountLimitUpdates_def Let_def)
  have s: "state_ok ?r" "find_state ?r = rso"
    using state_ok_modify [where f = "\<lambda>_. rso", of r lt] assms l(3) without_totals_ID [OF l(6)] by (simp_all add: resource_ok_def)
  have "find_key (False, a) lt = None \<longleftrightarrow> find_key (False, a) (limitsTable r) = None" for a
    using l(7) unfolding limited_accounts_def by blast
  then have "resource_ok ?r" using assms s(1) l(2) by (simp add: resource_ok_def accounts_ok_def cong: config_ok_cong)
  then show ?thesis using p l(4-6) s(2) by (intro disjI1 exI [of _ ?r]) simp
next
  assume "ProcessLimits_loop (limitsObject False 0) (find_state r) (limitsTable r) = Some (Inl RateLimitingStateInconsistent)"
  moreover assume "\<exists>g\<in>{RamBytes, CpuWeight, NetWeight}. 2 ^ 64 \<le> sum_all g (rowsOf (limitsTable r))"
  ultimately show ?thesis by (simp add: ProcessAccountLimitUpdates_def Let_def)
qed

lemma Validate_iff: "Validate e = Inr () \<longleftrightarrow> Periods e \<noteq> 0 \<and> Denominator (ContractRate e) \<noteq> 0 \<and> Denominator (ExpandRate e) \<noteq> 0"
  by (simp add: Validate_def eos_assert_def word_neq_0_conv)

lemma UpdateElasticLimit_total:
  assumes "Validate e = Inr ()"
  shows "\<exists>v. UpdateElasticLimit x a e = Inr v \<and> v \<le> MaxLimit e * ucast (MaxMultiplier e) \<and>
    (MaxLimit e \<le> MaxLimit e * ucast (MaxMultiplier e) \<longrightarrow> MaxLimit e \<le> v)"
  using assms by (auto simp: Validate_iff UpdateElasticLimit_def udiv_def)

text \<open>The end of a block: no division by zero, the pending usage is consumed and the elastic limits stay in their range.\<close>

definition in_range :: "u64 \<Rightarrow> ElasticLimitParameters \<Rightarrow> bool" where
  "in_range v e \<longleftrightarrow> v \<le> MaxLimit e * ucast (MaxMultiplier e) \<and>
     (MaxLimit e \<le> MaxLimit e * ucast (MaxMultiplier e) \<longrightarrow> MaxLimit e \<le> v)"

lemma UpdateVirtualCpuLimit_total:
  assumes "Validate (CpuLimitParameters c) = Inr ()"
  shows "\<exists>v. UpdateVirtualCpuLimit c s = Inr (s\<lparr>VirtualCpuLimit := v\<rparr>) \<and> in_range v (CpuLimitParameters c)"
proof -
  obtain a where "Average (AverageBlockCpuUsage s) = Inr a" using Average_total by blast
  then show ?thesis using UpdateElasticLimit_total [OF assms, of "VirtualCpuLimit s" a] by (auto simp: UpdateVirtualCpuLimit_def in_range_def)
qed

lemma UpdateVirtualNetLimit_total:
  assumes "Validate (NetLimitParameters c) = Inr ()"
  shows "\<exists>v. UpdateVirtualNetLimit c s = Inr (s\<lparr>VirtualNetLimit := v\<rparr>) \<and> in_range v (NetLimitParameters c)"
proof -
  obtain a where "Average (AverageBlockNetUsage s) = Inr a" using Average_total by blast
  then show ?thesis using UpdateElasticLimit_total [OF assms, of "VirtualNetLimit s" a] by (auto simp: UpdateVirtualNetLimit_def in_range_def)
qed

lemma ProcessBlockUsage_spec:
  assumes "resource_ok r"
  obtains c n vc vn r' where
    "Accumulator_Add (PendingCpuUsage (find_state r)) num (Periods (CpuLimitParameters (find_config r))) (AverageBlockCpuUsage (find_state r)) = Inr c"
    "Accumulator_Add (PendingNetUsage (find_state r)) num (Periods (NetLimitParameters (find_config r))) (AverageBlockNetUsage (find_state r)) = Inr n"
    "in_range vc (CpuLimitParameters (find_config r))" "in_range vn (NetLimitParameters (find_config r))"
    "find_state r' = (find_state r)\<lparr>AverageBlockCpuUsage := c, VirtualCpuLimit := vc, PendingCpuUsage := 0,
       AverageBlockNetUsage := n, VirtualNetLimit := vn, PendingNetUsage := 0\<rparr>"
    "ProcessBlockUsage num r = Inr r'" "resource_ok r'" "r' = r\<lparr>stateTable := stateTable r'\<rparr>"
proof -
  let ?s = "find_state r" and ?c = "find_config r"
  have v: "Validate (CpuLimitParameters ?c) = Inr ()" "Validate (NetLimitParameters ?c) = Inr ()"
    using assms by (simp_all add: resource_ok_def config_ok_def)
  obtain c n where a: "Accumulator_Add (PendingCpuUsage ?s) num (Periods (CpuLimitParameters ?c)) (AverageBlockCpuUsage ?s) = Inr c"
      "Accumulator_Add (PendingNetUsage ?s) num (Periods (NetLimitParameters ?c)) (AverageBlockNetUsage ?s) = Inr n"
    using v Accumulator_Add_total by (meson Validate_iff)
  obtain vc where vc: "UpdateVirtualCpuLimit ?c (?s\<lparr>AverageBlockCpuUsage := c\<rparr>) = Inr (?s\<lparr>AverageBlockCpuUsage := c, VirtualCpuLimit := vc\<rparr>)"
      "in_range vc (CpuLimitParameters ?c)"
    using UpdateVirtualCpuLimit_total [OF v(1)] by blast
  let ?s1 = "?s\<lparr>AverageBlockCpuUsage := c, VirtualCpuLimit := vc, PendingCpuUsage := 0, AverageBlockNetUsage := n\<rparr>"
  obtain vn where vn: "UpdateVirtualNetLimit ?c ?s1 = Inr (?s1\<lparr>VirtualNetLimit := vn\<rparr>)" "in_range vn (NetLimitParameters ?c)"
    using UpdateVirtualNetLimit_total [OF v(2)] by blast
  let ?s2 = "?s1\<lparr>VirtualNetLimit := vn, PendingNetUsage := 0\<rparr>"
  let ?r = "r\<lparr>stateTable := snd (Modify stateSchema ?s (\<lambda>_. ?s2) (stateTable r))\<rparr>"
  have "ProcessBlockUsage num r = Inr ?r"
    using a vc(1) vn(1) by (simp add: ProcessBlockUsage_def Let_def Modify_res_def split: prod.split)
  moreover have "resource_ok ?r" "find_state ?r = ?s2"
    using resource_ok_state [where f = "\<lambda>_. ?s2", OF assms] resource_okD(2) [OF assms] by (simp_all add: totals_ok_def)
  ultimately show ?thesis using that [OF a vc(2) vn(2), of ?r] by simp
qed

lemma resource_reachable_ok: "resource_reachable r \<Longrightarrow> resource_ok r"
proof (induction rule: resource_reachable.induct)
  case init
  show ?case by (rule resource_ok_init)
next
  case (account r a)
  show ?case by (rule resource_ok_account [OF account.IH account.hyps(2-4)])
next
  case (parameters r cpu net r')
  show ?case by (rule resource_ok_parameters [OF parameters.IH parameters.hyps(2)])
next
  case (usage r as slot r')
  show ?case by (rule resource_ok_usage [OF usage.IH usage.hyps(2, 3)])
next
  case (transaction r as cpu_us net_us slot r')
  show ?case by (rule resource_ok_transaction [OF transaction.IH transaction.hyps(2, 3)])
next
  case (ram r a delta r')
  show ?case by (rule same_accounts_ok [OF AddPendingRamUsage_accounts [OF resource_okD(1) [OF ram.IH] ram.hyps(2, 3)] ram.IH])
next
  case (limits r a ram_bytes net_weight cpu_weight)
  show ?case by (rule resource_ok_limits [OF limits.IH limits.hyps(2, 3)])
next
  case (updates r r')
  then show ?case using ProcessAccountLimitUpdates_spec [of r] by auto
next
  case (block r num r')
  show ?case by (rule ProcessBlockUsage_spec [OF block.IH, of num]) (use block.hyps(2) in simp)
qed

section \<open>Shares\<close>

lemma abs128_low: "unat (abs128 (mk128 a 0)) = unat a"
  by (simp add: abs128_mk128)

lemma used_in_window_exact:
  assumes "unat w < 2 ^ 31"
  shows "unat (abs128 (used_in_window usage w)) = unat (ValueEx usage) * unat w div 1000000"
proof -
  have "unat (abs128 (MulUint64 (ValueEx usage) (ucast w))) = unat (ValueEx usage) * unat w"
    using MulUint64_exact_small [of "ucast w" "ValueEx usage"] assms by (simp add: unat_ucast32)
  moreover have p: "unat (abs128 (mk128 RateLimitingPrecision 0)) = 1000000"
    by (simp add: abs128_low RateLimitingPrecision_def)
  then have "abs128 (mk128 RateLimitingPrecision 0) \<noteq> 0" by (metis unat_0 zero_neq_numeral)
  ultimately show ?thesis using p by (simp add: used_in_window_def abs128_Div(1) unat_div)
qed

lemma max_use_in_window_exact:
  assumes "unat capacity * unat w < 2 ^ 64" "unat w < 2 ^ 31" "unat share < 2 ^ 31" "tot \<noteq> 0"
  shows "unat (abs128 (max_use_in_window capacity w share tot)) = unat capacity * unat w * unat share div unat tot"
proof -
  let ?c = "MulUint64 capacity (ucast w)"
  have "unat (abs128 ?c) = unat capacity * unat w"
    using MulUint64_exact_small [of "ucast w" capacity] assms(2) by (simp add: unat_ucast32)
  then have c: "unat (High64 ?c) * 2 ^ 64 + unat (Low64 ?c) = unat capacity * unat w" by (simp add: unat_abs128)
  then have "unat (High64 ?c) = 0" using assms(1) by (cases "unat (High64 ?c)") simp_all
  with c have h: "High64 ?c = 0" "unat (Low64 ?c) = unat capacity * unat w" by (simp_all add: unat_eq_0)
  have "abs128 (Mul ?c (mk128 share 0)) = abs128 ?c * abs128 (mk128 share 0)"
    unfolding abs128_Mul_iff by (rule MulUint64_exact_small) (use assms(3) in \<open>simp add: mk128_def\<close>)
  moreover have "unat (abs128 ?c) * unat (abs128 (mk128 share 0)) < 2 ^ (64 + 64)"
    unfolding abs128_low unat_abs128 [of ?c] h by (rule mult_lt_exp) (use assms(1) in simp_all)
  ultimately have m: "unat (abs128 (Mul ?c (mk128 share 0))) = unat capacity * unat w * unat share"
    by (simp add: unat_mult_mod unat_abs128 [of ?c] h abs128_low)
  have "abs128 (mk128 tot 0) \<noteq> 0" using assms(4) abs128_low [of tot] by (metis unat_0 unat_eq_0)
  then show ?thesis using m by (simp add: max_use_in_window_def abs128_Div(1) unat_div abs128_low)
qed

section \<open>Memory\<close>

lemma uint_eq_mod_sint: "uint (d :: i64) = sint d mod 2 ^ 64"
  using uint_sint [of d] by (simp add: take_bit_eq_mod)

lemma uint_of_int64: "uint (word_of_int k :: u64) = take_bit 64 k"
  by (simp add: uint_word_of_int_eq)

lemma ram_guard:
  fixes u d :: u64
  shows "(sint d \<le> 0 \<or> 0xFFFFFFFFFFFFFFFF - u \<ge> d) \<and> (sint d \<ge> 0 \<or> u \<ge> - d) \<longleftrightarrow>
      0 \<le> uint u + sint d \<and> uint u + sint d < 2 ^ 64"
    and "0 \<le> uint u + sint d \<Longrightarrow> uint u + sint d < 2 ^ 64 \<Longrightarrow> uint (u + d) = uint u + sint d"
proof -
  have b: "0 \<le> uint u" "uint u < 2 ^ 64" "- (2 ^ 63) \<le> sint d" "sint d < 2 ^ 63"
    using uint_lt64 [of u] sint_ge [of d] sint_lt [of d] by simp_all
  have neg: "uint (- d) = - sint d" if "sint d < 0"
  proof -
    have "- d = word_of_int (- sint d)" by simp
    then have "uint (- d) = take_bit 64 (- sint d)" by (metis uint_of_int64)
    then show ?thesis using b that by (simp add: take_bit_int_eq_self)
  qed
  have pos: "uint d = sint d" if "0 \<le> sint d" using that b uint_eq_mod_sint [of d] by simp
  have "uint (0xFFFFFFFFFFFFFFFF - u) = 0xFFFFFFFFFFFFFFFF - uint u"
    using b by (subst uint_sub_lem [THEN iffD1]) simp_all
  then show "(sint d \<le> 0 \<or> 0xFFFFFFFFFFFFFFFF - u \<ge> d) \<and> (sint d \<ge> 0 \<or> u \<ge> - d) \<longleftrightarrow>
      0 \<le> uint u + sint d \<and> uint u + sint d < 2 ^ 64"
    using b neg pos by (cases "sint d < 0"; cases "sint d = 0") (auto simp: word_le_def)
  assume r: "0 \<le> uint u + sint d" "uint u + sint d < 2 ^ 64"
  have "u + d = word_of_int (uint u + sint d)" by simp
  then have "uint (u + d) = take_bit 64 (uint u + sint d)" by (metis uint_of_int64)
  then show "uint (u + d) = uint u + sint d" using r by (simp add: take_bit_int_eq_self)
qed

lemma AddPendingRamUsage_spec:
  fixes delta :: i64
  assumes "resource_ok r" "known r a"
  defines "new \<equiv> uint (GetAccountRamUsage a r) + sint delta"
  shows "0 \<le> new \<and> new < 2 ^ 64 \<Longrightarrow> \<exists>r'. AddPendingRamUsage a delta r = Inr r' \<and> resource_ok r' \<and> same_accounts r r' \<and>
      uint (GetAccountRamUsage a r') = new \<and> (\<forall>b. b \<noteq> a \<longrightarrow> find_key b (usageTable r') = find_key b (usageTable r))"
    and "\<not> (0 \<le> new \<and> new < 2 ^ 64) \<Longrightarrow> AddPendingRamUsage a delta r = Inl TransactionException"
proof -
  obtain u where u: "find_key a (usageTable r) = Some u" using assms(2) by (auto simp: known_def)
  let ?f = "\<lambda>u. u\<lparr>RamUsage := RamUsage u + delta\<rparr>"
  let ?r = "r\<lparr>usageTable := snd (Modify usageSchema u ?f (usageTable r))\<rparr>"
  have new: "new = uint (RamUsage u) + sint delta" using u by (simp add: new_def GetAccountRamUsage_def found_def)
  have run: "AddPendingRamUsage a delta r = (if delta = 0 then Inr r else if 0 \<le> new \<and> new < 2 ^ 64 then Inr ?r else Inl TransactionException)"
    unfolding new ram_guard(1) [symmetric] using u by (simp add: AddPendingRamUsage_def found_def Let_def eos_assert_def)
  note t = resource_okD(1) [OF assms(1)]
  note m = same_accounts_modify [OF t u, of ?f, simplified]
  show "\<exists>r'. AddPendingRamUsage a delta r = Inr r' \<and> resource_ok r' \<and> same_accounts r r' \<and>
      uint (GetAccountRamUsage a r') = new \<and> (\<forall>b. b \<noteq> a \<longrightarrow> find_key b (usageTable r') = find_key b (usageTable r))"
    if "0 \<le> new \<and> new < 2 ^ 64"
  proof (cases "delta = 0")
    case True
    then show ?thesis using run assms(1) same_accounts_refl [OF t] by (simp add: new_def)
  next
    case False
    have "uint (GetAccountRamUsage a ?r) = new"
      using m(2) [of a] that ram_guard(2) [of "RamUsage u" delta] unfolding new by (simp add: GetAccountRamUsage_def found_def)
    then show ?thesis using run False that m same_accounts_ok [OF m(1) assms(1)] by (intro exI [of _ ?r]) simp
  qed
  show "AddPendingRamUsage a delta r = Inl TransactionException" if "\<not> (0 \<le> new \<and> new < 2 ^ 64)"
  proof -
    have "delta \<noteq> 0" using that uint_lt64 [of "RamUsage u"] unfolding new by auto
    then show ?thesis using run that by auto
  qed
qed

section \<open>Moving averages\<close>













section \<open>An example\<close>

definition sample_accounts :: ResourceDb where
  "sample_accounts = InitializeAccount 2 (InitializeAccount 1 (InitializeDatabase emptyResourceDb))"

definition sample_limits :: ResourceDb where
  "sample_limits = snd (SetAccountLimits 1 1000 5 7 sample_accounts)"

lemma sample_reachable: "resource_reachable sample_accounts" "resource_reachable sample_limits"
proof -
  have 1: "resource_reachable (InitializeAccount 1 (InitializeDatabase emptyResourceDb))"
    by (rule resource_reachable.account [OF resource_reachable.init]) code_simp+
  show 2: "resource_reachable sample_accounts"
    unfolding sample_accounts_def by (rule resource_reachable.account [OF 1]) code_simp+
  show "resource_reachable sample_limits"
    unfolding sample_limits_def by (rule resource_reachable.limits [OF 2]) code_simp+
qed

section \<open>Properties\<close>

text \<open>
  C19. In every state the manager can reach the totals of the chain are the sums of what the accounts
  hold in memory, CPU and network weight (pending updates excluded, negative values counting as
  nothing), and every account has both its limits and its usage or neither.
\<close>

theorem totals_are_sums:
  assumes "resource_reachable r"
  shows "unat (TotalRamBytes (find_state r)) = sum_weights RamBytes (rowsOf (limitsTable r))
    \<and> unat (TotalCpuWeight (find_state r)) = sum_weights CpuWeight (rowsOf (limitsTable r))
    \<and> unat (TotalNetWeight (find_state r)) = sum_weights NetWeight (rowsOf (limitsTable r))
    \<and> (known r a \<longleftrightarrow> find_key (False, a) (limitsTable r) \<noteq> None)"
  using resource_okD(2, 6) [OF resource_reachable_ok [OF assms]] by (simp add: totals_ok_def known_def)

theorem totals_are_sums_witness:
  "unat (TotalCpuWeight (find_state sample_limits)) = sum_weights CpuWeight (rowsOf (limitsTable sample_limits))"
  using totals_are_sums [OF sample_reachable(2)] by blast

text \<open>
  C5. Processing the pending updates always returns. If the values of every kind add up within 64 bits
  it succeeds: no update is left pending, every account has the limits that were set for it, and
  usage, configuration and everything of the state but the totals are untouched. Otherwise it may
  fail with the exception for an inconsistent state, and with no other.
\<close>

theorem updates_processed:
  assumes "resource_reachable r"
  shows "if \<forall>g\<in>{RamBytes, CpuWeight, NetWeight}. sum_all g (rowsOf (limitsTable r)) < 2 ^ 64
    then \<exists>r'. ProcessAccountLimitUpdates r = Inr r' \<and> (\<forall>a. find_key (True, a) (limitsTable r') = None) \<and>
      (\<forall>a. GetAccountLimits a r' = GetAccountLimits a r) \<and> usageTable r' = usageTable r \<and> configTable r' = configTable r \<and>
      without_totals (find_state r') = without_totals (find_state r)
    else ProcessAccountLimitUpdates r = Inl RateLimitingStateInconsistent \<or> (\<exists>r'. ProcessAccountLimitUpdates r = Inr r')"
proof (cases "\<forall>g\<in>{RamBytes, CpuWeight, NetWeight}. sum_all g (rowsOf (limitsTable r)) < 2 ^ 64")
  case True
  then obtain r' where "ProcessAccountLimitUpdates r = Inr r'" "pending_accounts (limitsTable r') = {}"
      "account_limits (limitsTable r') = account_limits (limitsTable r)" "usageTable r' = usageTable r" "configTable r' = configTable r"
      "without_totals (find_state r') = without_totals (find_state r)"
    using ProcessAccountLimitUpdates_spec [OF resource_reachable_ok [OF assms]] by (meson not_le)
  then show ?thesis using True by (auto simp: pending_accounts_def GetAccountLimits_table)
next
  case False
  then show ?thesis unfolding if_not_P [OF False] using ProcessAccountLimitUpdates_spec [OF resource_reachable_ok [OF assms]] by blast
qed

theorem updates_processed_witness:
  "\<exists>r'. ProcessAccountLimitUpdates sample_limits = Inr r' \<and> (\<forall>a. find_key (True, a) (limitsTable r') = None) \<and>
     GetAccountLimits 1 r' = (1000, 5, 7)"
proof -
  have "dom (rowsOf (limitsTable sample_limits)) = {0, 1, 2}"
  proof -
    have "fst ` set (tbl_rows (limitsTable sample_limits)) = {0, 1, 2}" by code_simp
    then show ?thesis by (simp add: rowsOf_def dom_map_of_conv_image_fst)
  qed
  moreover have "positive (RamBytes (the (rowsOf (limitsTable sample_limits) i))) = (if i = 2 then 1000 else 0)"
    "positive (CpuWeight (the (rowsOf (limitsTable sample_limits) i))) = (if i = 2 then 7 else 0)"
    "positive (NetWeight (the (rowsOf (limitsTable sample_limits) i))) = (if i = 2 then 5 else 0)" if "i \<in> {0, 1, 2}" for i
    using that unfolding rowsOf_def by (elim insertE emptyE; simp only:; code_simp)+
  ultimately have "\<forall>g\<in>{RamBytes, CpuWeight, NetWeight}. sum_all g (rowsOf (limitsTable sample_limits)) < 2 ^ 64"
    by (simp add: sum_rows_def)
  moreover have "GetAccountLimits 1 sample_limits = (1000, 5, 7)" by code_simp
  ultimately show ?thesis using updates_processed [OF sample_reachable(2)] by auto
qed



text \<open>
  C6. Memory accounting is exact: a change of the memory used by an account succeeds exactly if the
  result is representable, and then the usage is the old one plus the signed change, for no other
  account; the check of the limit passes exactly if the account is unlimited or uses no more than
  its limit.
\<close>

theorem ram_accounting:
  assumes "resource_reachable r" "known r a"
  shows "(if 0 \<le> uint (GetAccountRamUsage a r) + sint delta \<and> uint (GetAccountRamUsage a r) + sint delta < 2 ^ 64
      then \<exists>r'. AddPendingRamUsage a delta r = Inr r' \<and> uint (GetAccountRamUsage a r') = uint (GetAccountRamUsage a r) + sint delta \<and>
        (\<forall>b. b \<noteq> a \<longrightarrow> GetAccountRamUsage b r' = GetAccountRamUsage b r)
      else AddPendingRamUsage a delta r = Inl TransactionException)
    \<and> VerifyAccountRamUsage a r =
      (if sint (fst (GetAccountLimits a r)) < 0 \<or> uint (GetAccountRamUsage a r) \<le> sint (fst (GetAccountLimits a r)) then Inr () else Inl RamUsageExceeded)"
proof (rule conjI)
  show "if 0 \<le> uint (GetAccountRamUsage a r) + sint delta \<and> uint (GetAccountRamUsage a r) + sint delta < 2 ^ 64
      then \<exists>r'. AddPendingRamUsage a delta r = Inr r' \<and> uint (GetAccountRamUsage a r') = uint (GetAccountRamUsage a r) + sint delta \<and>
        (\<forall>b. b \<noteq> a \<longrightarrow> GetAccountRamUsage b r' = GetAccountRamUsage b r)
      else AddPendingRamUsage a delta r = Inl TransactionException"
    using AddPendingRamUsage_spec [OF resource_reachable_ok [OF assms(1)] assms(2), of delta]
    by (auto simp: GetAccountRamUsage_def)
  obtain ram nw cw where g: "GetAccountLimits a r = (ram, nw, cw)" using prod_cases3 by blast
  have "ram \<ge> u \<longleftrightarrow> uint u \<le> sint ram" if "0 \<le> sint ram" for u
    using that uint_eq_mod_sint [of ram] sint_lt [of ram] by (simp add: word_le_def)
  then show "VerifyAccountRamUsage a r =
      (if sint (fst (GetAccountLimits a r)) < 0 \<or> uint (GetAccountRamUsage a r) \<le> sint (fst (GetAccountLimits a r)) then Inr () else Inl RamUsageExceeded)"
    using g by (auto simp: VerifyAccountRamUsage_def GetAccountRamUsage_def Let_def eos_assert_def)
qed

theorem ram_accounting_witness:
  "AddPendingRamUsage 1 (- 1) sample_limits = Inl TransactionException \<and> VerifyAccountRamUsage 1 sample_limits = Inr ()"
proof -
  have "known sample_limits 1" "GetAccountRamUsage 1 sample_limits = 0" "fst (GetAccountLimits 1 sample_limits) = 1000" by code_simp+
  with ram_accounting [OF sample_reachable(2), of 1 "- 1"] show ?thesis by simp
qed



end
