(* ===== verification/Eos_Sessions.thy ===== *)
theory Eos_Sessions
  imports Eos_Resource
begin

text \<open>
  Sessions of the object database of \<open>Eos_Table\<close>: what undoing gives back, and the sessions
  that undoing does not take back.
\<close>

section \<open>Sessions\<close>

definition lastUndo :: "('k, 'a) table \<Rightarrow> ('k, 'a) undoState" where
  "lastUndo t = UndoOf (last (tbl_stack t))"

text \<open>
  A session opened on \<open>t0\<close>. Objects are modified and removed as they are stored; a new object
  has keys of its own; a modification keeps the keys; an object that the session has
  modified is not removed.
\<close>

inductive in_session :: "('k, 'a) schema \<Rightarrow> ('k, 'a) table \<Rightarrow> ('k, 'a) table \<Rightarrow> bool" for S t0 where
  start: "in_session S t0 (StartSession t0)"
| insert: "in_session S t0 t \<Longrightarrow> \<forall>k\<in>set (keysOf S v). idsOf t k = None \<Longrightarrow> tbl_nextId t + 1 \<noteq> 0 \<Longrightarrow>
    in_session S t0 (snd (Insert S v t))"
| modify: "in_session S t0 t \<Longrightarrow> find_id (getId S v) t = Some v \<Longrightarrow> getId S (f v) = getId S v \<Longrightarrow>
    keysOf S (f v) = keysOf S v \<Longrightarrow> in_session S t0 (snd (Modify S v f t))"
| remove: "in_session S t0 t \<Longrightarrow> find_id (getId S v) t = Some v \<Longrightarrow> \<not> has (OldValue (lastUndo t)) (getId S v) \<Longrightarrow>
    Remove_row S v t = Inr t' \<Longrightarrow> in_session S t0 t'"

section \<open>Undoing\<close>

text \<open>What the undo record knows of the tables at the start and now.\<close>

definition new_entry :: "('k, 'a) schema \<Rightarrow> ('k, 'a) table \<Rightarrow> ('k, 'a) table \<Rightarrow> u64 \<Rightarrow> ('k, 'a) modifyValue \<Rightarrow> bool" where
  "new_entry S t0 t i m \<longleftrightarrow>
     kv_id (NewKv m) = i \<and> rowsOf t0 i = None \<and> (\<exists>v. rowsOf t i = Some v \<and> kv_index (NewKv m) = keysOf S v)"

definition old_entry :: "('k, 'a) schema \<Rightarrow> ('k, 'a) table \<Rightarrow> ('k, 'a) table \<Rightarrow> u64 \<Rightarrow> ('k, 'a) modifyValue \<Rightarrow> bool" where
  "old_entry S t0 t i m \<longleftrightarrow>
     kv_id (NewKv m) = i \<and>
     (\<exists>v0 v. rowsOf t0 i = Some v0 \<and> OldKv m = structKV S v0 \<and> rowsOf t i = Some v \<and>
        keysOf S v = keysOf S v0 \<and> kv_index (NewKv m) = keysOf S v)"

definition removed_entry :: "('k, 'a) schema \<Rightarrow> ('k, 'a) table \<Rightarrow> ('k, 'a) table \<Rightarrow> u64 \<Rightarrow> ('k, 'a) modifyValue \<Rightarrow> bool" where
  "removed_entry S t0 t i m \<longleftrightarrow> (\<exists>v0. rowsOf t0 i = Some v0 \<and> NewKv m = structKV S v0) \<and> rowsOf t i = None"

definition tracked :: "('k, 'a) undoState \<Rightarrow> u64 \<Rightarrow> bool" where
  "tracked u i \<longleftrightarrow> has (NewValue u) i \<or> has (OldValue u) i \<or> has (RemoveValue u) i"

definition undo_maps :: "('k, 'a) undoState \<Rightarrow> bool" where
  "undo_maps u \<longleftrightarrow>
     distinct (map fst (NewValue u)) \<and> distinct (map fst (OldValue u)) \<and> distinct (map fst (RemoveValue u))"

definition recorded :: "('k, 'a) schema \<Rightarrow> ('k, 'a) table \<Rightarrow> ('k, 'a) table \<Rightarrow> ('k, 'a) undoState \<Rightarrow> bool" where
  "recorded S t0 t u \<longleftrightarrow>
     undo_maps u \<and>
     (\<forall>i m. map_of (NewValue u) i = Some m \<longrightarrow> new_entry S t0 t i m) \<and>
     (\<forall>i m. map_of (OldValue u) i = Some m \<longrightarrow> old_entry S t0 t i m) \<and>
     (\<forall>i m. map_of (RemoveValue u) i = Some m \<longrightarrow> removed_entry S t0 t i m) \<and>
     (\<forall>i. \<not> tracked u i \<longrightarrow> rowsOf t i = rowsOf t0 i)"

lemma fold_old:
  assumes "consistent S t" "distinct (map fst ms)" "\<forall>(i, m)\<in>set ms. old_entry S t0 t i m"
    "\<forall>i v0. rowsOf t0 i = Some v0 \<longrightarrow> getId S v0 = i"
  shows "consistent S (fold (\<lambda>(i, m). modifyKvToDb (NewKv m) (OldKv m)) ms t) \<and>
    rowsOf (fold (\<lambda>(i, m). modifyKvToDb (NewKv m) (OldKv m)) ms t) = (\<lambda>i. if i \<in> fst ` set ms then rowsOf t0 i else rowsOf t i)"
  using assms
proof (induction ms arbitrary: t)
  case (Cons p ms)
  obtain i m where p: "p = (i, m)" by fastforce
  obtain v0 v where e: "kv_id (NewKv m) = i" "rowsOf t0 i = Some v0" "OldKv m = structKV S v0" "rowsOf t i = Some v"
      "keysOf S v = keysOf S v0" "kv_index (NewKv m) = keysOf S v"
    using Cons.prems(3) p by (auto simp: old_entry_def)
  let ?t = "modifyKvToDb (NewKv m) (OldKv m) t"
  have g: "getId S v0 = i" using Cons.prems(4) e(2) by blast
  have r: "rowsOf ?t = (rowsOf t)(i \<mapsto> v0)" using e g by (simp add: modifyKvToDb_rows)
  have c: "consistent S ?t"
    by (rule consistent_modify [OF Cons.prems(1), where v = v]) (use e g in simp_all)
  have "old_entry S t0 ?t j n" if "(j, n) \<in> set ms" for j n
  proof -
    have "j \<noteq> i" using Cons.prems(2) p that by force
    then show ?thesis using Cons.prems(3) that r by (auto simp: old_entry_def)
  qed
  then have es: "\<forall>(j, n)\<in>set ms. old_entry S t0 ?t j n" by auto
  have d: "distinct (map fst ms)" using Cons.prems(2) by simp
  show ?case using Cons.IH [OF c d es Cons.prems(4)] r e(2) p by (auto simp: fun_eq_iff)
qed simp

lemma fold_new:
  assumes "consistent S t" "distinct (map fst ms)"
    "\<forall>(i, m)\<in>set ms. kv_id (NewKv m) = i \<and> (\<exists>v. rowsOf t i = Some v \<and> kv_index (NewKv m) = keysOf S v)"
  shows "consistent S (fold (\<lambda>(i, m). removeKvToDb (NewKv m)) ms t) \<and>
    rowsOf (fold (\<lambda>(i, m). removeKvToDb (NewKv m)) ms t) = (\<lambda>i. if i \<in> fst ` set ms then None else rowsOf t i)"
  using assms
proof (induction ms arbitrary: t)
  case (Cons p ms)
  obtain i m where p: "p = (i, m)" by fastforce
  obtain v where e: "kv_id (NewKv m) = i" "rowsOf t i = Some v" "kv_index (NewKv m) = keysOf S v"
    using Cons.prems(3) p by auto
  let ?t = "removeKvToDb (NewKv m) t"
  have r: "rowsOf ?t = (rowsOf t)(i := None)" using e by (simp add: removeKvToDb_def)
  have c: "consistent S ?t" unfolding removeKvToDb_def
    by (rule consistent_delete [OF Cons.prems(1), where v = v]) (use e in simp_all)
  have "kv_id (NewKv n) = j \<and> (\<exists>v. rowsOf ?t j = Some v \<and> kv_index (NewKv n) = keysOf S v)" if "(j, n) \<in> set ms" for j n
  proof -
    have "j \<noteq> i" using Cons.prems(2) p that by force
    then show ?thesis using Cons.prems(3) that r by auto
  qed
  then have es: "\<forall>(j, n)\<in>set ms. kv_id (NewKv n) = j \<and> (\<exists>v. rowsOf ?t j = Some v \<and> kv_index (NewKv n) = keysOf S v)"
    by blast
  have d: "distinct (map fst ms)" using Cons.prems(2) by simp
  show ?case using Cons.IH [OF c d es] r p by (auto simp: fun_eq_iff)
qed simp

lemma fold_removed:
  assumes "consistent S t" "consistent S t0" "rowsOf t \<subseteq>\<^sub>m rowsOf t0" "distinct (map fst ms)"
    "\<forall>(i, m)\<in>set ms. \<exists>v0. rowsOf t0 i = Some v0 \<and> NewKv m = structKV S v0 \<and> rowsOf t i = None"
  shows "consistent S (fold (\<lambda>(i, m). insertKvToDb (NewKv m)) ms t) \<and>
    rowsOf (fold (\<lambda>(i, m). insertKvToDb (NewKv m)) ms t) = (\<lambda>i. if i \<in> fst ` set ms then rowsOf t0 i else rowsOf t i)"
  using assms
proof (induction ms arbitrary: t)
  case (Cons p ms)
  obtain i m where p: "p = (i, m)" by fastforce
  obtain v0 where e: "rowsOf t0 i = Some v0" "NewKv m = structKV S v0" "rowsOf t i = None" using Cons.prems(5) p by auto
  let ?t = "insertKvToDb (NewKv m) t"
  have g: "getId S v0 = i" by (rule consistentD(1) [OF Cons.prems(2) e(1)])
  have r: "rowsOf ?t = (rowsOf t)(i \<mapsto> v0)" using e g by (simp add: insertKvToDb_def)
  have free: "idsOf t k = None" if "k \<in> set (keysOf S v0)" for k
  proof (rule ccontr)
    assume "idsOf t k \<noteq> None"
    then obtain j where "idsOf t k = Some j" by blast
    then obtain v where j: "rowsOf t j = Some v" "k \<in> set (keysOf S v)"
      using consistentD(2) [OF Cons.prems(1), of k j] by blast
    then have "rowsOf t0 j = Some v" using Cons.prems(3) by (auto simp: map_le_def dom_def)
    then have "idsOf t0 k = Some j" using consistent_key(1) [OF Cons.prems(2)] j(2) by blast
    then have "j = i" using consistent_key(1) [OF Cons.prems(2) e(1) that] by simp
    then show False using j(1) e(3) by simp
  qed
  have c: "consistent S ?t" unfolding insertKvToDb_def
    by (rule consistent_put [OF Cons.prems(1)]) (use e g free in simp_all)
  have le: "rowsOf ?t \<subseteq>\<^sub>m rowsOf t0" using Cons.prems(3) r e(1) by (auto simp: map_le_def)
  have "\<exists>v0. rowsOf t0 j = Some v0 \<and> NewKv n = structKV S v0 \<and> rowsOf ?t j = None" if "(j, n) \<in> set ms" for j n
  proof -
    have "j \<noteq> i" using Cons.prems(4) p that by force
    then show ?thesis using Cons.prems(5) that r by auto
  qed
  then have es: "\<forall>(j, n)\<in>set ms. \<exists>v0. rowsOf t0 j = Some v0 \<and> NewKv n = structKV S v0 \<and> rowsOf ?t j = None"
    by blast
  have d: "distinct (map fst ms)" using Cons.prems(4) by simp
  show ?case using Cons.IH [OF c Cons.prems(2) le d es] r e(1) p by (auto simp: fun_eq_iff)
qed simp

lemma has_keys: "has m i \<longleftrightarrow> i \<in> fst ` set m"
  by (simp add: has_def map_of_eq_None_iff)

lemma undo_rows_back:
  assumes t: "consistent S t" "consistent S t0" and u: "recorded S t0 t u"
  shows "rowsOf (undo_rows u t) = rowsOf t0" "idsOf (undo_rows u t) = idsOf t0"
proof -
  have d: "distinct (map fst (NewValue u))" "distinct (map fst (OldValue u))" "distinct (map fst (RemoveValue u))"
    using u by (auto simp: recorded_def undo_maps_def)
  have n: "new_entry S t0 t i m" if "(i, m) \<in> set (NewValue u)" for i m
    using u that d(1) by (auto simp: recorded_def)
  have o: "old_entry S t0 t i m" if "(i, m) \<in> set (OldValue u)" for i m
    using u that d(2) by (auto simp: recorded_def)
  have r: "removed_entry S t0 t i m" if "(i, m) \<in> set (RemoveValue u)" for i m
    using u that d(3) by (auto simp: recorded_def)
  let ?a = "fold (\<lambda>(i, m). modifyKvToDb (NewKv m) (OldKv m)) (OldValue u) t"
  let ?b = "fold (\<lambda>(i, m). removeKvToDb (NewKv m)) (NewValue u) ?a"
  have a: "consistent S ?a" "rowsOf ?a = (\<lambda>i. if i \<in> fst ` set (OldValue u) then rowsOf t0 i else rowsOf t i)"
    using fold_old [OF t(1) d(2), of t0] o consistentD(1) [OF t(2)] by auto
  have "kv_id (NewKv m) = i \<and> (\<exists>v. rowsOf ?a i = Some v \<and> kv_index (NewKv m) = keysOf S v)"
    if "(i, m) \<in> set (NewValue u)" for i m
  proof -
    have "i \<notin> fst ` set (OldValue u)" using n [OF that] o by (force simp: new_entry_def old_entry_def)
    then show ?thesis using n [OF that] a(2) by (simp add: new_entry_def)
  qed
  then have b: "consistent S ?b" "rowsOf ?b = (\<lambda>i. if i \<in> fst ` set (NewValue u) then None else rowsOf ?a i)"
    using fold_new [OF a(1) d(1)] by auto
  have le: "rowsOf ?b \<subseteq>\<^sub>m rowsOf t0"
  proof (unfold map_le_def, intro ballI)
    fix i assume "i \<in> dom (rowsOf ?b)"
    then have "(if i \<in> fst ` set (NewValue u) then None else rowsOf ?a i) \<noteq> None" unfolding b(2) by blast
    then have i: "i \<notin> fst ` set (NewValue u)" "rowsOf ?b i = rowsOf ?a i" "rowsOf ?a i \<noteq> None"
      unfolding b(2) by (simp_all split: if_splits)
    have "rowsOf ?a i = rowsOf t0 i"
    proof (cases "i \<in> fst ` set (OldValue u)")
      case False
      then have "rowsOf t i \<noteq> None" using i(3) a(2) by simp
      then have "i \<notin> fst ` set (RemoveValue u)" using r by (force simp: removed_entry_def)
      then have "\<not> tracked u i" using False i(1) by (simp add: tracked_def has_keys)
      then show ?thesis using u False a(2) by (simp add: recorded_def)
    qed (use a(2) in simp)
    with i(2) show "rowsOf ?b i = rowsOf t0 i" by simp
  qed
  have "\<exists>v0. rowsOf t0 i = Some v0 \<and> NewKv m = structKV S v0 \<and> rowsOf ?b i = None"
    if "(i, m) \<in> set (RemoveValue u)" for i m
  proof -
    have "i \<notin> fst ` set (OldValue u)" using r [OF that] o by (force simp: removed_entry_def old_entry_def)
    then show ?thesis using r [OF that] a(2) b(2) by (simp add: removed_entry_def)
  qed
  then have c: "consistent S (undo_rows u t)"
      "rowsOf (undo_rows u t) = (\<lambda>i. if i \<in> fst ` set (RemoveValue u) then rowsOf t0 i else rowsOf ?b i)"
    using fold_removed [OF b(1) t(2) le d(3)] unfolding undo_rows_def by auto
  show rows: "rowsOf (undo_rows u t) = rowsOf t0"
  proof
    fix i
    show "rowsOf (undo_rows u t) i = rowsOf t0 i"
    proof (cases "rowsOf ?b i")
      case (Some v)
      then show ?thesis using c(2) le by (auto simp: map_le_def dom_def)
    next
      case None
      show ?thesis
      proof (cases "tracked u i")
        case True
        then show ?thesis using None c(2) a(2) b(2) n o by (auto simp: tracked_def has_keys new_entry_def split: if_splits)
      next
        case False
        then show ?thesis using u None c(2) a(2) b(2) by (auto simp: recorded_def tracked_def has_keys split: if_splits)
      qed
    qed
  qed
  show "idsOf (undo_rows u t) = idsOf t0" by (rule consistent_ids [OF c(1) t(2) rows])
qed

section \<open>What a session records\<close>

lemma recordedD:
  assumes "recorded S t0 t u"
  shows "undo_maps u" "map_of (NewValue u) i = Some m \<Longrightarrow> new_entry S t0 t i m"
    "map_of (OldValue u) i = Some m \<Longrightarrow> old_entry S t0 t i m" "map_of (RemoveValue u) i = Some m \<Longrightarrow> removed_entry S t0 t i m"
    "\<not> tracked u i \<Longrightarrow> rowsOf t i = rowsOf t0 i"
  using assms by (auto simp: recorded_def)

lemma entries_frame:
  assumes "rowsOf t' j = rowsOf t j"
  shows "new_entry S t0 t' j m = new_entry S t0 t j m" "old_entry S t0 t' j m = old_entry S t0 t j m"
    "removed_entry S t0 t' j m = removed_entry S t0 t j m"
  using assms by (simp_all add: new_entry_def old_entry_def removed_entry_def)

lemma undo_maps_steps:
  assumes "undo_maps u"
  shows "undo_maps (undoStackInsert i m u)" "undo_maps (undoStackModify i m u)" "undo_maps (undoStackRemove i m u)"
  using assms
  by (auto simp: undo_maps_def undoStackInsert_def undoStackModify_def undoStackRemove_def Let_def distinct_update
      distinct_delete)

lemma tracked_present:
  assumes "recorded S t0 t u" "tracked u i"
  shows "rowsOf t i \<noteq> None \<or> rowsOf t0 i \<noteq> None" "has (RemoveValue u) i \<Longrightarrow> rowsOf t i = None"
    "has (NewValue u) i \<Longrightarrow> rowsOf t0 i = None \<and> rowsOf t i \<noteq> None"
    "has (OldValue u) i \<Longrightarrow> rowsOf t0 i \<noteq> None \<and> rowsOf t i \<noteq> None"
  using assms recordedD(2-4) [OF assms(1), of i]
  by (auto simp: tracked_def has_def new_entry_def old_entry_def removed_entry_def)

lemma recorded_insert:
  assumes u: "recorded S t0 t u" and r: "rowsOf t' = (rowsOf t)(i \<mapsto> v)" "rowsOf t i = None" "rowsOf t0 i = None"
    and m: "kv_id (NewKv m) = i" "kv_index (NewKv m) = keysOf S v"
  shows "recorded S t0 t' (undoStackInsert i m u)"
proof -
  have f: "\<not> tracked u i" using tracked_present(1) [OF u] r by blast
  have j: "j \<noteq> i \<Longrightarrow> rowsOf t' j = rowsOf t j" for j using r by simp
  have n: "new_entry S t0 t' j n" if "map_of (NewValue (undoStackInsert i m u)) j = Some n" for j n
    using that entries_frame(1) [OF j] recordedD(2) [OF u, of j n] r m
    by (cases "j = i") (auto simp: undoStackInsert_def update_conv' new_entry_def)
  have o: "old_entry S t0 t' j n" if "map_of (OldValue (undoStackInsert i m u)) j = Some n" for j n
    using that f entries_frame(2) [OF j] recordedD(3) [OF u, of j n]
    by (cases "j = i") (auto simp: undoStackInsert_def tracked_def has_def)
  have d: "removed_entry S t0 t' j n" if "map_of (RemoveValue (undoStackInsert i m u)) j = Some n" for j n
    using that f entries_frame(3) [OF j] recordedD(4) [OF u, of j n]
    by (cases "j = i") (auto simp: undoStackInsert_def tracked_def has_def)
  have "rowsOf t' j = rowsOf t0 j" if "\<not> tracked (undoStackInsert i m u) j" for j
    using that recordedD(5) [OF u, of j] j [of j]
    by (cases "j = i") (auto simp: undoStackInsert_def tracked_def has_def update_conv')
  with n o d undo_maps_steps(1) [OF recordedD(1) [OF u]] show ?thesis unfolding recorded_def by blast
qed

lemma recorded_modify:
  assumes u: "recorded S t0 t u" and r: "rowsOf t' = (rowsOf t)(i \<mapsto> w)" "rowsOf t i = Some v" "keysOf S w = keysOf S v"
    and m: "OldKv m = structKV S v" "NewKv m = structKV S w" and g: "getId S w = i"
  shows "recorded S t0 t' (undoStackModify i m u)"
proof -
  have j: "j \<noteq> i \<Longrightarrow> rowsOf t' j = rowsOf t j" for j using r by simp
  have N: "NewValue (undoStackModify i m u) = NewValue u" "RemoveValue (undoStackModify i m u) = RemoveValue u"
    by (simp_all add: undoStackModify_def)
  have n: "new_entry S t0 t' j n" if "map_of (NewValue (undoStackModify i m u)) j = Some n" for j n
    using that entries_frame(1) [OF j] recordedD(2) [OF u, of j n] r
    by (cases "j = i") (auto simp: N new_entry_def)
  have o: "old_entry S t0 t' j n" if a: "map_of (OldValue (undoStackModify i m u)) j = Some n" for j n
  proof (cases "map_of (OldValue u) j")
    case None
    then have "j = i" "n = m" "\<not> has (NewValue u) i"
      using a by (auto simp: undoStackModify_def update_conv' split: if_splits)
    moreover have "\<not> has (RemoveValue u) i" using tracked_present(2) [OF u, of i] r(2) by (auto simp: tracked_def)
    ultimately have "rowsOf t0 i = Some v" using recordedD(5) [OF u, of i] None r(2) by (auto simp: tracked_def has_def)
    then show ?thesis using \<open>j = i\<close> \<open>n = m\<close> r m g by (simp add: old_entry_def)
  next
    case (Some n')
    then have "n' = n" using a by (auto simp: undoStackModify_def update_conv' has_def split: if_splits)
    then show ?thesis using Some entries_frame(2) [OF j] recordedD(3) [OF u, of j n] r
      by (cases "j = i") (auto simp: old_entry_def)
  qed
  have d: "removed_entry S t0 t' j n" if "map_of (RemoveValue (undoStackModify i m u)) j = Some n" for j n
    using that recordedD(4) [OF u, of j n] r(1, 2)
    by (cases "j = i") (auto simp: N removed_entry_def)
  have "rowsOf t' j = rowsOf t0 j" if "\<not> tracked (undoStackModify i m u) j" for j
    using that recordedD(5) [OF u, of j] j [of j]
    by (cases "j = i") (auto simp: undoStackModify_def tracked_def has_def update_conv' split: if_splits)
  with n o d undo_maps_steps(2) [OF recordedD(1) [OF u]] show ?thesis unfolding recorded_def by blast
qed

lemma recorded_remove:
  assumes u: "recorded S t0 t u" and r: "rowsOf t' = (rowsOf t)(i := None)" "rowsOf t i = Some v"
    and m: "NewKv m = structKV S v" and nold: "\<not> has (OldValue u) i"
  shows "recorded S t0 t' (undoStackRemove i m u)"
proof -
  have j: "j \<noteq> i \<Longrightarrow> rowsOf t' j = rowsOf t j" for j using r by simp
  have nrem: "\<not> has (RemoveValue u) i" using tracked_present(2) [OF u, of i] r(2) by (auto simp: tracked_def)
  have O: "OldValue (undoStackRemove i m u) = OldValue u" using nold by (simp add: undoStackRemove_def Let_def)
  have N: "map_of (NewValue (undoStackRemove i m u)) = (map_of (NewValue u))(i := None)"
    using nold by (auto simp: undoStackRemove_def Let_def delete_conv' has_def)
  have R: "map_of (RemoveValue (undoStackRemove i m u)) =
      (if has (NewValue u) i then map_of (RemoveValue u) else (map_of (RemoveValue u))(i \<mapsto> m))"
    using nold nrem by (simp add: undoStackRemove_def Let_def update_conv')
  have n: "new_entry S t0 t' j n" if "map_of (NewValue (undoStackRemove i m u)) j = Some n" for j n
    using that entries_frame(1) [OF j] recordedD(2) [OF u, of j n] by (cases "j = i") (auto simp: N)
  have o: "old_entry S t0 t' j n" if "map_of (OldValue (undoStackRemove i m u)) j = Some n" for j n
    using that nold entries_frame(2) [OF j] recordedD(3) [OF u, of j n] by (cases "j = i") (auto simp: O has_def)
  have d: "removed_entry S t0 t' j n" if a: "map_of (RemoveValue (undoStackRemove i m u)) j = Some n" for j n
  proof (cases "j = i")
    case True
    then have nn: "\<not> has (NewValue u) i" "n = m" using a nrem by (auto simp: R has_def split: if_splits)
    then have "rowsOf t0 i = Some v" using recordedD(5) [OF u, of i] nold nrem r(2) by (simp add: tracked_def)
    then show ?thesis using True nn(2) m r(1) by (simp add: removed_entry_def)
  next
    case False
    then show ?thesis using a entries_frame(3) [OF j] recordedD(4) [OF u, of j n] by (auto simp: R split: if_splits)
  qed
  have "rowsOf t' j = rowsOf t0 j" if a: "\<not> tracked (undoStackRemove i m u) j" for j
  proof (cases "j = i")
    case True
    then have "has (NewValue u) i" using a by (auto simp: tracked_def has_def R split: if_splits)
    then show ?thesis using True tracked_present(3) [OF u, of i] r(1) by (simp add: tracked_def)
  next
    case False
    then have "\<not> tracked u j" using a by (auto simp: tracked_def has_def N O R split: if_splits)
    then show ?thesis using recordedD(5) [OF u] j [OF False] by simp
  qed
  with n o d undo_maps_steps(3) [OF recordedD(1) [OF u]] show ?thesis unfolding recorded_def by blast
qed

lemma undo_stack_ops [simp]:
  "tbl_stack t \<noteq> [] \<Longrightarrow> tbl_stack (insertUndoState f t) = butlast (tbl_stack t) @ [(last (tbl_stack t))\<lparr>UndoOf := f (lastUndo t)\<rparr>]"
  "tbl_stack (putBatch kv t) = tbl_stack t" "tbl_stack (deleteBatch kv t) = tbl_stack t"
  "tbl_reversion (putBatch kv t) = tbl_reversion t" "tbl_reversion (deleteBatch kv t) = tbl_reversion t"
  by (simp_all add: insertUndoState_def lastUndo_def putBatch_def deleteBatch_def)

definition session_inv :: "('k, 'a) schema \<Rightarrow> ('k, 'a) table \<Rightarrow> ('k, 'a) table \<Rightarrow> bool" where
  "session_inv S t0 t \<longleftrightarrow>
     table_ok S t \<and> recorded S t0 t (lastUndo t) \<and> tbl_stack t \<noteq> [] \<and> butlast (tbl_stack t) = tbl_stack t0 \<and>
     tbl_reversion t = tbl_reversion t0 + 1 \<and> unat (tbl_nextId t0) \<le> unat (tbl_nextId t)"

lemma session_invD:
  assumes "session_inv S t0 t"
  shows "table_ok S t" "recorded S t0 t (lastUndo t)" "tbl_stack t \<noteq> []" "butlast (tbl_stack t) = tbl_stack t0"
    "tbl_reversion t = tbl_reversion t0 + 1" "unat (tbl_nextId t0) \<le> unat (tbl_nextId t)"
  using assms by (simp_all add: session_inv_def)

lemma session_inv_start:
  assumes "table_ok S t"
  shows "session_inv S t (StartSession t)"
proof -
  have m: "rowsOf (StartSession t) = rowsOf t" "idsOf (StartSession t) = idsOf t"
    by (simp_all add: StartSession_def rowsOf_def idsOf_def)
  have "table_ok S (StartSession t)" using assms m by (simp add: table_ok_def consistent_def StartSession_def)
  moreover have "recorded S t (StartSession t) (lastUndo (StartSession t))"
    using m by (simp add: recorded_def lastUndo_def StartSession_def newUndoContainer_def newUndoState_def undo_maps_def)
  ultimately show ?thesis by (simp add: session_inv_def StartSession_def)
qed

context object_schema
begin

lemma session_inv_insert:
  assumes inv: "session_inv S t0 t" and t0: "table_ok S t0"
    and v: "\<forall>k\<in>set (keysOf S v). idsOf t k = None" "tbl_nextId t + 1 \<noteq> 0"
  shows "session_inv S t0 (snd (Insert S v t))"
proof -
  obtain v' t' where i: "Insert S v t = (v', t')" by fastforce
  note ok = Insert_ok [OF session_invD(1) [OF inv] v i]
  let ?i = "tbl_nextId t" and ?kv = "structKV S v'"
  let ?u = "undoStackInsert ?i \<lparr>OldKv = ?kv, NewKv = ?kv\<rparr> (lastUndo t)"
  have g: "getId S v' = ?i" "keysOf S v' = keysOf S v" using ok(2) id_set keys_set by simp_all
  have s: "tbl_stack t' = butlast (tbl_stack t) @ [(last (tbl_stack t))\<lparr>UndoOf := ?u\<rparr>]" "tbl_reversion t' = tbl_reversion t"
    using i session_invD(3) [OF inv] ok(2) id_set
    by (auto simp: Insert_def setIncrement_def Let_def insertKvToDb_def lastUndo_def)
  have "rowsOf t0 ?i = None"
    using table_okD(2) [OF t0, of ?i] session_invD(6) [OF inv] by (cases "rowsOf t0 ?i") fastforce+
  then have "recorded S t0 t' ?u"
    by (intro recorded_insert [OF session_invD(2) [OF inv] ok(3) ok(5)]) (simp_all add: g)
  moreover have "1 + ?i \<noteq> 0" using v(2) by (simp only: add.commute not_False_eq_True)
  from unatSuc [OF this] have "unat (tbl_nextId t0) \<le> unat (tbl_nextId t')"
    unfolding ok(4) using session_invD(6) [OF inv] by (simp only: add.commute)
  ultimately show ?thesis
    using i s ok(1) session_invD(4, 5) [OF inv] by (simp add: session_inv_def lastUndo_def)
qed

lemma session_inv_modify:
  assumes inv: "session_inv S t0 t" and v: "rowsOf t (getId S v) = Some v" "getId S (f v) = getId S v" "keysOf S (f v) = keysOf S v"
  shows "session_inv S t0 (snd (Modify S v f t))"
proof -
  obtain v' t' where i: "Modify S v f t = (v', t')" by fastforce
  note ok = Modify_ok [OF session_invD(1) [OF inv] v(1, 2) _ i]
  let ?u = "undoStackModify (getId S v) \<lparr>OldKv = structKV S v, NewKv = structKV S (f v)\<rparr> (lastUndo t)"
  have s: "tbl_stack t' = butlast (tbl_stack t) @ [(last (tbl_stack t))\<lparr>UndoOf := ?u\<rparr>]" "tbl_reversion t' = tbl_reversion t"
    using i session_invD(3) [OF inv] by (auto simp: Modify_def Let_def modifyKvToDb_def lastUndo_def)
  have "recorded S t0 t' ?u"
    by (rule recorded_modify [OF session_invD(2) [OF inv] ok(3) v(1)]) (simp_all add: v)
  then show ?thesis
    using i s ok(1, 4) session_invD(4-6) [OF inv] v(3) by (simp add: session_inv_def lastUndo_def)
qed

lemma session_inv_remove:
  assumes inv: "session_inv S t0 t" and v: "rowsOf t (getId S v) = Some v" "\<not> has (OldValue (lastUndo t)) (getId S v)"
    "Remove_row S v t = Inr t'"
  shows "session_inv S t0 t'"
proof -
  note ok = Remove_ok [OF session_invD(1) [OF inv] v(1, 3)]
  let ?u = "undoStackRemove (getId S v) \<lparr>OldKv = structKV S v, NewKv = structKV S v\<rparr> (lastUndo t)"
  have s: "tbl_stack t' = butlast (tbl_stack t) @ [(last (tbl_stack t))\<lparr>UndoOf := ?u\<rparr>]" "tbl_reversion t' = tbl_reversion t"
    using v(1, 3) session_invD(3) [OF inv]
    by (auto simp: Remove_row_def find_id_maps Let_def removeKvToDb_def lastUndo_def structKV_def)
  have "recorded S t0 t' ?u"
    by (rule recorded_remove [OF session_invD(2) [OF inv] ok(2) v(1)]) (simp_all add: v(2))
  then show ?thesis
    using s ok(1, 3) session_invD(4-6) [OF inv] by (simp add: session_inv_def lastUndo_def)
qed

lemma in_session_inv: "in_session S t0 t \<Longrightarrow> table_ok S t0 \<Longrightarrow> session_inv S t0 t"
proof (induction rule: in_session.induct)
  case start
  then show ?case by (rule session_inv_start)
next
  case (insert t v)
  then show ?case by (intro session_inv_insert) auto
next
  case (modify t v f)
  then show ?case by (intro session_inv_modify) (auto simp: find_id_maps)
next
  case (remove t v t')
  then show ?case using session_inv_remove [of t0 t v t'] by (auto simp: find_id_maps)
qed

lemma undo_session:
  assumes "in_session S t0 t" "table_ok S t0"
  shows "rowsOf (Undo t) = rowsOf t0" "idsOf (Undo t) = idsOf t0" "tbl_stack (Undo t) = tbl_stack t0"
    "tbl_reversion (Undo t) = tbl_reversion t0" "tbl_nextId (Undo t) = tbl_nextId t"
proof -
  note inv = in_session_inv [OF assms]
  note c = table_okD(1) [OF session_invD(1) [OF inv]] table_okD(1) [OF assms(2)]
  note bk = undo_rows_back [OF c session_invD(2) [OF inv]]
  have U: "Undo t = (undo_rows (lastUndo t) t)\<lparr>tbl_stack := butlast (tbl_stack t), tbl_reversion := tbl_reversion t - 1\<rparr>"
    using session_invD(3) [OF inv] by (simp add: Undo_def lastUndo_def)
  show "rowsOf (Undo t) = rowsOf t0" "idsOf (Undo t) = idsOf t0" using bk unfolding U by (simp_all add: rowsOf_def idsOf_def)
  show "tbl_stack (Undo t) = tbl_stack t0" "tbl_reversion (Undo t) = tbl_reversion t0"
    using session_invD(4, 5) [OF inv] unfolding U by simp_all
  have f: "tbl_nextId (fold g ms t) = tbl_nextId t" if "\<And>x t. tbl_nextId (g x t) = tbl_nextId t"
    for g :: "'x \<Rightarrow> ('k, 'a) table \<Rightarrow> ('k, 'a) table" and ms t using that by (induction ms arbitrary: t) simp_all
  have "tbl_nextId (undo_rows u t) = tbl_nextId t" for u
    unfolding undo_rows_def by (subst f, force simp: insertKvToDb_def removeKvToDb_def modifyKvToDb_def putBatch_def deleteBatch_def)+ simp
  then show "tbl_nextId (Undo t) = tbl_nextId t" unfolding U by simp
qed

end

context object_schema
begin

lemma Insert_takes_key:
  assumes "table_ok S t" "find_id (getId S v) t = Some v" "k \<in> set (keysOf S v)"
  shows "find_key k t = Some v" "find_key k (snd (Insert S v t)) = Some (setId S (tbl_nextId t) v)" "find_id (getId S v) (snd (Insert S v t)) = Some v"
proof -
  have row: "rowsOf t (getId S v) = Some v" using assms(2) by (simp add: find_id_maps)
  then have ne: "getId S v \<noteq> tbl_nextId t" using table_okD(2) [OF assms(1)] by (metis less_irrefl)
  show "find_key k t = Some v" by (rule consistent_key(2) [OF table_okD(1) [OF assms(1)] row assms(3)])
  let ?kv = "structKV S (setId S (tbl_nextId t) v)"
  have m: "rowsOf (snd (Insert S v t)) = rowsOf (putBatch ?kv t)" "idsOf (snd (Insert S v t)) = idsOf (putBatch ?kv t)"
    by (simp_all add: Insert_def setIncrement_def Let_def insertKvToDb_def rowsOf_def idsOf_def putBatch_def insertUndoState_def)
  show "find_key k (snd (Insert S v t)) = Some (setId S (tbl_nextId t) v)"
    using assms(3) by (simp add: find_key_maps m id_set keys_set)
  show "find_id (getId S v) (snd (Insert S v t)) = Some v" using row ne by (simp add: find_id_maps m id_set)
qed

end

section \<open>Properties\<close>

definition sample_usage :: "(eos_name, ResourceUsageObject) table" where
  "sample_usage = snd (Insert usageSchema (usageObject 7) (snd (Insert usageSchema (usageObject 5) emptyTable)))"

definition sample_session :: "(eos_name, ResourceUsageObject) table" where
  "sample_session = snd (Modify usageSchema (the (find_key 7 sample_usage)) (\<lambda>u. u\<lparr>RamUsage := 9\<rparr>)
     (snd (Insert usageSchema (usageObject 6) (StartSession sample_usage))))"

lemma sample_usage_ok: "table_ok usageSchema sample_usage"
proof -
  have e: "table_ok usageSchema emptyTable" by (simp add: table_ok_def consistent_def rowsOf_def idsOf_def emptyTable_def)
  obtain v t where i: "Insert usageSchema (usageObject 5) emptyTable = (v, t)" by fastforce
  have t: "table_ok usageSchema t"
    by (rule usage_schema.Insert_ok(1) [OF e _ _ i]) (simp_all add: idsOf_def emptyTable_def)
  have "idsOf (snd (Insert usageSchema (usageObject 5) emptyTable)) 7 = None"
    "tbl_nextId (snd (Insert usageSchema (usageObject 5) emptyTable)) + 1 \<noteq> 0" unfolding idsOf_def by code_simp+
  then have "idsOf t 7 = None" "tbl_nextId t + 1 \<noteq> 0" by (simp_all add: i)
  then have "\<forall>k\<in>set (keysOf usageSchema (usageObject 7)). idsOf t k = None" "tbl_nextId t + 1 \<noteq> 0"
    by (simp_all add: usageSchema_def usageObject_def)
  from usage_schema.Insert_ok(1) [OF t this, where v' = "fst (Insert usageSchema (usageObject 7) t)" and t' = "snd (Insert usageSchema (usageObject 7) t)"]
  show ?thesis by (simp add: sample_usage_def i)
qed



text \<open>
  C39. What sessions do not take back: an object that is modified and then removed comes back as
  modified. And a key is not protected: inserting an object with a key in use gives the
  key to the new object, while the old one stays stored under its id.
\<close>

theorem session_defects:
  assumes "object_schema S" "table_ok S t" "find_id (getId S v) t = Some v" "getId S (f v) = getId S v" "keysOf S (f v) = keysOf S v"
  shows "(\<exists>t'. Remove_row S (f v) (snd (Modify S v f (StartSession t))) = Inr t' \<and> find_id (getId S v) (Undo t') = Some (f v))
    \<and> (\<forall>k\<in>set (keysOf S v). find_key k t = Some v
        \<and> find_key k (snd (Insert S v t)) = Some (setId S (tbl_nextId t) v) \<and> find_id (getId S v) (snd (Insert S v t)) = Some v)"
proof (rule conjI)
  let ?i = "getId S v"
  let ?t1 = "snd (Modify S v f (StartSession t))" and ?kv = "\<lparr>kv_id = ?i, kv_row = f v, kv_index = keysOf S (f v)\<rparr>"
  let ?t2 = "insertUndoState (undoStackRemove ?i \<lparr>OldKv = ?kv, NewKv = ?kv\<rparr>) (removeKvToDb ?kv ?t1)"
  have l: "tbl_stack ?t1 \<noteq> []" "lastUndo ?t1 = newUndoState\<lparr>OldValue := [(?i, \<lparr>OldKv = structKV S v, NewKv = structKV S (f v)\<rparr>)]\<rparr>"
    by (simp_all add: Modify_def Let_def StartSession_def insertUndoState_def modifyKvToDb_def putBatch_def deleteBatch_def newUndoContainer_def
        newUndoState_def undoStackModify_def has_def lastUndo_def)
  have "find_id ?i ?t1 = Some (f v)" using assms(4) by (simp add: Modify_def Let_def find_id_maps modifyKvToDb_rows)
  then have r: "Remove_row S (f v) ?t1 = Inr ?t2" using assms(4) by (simp add: Remove_row_def Let_def)
  have "tbl_stack ?t2 \<noteq> []" "lastUndo ?t2 = newUndoState\<lparr>RemoveValue := [(?i, \<lparr>OldKv = ?kv, NewKv = ?kv\<rparr>)]\<rparr>"
    using l by (simp_all add: insertUndoState_def removeKvToDb_def deleteBatch_def lastUndo_def undoStackRemove_def newUndoState_def has_def)
  then have "rowsOf (Undo ?t2) ?i = rowsOf (undo_rows (lastUndo ?t2) ?t2) ?i" by (simp add: Undo_def lastUndo_def rowsOf_def)
  also have "\<dots> = Some (f v)"
    using \<open>lastUndo ?t2 = _\<close> by (simp add: undo_rows_def newUndoState_def insertKvToDb_def)
  finally show "\<exists>t'. Remove_row S (f v) ?t1 = Inr t' \<and> find_id ?i (Undo t') = Some (f v)"
    using r by (simp add: find_id_maps)
next
  show "\<forall>k\<in>set (keysOf S v). find_key k t = Some v
        \<and> find_key k (snd (Insert S v t)) = Some (setId S (tbl_nextId t) v) \<and> find_id (getId S v) (snd (Insert S v t)) = Some v"
    using object_schema.Insert_takes_key [OF assms(1-3)] by blast
qed

theorem session_defects_witness:
  "\<exists>t'. Remove_row usageSchema \<lparr>ru_ID = 1, ru_Owner = 7, NetUsage = zeroAccumulator, CpuUsage = zeroAccumulator, RamUsage = 9\<rparr>
      (snd (Modify usageSchema (the (find_key 7 sample_usage)) (\<lambda>u. u\<lparr>RamUsage := 9\<rparr>) (StartSession sample_usage))) = Inr t'
    \<and> map_option RamUsage (find_id 1 (Undo t')) = Some 9 \<and> map_option RamUsage (find_id 1 sample_usage) = Some 0"
proof -
  let ?v = "the (find_key 7 sample_usage)"
  have v: "?v = \<lparr>ru_ID = 1, ru_Owner = 7, NetUsage = zeroAccumulator, CpuUsage = zeroAccumulator, RamUsage = 0\<rparr>"
    "find_id 1 sample_usage = Some ?v" by code_simp+
  have "find_id (getId usageSchema ?v) sample_usage = Some ?v" using v by (simp add: usageSchema_def)
  from session_defects [OF usage_schema.object_schema_axioms sample_usage_ok this, of "\<lambda>u. u\<lparr>RamUsage := 9\<rparr>"] v
  show ?thesis by (auto simp: usageSchema_def)
qed

lemma pop_all_rev: "pop_all stack = rev (map Reversion stack)"
  by (induction stack rule: rev_induct) (simp_all add: pop_all.simps)

lemma read_in_order: "fold (\<lambda>c dq. dq @ [c]) cons dq = dq @ cons"
  by (induction cons arbitrary: dq) simp_all

text \<open>
  C40. Closing and opening a database in use keeps the counter of ids and the revision, but turns the
  stack of open sessions around, so that the next undo concerns the oldest of them; if no session
  is open, the stack that was stored last comes back.
\<close>

theorem reopen_reverses_sessions:
  assumes "tbl_nextId t \<noteq> 0"
  shows "fst (NewDataBase (writeIncrementToDb t f)) =
    \<lparr>op_nextId = tbl_nextId t, op_reversion = tbl_reversion t,
     op_stack = if tbl_stack t \<noteq> [] then rev (map Reversion (tbl_stack t)) else readUndoStackFromDb f\<rparr>"
  using assms
  by (cases "tbl_stack t = []")
     (simp_all add: NewDataBase_def writeIncrementToDb_def readIncrementFromDb_def readReversionFromDb_def writeUndoStack_def readUndoStackFromDb_def
       pop_all_rev read_in_order Let_def)

theorem reopen_reverses_sessions_witness:
  "op_stack (fst (NewDataBase (writeIncrementToDb (StartSession sample_session)
     \<lparr>file_nextId = None, file_reversion = None, file_stack = None\<rparr>))) = [2, 1]"
proof -
  have "tbl_nextId (StartSession sample_session) \<noteq> 0" "tbl_stack (StartSession sample_session) \<noteq> []"
    "map Reversion (tbl_stack (StartSession sample_session)) = [1, 2]" by code_simp+
  with reopen_reverses_sessions [of "StartSession sample_session"] show ?thesis by simp
qed

end
