(* ===== verification/Eos_Authority.thy ===== *)
theory Eos_Authority
  imports Eos_Header "HOL-Library.AList"
begin

text \<open>
  Authorities and the authority checker: \<open>src/chain/types/authority.go\<close> and
  \<open>authority_checker.go\<close>. An authority weighs keys, permissions of other accounts and delays
  against a threshold; the checker decides recursively whether the provided keys,
  permissions and delay satisfy it. The pointers the visitor shares (the used keys and the cache of
  permissions) are threaded through the functions; the function that finds an authority is
  a field of the checker.
\<close>

section \<open>Authorities\<close>

record PermissionLevel =
  Actor :: eos_name
  Permission :: eos_name

record PermissionLevelWeight =
  plw_Permission :: PermissionLevel
  plw_Weight :: u16

record KeyWeight =
  kw_Key :: PublicKey
  kw_Weight :: u16

record WaitWeight =
  WaitSec :: u32
  ww_Weight :: u16

text \<open>The two structs \<open>Authority\<close> and \<open>SharedAuthority\<close> have the same fields.\<close>

record SharedAuthority =
  Threshold :: u32
  auth_Keys :: "KeyWeight list"
  auth_Accounts :: "PermissionLevelWeight list"
  auth_Waits :: "WaitWeight list"

definition ComparePermissionLevel :: "PermissionLevel \<Rightarrow> PermissionLevel \<Rightarrow> int" where
  "ComparePermissionLevel first second =
     (if Actor first > Actor second then 1 else if Actor first < Actor second then - 1
      else if Permission first > Permission second then 1 else if Permission first < Permission second then - 1 else 0)"

fun bytes_Compare :: "u8 list \<Rightarrow> u8 list \<Rightarrow> int" where
  "bytes_Compare [] [] = 0"
| "bytes_Compare [] (y # ys) = - 1"
| "bytes_Compare (x # xs) [] = 1"
| "bytes_Compare (x # xs) (y # ys) = (if x < y then - 1 else if x > y then 1 else bytes_Compare xs ys)"

definition ComparePubKey :: "PublicKey \<Rightarrow> PublicKey \<Rightarrow> int" where
  "ComparePubKey pub1 pub2 =
     (let comp = bytes_Compare (KeyContent pub1) (KeyContent pub2)
      in if comp \<noteq> 0 then comp
         else if Curve pub1 > Curve pub2 then 1 else if Curve pub1 < Curve pub2 then - 1 else 0)"

text \<open>\<open>strings.Split\<close> at every separator.\<close>

fun Split :: "u8 \<Rightarrow> gostring \<Rightarrow> gostring list" where
  "Split sep [] = [[]]"
| "Split sep (c # cs) =
     (if c = sep then [] # Split sep cs
      else case Split sep cs of [] \<Rightarrow> [[c]] | p # ps \<Rightarrow> (c # p) # ps)"

text \<open>The permission behind the separator is checked and then not used.\<close>

definition NewPermissionLevel :: "gostring \<Rightarrow> PermissionLevel result" where
  "NewPermissionLevel s =
     (let parts = Split 64 s
      in if length parts > 2 then Inl ErrPermissionLevel
         else if length (parts ! 0) > 12 then Inl ErrPermissionLevel
         else rbind (N (parts ! 0)) (\<lambda>actor. rbind (N (bytes_of ''active'')) (\<lambda>active.
           if length parts = 2
           then if length (parts ! 1) > 12 then Inl ErrPermissionLevel else Inr \<lparr>Actor = actor, Permission = active\<rparr>
           else Inr \<lparr>Actor = actor, Permission = active\<rparr>)))"

definition NewAuthority :: "PublicKey \<Rightarrow> u32 \<Rightarrow> SharedAuthority" where
  "NewAuthority k delaySec =
     (let a = \<lparr>Threshold = 1, auth_Keys = [\<lparr>kw_Key = k, kw_Weight = 1\<rparr>], auth_Accounts = [], auth_Waits = []\<rparr>
      in if delaySec > 0 then a\<lparr>Threshold := 2, auth_Waits := [\<lparr>WaitSec = delaySec, ww_Weight = 1\<rparr>]\<rparr> else a)"

definition Authority_Equals :: "SharedAuthority \<Rightarrow> SharedAuthority \<Rightarrow> bool" where
  "Authority_Equals a b =
     (if Threshold a \<noteq> Threshold b then False
      else if length (auth_Keys a) \<noteq> length (auth_Keys b) \<or> length (auth_Accounts a) \<noteq> length (auth_Accounts b) \<or>
              length (auth_Waits a) \<noteq> length (auth_Waits b) then False
      else list_all2 (=) (auth_Keys a) (auth_Keys b) \<and> list_all2 (=) (auth_Accounts a) (auth_Accounts b) \<and>
           list_all2 (=) (auth_Waits a) (auth_Waits b))"

text \<open>
  The three loops of \<open>Validate\<close>: neighbours have to be in order, the weights are added up; \<open>None\<close>
  is the early return.
\<close>

fun add_weights :: "('a \<Rightarrow> 'a \<Rightarrow> bool) \<Rightarrow> ('a \<Rightarrow> u16) \<Rightarrow> 'a option \<Rightarrow> 'a list \<Rightarrow> u32 \<Rightarrow> u32 option" where
  "add_weights lt w prev [] acc = Some acc"
| "add_weights lt w prev (x # xs) acc =
     (if (case prev of None \<Rightarrow> False | Some p \<Rightarrow> \<not> lt p x) then None
      else add_weights lt w (Some x) xs (acc + ucast (w x)))"

definition Authority_Validate :: "SharedAuthority \<Rightarrow> bool" where
  "Authority_Validate auth =
     (if length (auth_Accounts auth) + length (auth_Keys auth) + length (auth_Waits auth) > 2 ^ 16 then False
      else if Threshold auth = 0 then False
      else case add_weights (\<lambda>p k. ComparePubKey (kw_Key p) (kw_Key k) = - 1) kw_Weight None (auth_Keys auth) 0 of
        None \<Rightarrow> False
      | Some w1 \<Rightarrow> (case add_weights (\<lambda>p a. ComparePermissionLevel (plw_Permission p) (plw_Permission a) = - 1) plw_Weight None (auth_Accounts auth) w1 of
          None \<Rightarrow> False
        | Some w2 \<Rightarrow> (case add_weights (\<lambda>p w. \<not> WaitSec p \<ge> WaitSec w) ww_Weight None (auth_Waits auth) w2 of
            None \<Rightarrow> False
          | Some totalWeight \<Rightarrow> totalWeight \<ge> Threshold auth)))"

section \<open>Checker\<close>

datatype meta = MWait WaitWeight | MKey KeyWeight | MAccount PermissionLevelWeight

primrec meta_weight :: "meta \<Rightarrow> u16" where
  "meta_weight (MWait w) = ww_Weight w"
| "meta_weight (MKey k) = kw_Weight k"
| "meta_weight (MAccount a) = plw_Weight a"

primrec meta_type :: "meta \<Rightarrow> nat" where
  "meta_type (MWait w) = 1"
| "meta_type (MKey k) = 2"
| "meta_type (MAccount a) = 3"

text \<open>The second switch of \<open>Less\<close> assigns the type of the second element to \<open>iType\<close>; \<open>jType\<close> stays 0.\<close>

definition Less :: "meta \<Rightarrow> meta \<Rightarrow> bool" where
  "Less mi mj =
     (let iType = meta_type mi; jType = 0;
          iWeight = meta_weight mi; jWeight = meta_weight mj;
          iType = meta_type mj
      in if iWeight < jWeight then True
         else if iWeight > jWeight then False
         else if iType < jType then True else False)"

definition Sort_step :: "nat \<Rightarrow> meta list \<Rightarrow> meta list" where
  "Sort_step j m = (if Less (m ! j) (m ! (j + 1)) then m[j := m ! (j + 1), j + 1 := m ! j] else m)"

definition Sort :: "meta list \<Rightarrow> meta list" where
  "Sort m = fold (\<lambda>i. fold Sort_step [0..<length m - 1 - i]) [0..<length m - 1] m"

datatype PermissionCacheStatus = NoStatus | BeingEvaluated | PermissionUnsatisfied | PermissionSatisfied

type_synonym PermissionCache = "(PermissionLevel \<times> PermissionCacheStatus) list"

record AuthorityChecker =
  permissionToAuthority :: "PermissionLevel \<Rightarrow> SharedAuthority result"
  ProvidedKeys :: "PublicKey list"
  ProvidedPermissions :: "PermissionLevel list"
  ProvidedDelay :: Microseconds
  RecursionDepthLimit :: u16

definition PermissionStatusInCache :: "PermissionCache \<Rightarrow> PermissionLevel \<Rightarrow> PermissionCacheStatus" where
  "PermissionStatusInCache permissions level =
     (case map_of permissions level of Some s \<Rightarrow> s
      | None \<Rightarrow> (case map_of permissions (level\<lparr>Permission := 0\<rparr>) of Some s \<Rightarrow> s | None \<Rightarrow> NoStatus))"

definition initializePermissionCache :: "AuthorityChecker \<Rightarrow> PermissionCache" where
  "initializePermissionCache ac = fold (\<lambda>p. AList.update p PermissionSatisfied) (ProvidedPermissions ac) []"

definition VisitWaitWeight :: "AuthorityChecker \<Rightarrow> WaitWeight \<Rightarrow> u32 \<Rightarrow> u32" where
  "VisitWaitWeight ac w tot =
     (if sint (ProvidedDelay ac) \<ge> sint (Seconds (ucast (WaitSec w))) then tot + ucast (ww_Weight w) else tot)"

text \<open>The used keys have a place for every provided key.\<close>

fun key_index :: "PublicKey \<Rightarrow> PublicKey list \<Rightarrow> nat \<Rightarrow> nat option" where
  "key_index k [] itr = None"
| "key_index k (key # keys) itr = (if PublicKey_Compare key k then Some itr else key_index k keys (itr + 1))"

definition VisitKeyWeight :: "AuthorityChecker \<Rightarrow> KeyWeight \<Rightarrow> u32 \<Rightarrow> bool list \<Rightarrow> (u32 \<times> bool list) result" where
  "VisitKeyWeight ac k tot used =
     (case key_index (kw_Key k) (ProvidedKeys ac) 0 of
        None \<Rightarrow> Inr (tot, used)
      | Some itr \<Rightarrow> if itr < length used then Inr (tot + ucast (kw_Weight k), used[itr := True]) else Inl GoPanic)"

definition metaPermission :: "SharedAuthority \<Rightarrow> meta list" where
  "metaPermission authority = map MWait (auth_Waits authority) @ map MKey (auth_Keys authority) @ map MAccount (auth_Accounts authority)"

lemma depth_step:
  assumes "(depth :: u16) < limit"
  shows "unat limit - unat (depth + 1) < unat limit - unat depth"
proof -
  have "unat depth < unat limit" "unat limit < 2 ^ 16" using assms unsigned_less [of limit] by (simp_all add: word_less_nat_alt)
  then have "unat (depth + 1) = unat depth + 1" by (simp add: unat_add_mod)
  then show ?thesis using \<open>unat depth < unat limit\<close> by simp
qed

function SatisfiedAcd :: "AuthorityChecker \<Rightarrow> SharedAuthority \<Rightarrow> u16 \<Rightarrow> PermissionCache \<Rightarrow> bool list
    \<Rightarrow> (bool \<times> PermissionCache \<times> bool list) result"
  and visit_all :: "AuthorityChecker \<Rightarrow> meta list \<Rightarrow> u32 \<Rightarrow> u16 \<Rightarrow> u32 \<Rightarrow> PermissionCache \<Rightarrow> bool list
    \<Rightarrow> (bool \<times> PermissionCache \<times> bool list) result"
  and Visit :: "AuthorityChecker \<Rightarrow> meta \<Rightarrow> u16 \<Rightarrow> u32 \<Rightarrow> PermissionCache \<Rightarrow> bool list
    \<Rightarrow> (u32 \<times> PermissionCache \<times> bool list) result"
  and VisitPermissionLevelWeight :: "AuthorityChecker \<Rightarrow> PermissionLevelWeight \<Rightarrow> u16 \<Rightarrow> u32 \<Rightarrow> PermissionCache \<Rightarrow> bool list
    \<Rightarrow> (u32 \<times> PermissionCache \<times> bool list) result"
  where
  "SatisfiedAcd ac authority depth cache used =
     rbind (visit_all ac (Sort (metaPermission authority)) (Threshold authority) depth 0 cache used)
       (\<lambda>(satisfied, cache', used'). Inr (satisfied, cache', if satisfied then used' else used))"
| "visit_all ac [] threshold depth tot cache used = Inr (False, cache, used)"
| "visit_all ac (m # ms) threshold depth tot cache used =
     rbind (Visit ac m depth tot cache used)
       (\<lambda>(tot, cache, used). if tot \<ge> threshold then Inr (True, cache, used) else visit_all ac ms threshold depth tot cache used)"
| "Visit ac (MWait w) depth tot cache used = Inr (VisitWaitWeight ac w tot, cache, used)"
| "Visit ac (MKey k) depth tot cache used =
     rbind (VisitKeyWeight ac k tot used) (\<lambda>(tot, used). Inr (tot, cache, used))"
| "Visit ac (MAccount a) depth tot cache used = VisitPermissionLevelWeight ac a depth tot cache used"
| "VisitPermissionLevelWeight ac p depth tot cache used =
     (case PermissionStatusInCache cache (plw_Permission p) of
        NoStatus \<Rightarrow>
          if depth < RecursionDepthLimit ac
          then (case permissionToAuthority ac (plw_Permission p) of
              Inl e \<Rightarrow> if e = PermissionQueryException then Inr (tot, cache, used) else Inl e
            | Inr auth \<Rightarrow>
                rbind (if Threshold auth = 0 then Inr (False, cache, used)
                       else SatisfiedAcd ac auth (depth + 1) (AList.update (plw_Permission p) BeingEvaluated cache) used)
                  (\<lambda>(r, cache, used).
                    if r then Inr (tot + ucast (plw_Weight p), AList.update (plw_Permission p) PermissionSatisfied cache, used)
                    else Inr (tot, AList.update (plw_Permission p) PermissionUnsatisfied cache, used)))
          else Inr (tot, cache, used)
      | PermissionSatisfied \<Rightarrow> Inr (tot + ucast (plw_Weight p), cache, used)
      | _ \<Rightarrow> Inr (tot, cache, used))"
  by pat_completeness auto
termination
  apply (relation "inv_image (less_than <*lex*> less_than <*lex*> less_than) (\<lambda>x. case x of
     Inl (Inl (ac, auth, depth, cache, used)) \<Rightarrow> (unat (RecursionDepthLimit ac) - unat depth, 3, 0)
   | Inl (Inr (ac, ms, thr, depth, tot, cache, used)) \<Rightarrow> (unat (RecursionDepthLimit ac) - unat depth, 2, length ms)
   | Inr (Inl (ac, m, depth, tot, cache, used)) \<Rightarrow> (unat (RecursionDepthLimit ac) - unat depth, 1, 0)
   | Inr (Inr (ac, p, depth, tot, cache, used)) \<Rightarrow> (unat (RecursionDepthLimit ac) - unat depth, 0, 0 :: nat))")
          apply (auto simp: depth_step)
  done


declare SatisfiedAcd.simps [simp del] VisitPermissionLevelWeight.simps [simp del]

definition SatisfiedLc :: "AuthorityChecker \<Rightarrow> PermissionLevel \<Rightarrow> PermissionCache option \<Rightarrow> bool list
    \<Rightarrow> (bool \<times> PermissionCache \<times> bool list) result" where
  "SatisfiedLc ac permission cachedPerms used =
     (let cache = (case cachedPerms of None \<Rightarrow> initializePermissionCache ac | Some c \<Rightarrow> c)
      in rbind (Visit ac (MAccount \<lparr>plw_Permission = permission, plw_Weight = 1\<rparr>) 0 0 cache used)
           (\<lambda>(tot, cache, used). Inr (tot > 0, cache, used)))"

definition SatisfiedLoc :: "AuthorityChecker \<Rightarrow> PermissionLevel \<Rightarrow> Microseconds \<Rightarrow> PermissionCache option \<Rightarrow> bool list
    \<Rightarrow> (bool \<times> PermissionCache \<times> bool list) result" where
  "SatisfiedLoc ac permission overrideProvidedDelay cachedPerms used =
     SatisfiedLc (ac\<lparr>ProvidedDelay := overrideProvidedDelay\<rparr>) permission cachedPerms used"

definition AllKeysUsed :: "bool list \<Rightarrow> bool" where
  "AllKeysUsed used = list_all (\<lambda>u. u) used"

definition GetUsedKeys :: "AuthorityChecker \<Rightarrow> bool list \<Rightarrow> PublicKey list" where
  "GetUsedKeys ac used = [ProvidedKeys ac ! i. i \<leftarrow> [0..<length used], used ! i]"

definition GetUnusedKeys :: "AuthorityChecker \<Rightarrow> bool list \<Rightarrow> PublicKey list" where
  "GetUnusedKeys ac used = [ProvidedKeys ac ! i. i \<leftarrow> [0..<length used], \<not> used ! i]"

definition MakeAuthChecker :: "(PermissionLevel \<Rightarrow> SharedAuthority result) \<Rightarrow> u16 \<Rightarrow> PublicKey list \<Rightarrow> PermissionLevel list
    \<Rightarrow> Microseconds \<Rightarrow> AuthorityChecker \<times> bool list" where
  "MakeAuthChecker pta recursionDepthLimit providedKeys providedPermission providedDelay =
     (\<lparr>permissionToAuthority = pta, ProvidedKeys = providedKeys, ProvidedPermissions = providedPermission,
       ProvidedDelay = providedDelay, RecursionDepthLimit = recursionDepthLimit\<rparr>, replicate (length providedKeys) False)"

end
