(* ===== verification/Eos_Authorization.thy ===== *)
theory Eos_Authorization
  imports Eos_Authority Eos_Resource
begin

text \<open>
  Permissions of accounts: the objects of \<open>src/entity/permission_object.go\<close>,
  \<open>permission_usage_object.go\<close> and \<open>permission_link_object.go\<close>, the payloads of the native
  actions in \<open>src/chain/eosio_contract_types.go\<close>, and the authorization manager of
  \<open>src/chain/authorization_manager.go\<close>. What the manager asks of the controller (the time of
  the pending block, the chain configuration, the deferred transactions) and how a payload is
  decoded are fields of the record \<open>AuthEnv\<close>; the order in which Go walks a map is an
  argument. The check of the deadline is left out.
\<close>

section \<open>Objects\<close>

record PermissionObject =
  po_Parent :: u64
  po_ID :: u64
  UsageId :: u64
  po_Owner :: eos_name
  po_Name :: eos_name
  LastUpdated :: TimePoint
  po_Auth :: SharedAuthority

record PermissionUsageObject =
  pu_ID :: u64
  LastUsed :: TimePoint

record PermissionLinkObject =
  lk_ID :: u64
  lk_Account :: eos_name
  lk_Code :: eos_name
  MessageType :: eos_name
  RequiredPermission :: eos_name

text \<open>
  The keys of an index carry its number in front: by owner, by parent, by name. The fields of a key
  come in the order of the struct, so that the id stands before the name.
\<close>

definition permissionSchema :: "(nat \<times> u64 \<times> u64, PermissionObject) schema" where
  "permissionSchema = \<lparr>getId = po_ID, setId = (\<lambda>i v. v\<lparr>po_ID := i\<rparr>),
     keysOf = (\<lambda>v. [(0, po_Owner v, po_Name v), (1, po_Parent v, po_ID v), (2, po_ID v, po_Name v)])\<rparr>"

definition permUsageSchema :: "(unit, PermissionUsageObject) schema" where
  "permUsageSchema = \<lparr>getId = pu_ID, setId = (\<lambda>i v. v\<lparr>pu_ID := i\<rparr>), keysOf = (\<lambda>v. [])\<rparr>"

text \<open>By action name and by permission name.\<close>

definition linkSchema :: "(nat \<times> u64 \<times> u64 \<times> u64 \<times> u64, PermissionLinkObject) schema" where
  "linkSchema = \<lparr>getId = lk_ID, setId = (\<lambda>i v. v\<lparr>lk_ID := i\<rparr>),
     keysOf = (\<lambda>v. [(0, lk_Account v, lk_Code v, MessageType v, 0),
                    (1, lk_Account v, lk_Code v, MessageType v, RequiredPermission v)])\<rparr>"

interpretation permission_schema: identified_schema permissionSchema
  by unfold_locales (simp add: permissionSchema_def)

interpretation permUsage_schema: object_schema permUsageSchema
  by unfold_locales (simp_all add: permUsageSchema_def)

interpretation link_schema: object_schema linkSchema
  by unfold_locales (simp_all add: linkSchema_def)

record AuthDb =
  permTable :: "(nat \<times> u64 \<times> u64, PermissionObject) table"
  permUsageTable :: "(unit, PermissionUsageObject) table"
  linkTable :: "(nat \<times> u64 \<times> u64 \<times> u64 \<times> u64, PermissionLinkObject) table"

definition zeroAuthority :: SharedAuthority where
  "zeroAuthority = \<lparr>Threshold = 0, auth_Keys = [], auth_Accounts = [], auth_Waits = []\<rparr>"

definition zeroPermission :: PermissionObject where
  "zeroPermission = \<lparr>po_Parent = 0, po_ID = 0, UsageId = 0, po_Owner = 0, po_Name = 0, LastUpdated = 0, po_Auth = zeroAuthority\<rparr>"

text \<open>The first object at or behind an id.\<close>

definition LowerBound_id :: "u64 \<Rightarrow> ('k, 'a) table \<Rightarrow> 'a option" where
  "LowerBound_id i t =
     (case filter (\<lambda>x. i \<le> x) (map fst (tbl_rows t)) of
        [] \<Rightarrow> None
      | x # xs \<Rightarrow> find_id (fold min xs x) t)"

text \<open>
  The walk up the parents. Behind the last object the iterator has no data and the parent stays what
  it was, so that the walk does not end. The table is never empty here: every caller has just read
  the object \<open>po\<close> from it.
\<close>

partial_function (option) Satisfies_loop :: "PermissionObject \<Rightarrow> (nat \<times> u64 \<times> u64, PermissionObject) table \<Rightarrow> PermissionObject \<Rightarrow> bool option" where
  "Satisfies_loop po t parent =
     (if po_ID po = po_Parent parent then Some True
      else if po_Parent parent = 0 then Some False
      else Satisfies_loop po t (found (LowerBound_id (po_Parent parent) t) parent))"

definition Satisfies :: "PermissionObject \<Rightarrow> PermissionObject \<Rightarrow> (nat \<times> u64 \<times> u64, PermissionObject) table \<Rightarrow> bool option" where
  "Satisfies po other t =
     (if po_Owner po \<noteq> po_Owner other then Some False
      else if po_ID po = po_ID other \<or> po_ID po = po_Parent other then Some True
      else Satisfies_loop po t (found (LowerBound_id (po_Parent other) t) zeroPermission))"

section \<open>Native actions\<close>

record UpdateAuth =
  ua_Account :: eos_name
  ua_Permission :: eos_name
  ua_Parent :: eos_name
  ua_Auth :: SharedAuthority

record DeleteAuth =
  da_Account :: eos_name
  da_Permission :: eos_name

record LinkAuth =
  la_Account :: eos_name
  la_Code :: eos_name
  la_Type :: eos_name
  la_Requirement :: eos_name

record UnLinkAuth =
  ul_Account :: eos_name
  ul_Code :: eos_name
  ul_Type :: eos_name

record CancelDelay =
  CancelingAuth :: PermissionLevel
  cd_TrxId :: Sha256

record Action =
  act_Account :: eos_name
  act_Name :: eos_name
  Authorization :: "PermissionLevel list"
  act_Data :: "u8 list"

record GeneratedTransactionObject =
  gto_TrxId :: Sha256
  DelayUntil :: TimePoint
  Published :: TimePoint
  PackedTrx :: "u8 list"

definition name_of :: "string \<Rightarrow> eos_name" where
  "name_of s = (case N (bytes_of s) of Inl e \<Rightarrow> 0 | Inr n \<Rightarrow> n)"

definition native_auth_actions :: "eos_name list" where
  "native_auth_actions = [name_of ''updateauth'', name_of ''deleteauth'', name_of ''linkauth'', name_of ''unlinkauth'', name_of ''canceldelay'']"

record AuthEnv =
  PendingBlockTime :: TimePoint
  MaxTrxDelay :: u32
  MaxAuthorityDepth :: u16
  generatedTransactions :: "GeneratedTransactionObject list"
  decodeUpdateAuth :: "u8 list \<Rightarrow> UpdateAuth"
  decodeDeleteAuth :: "u8 list \<Rightarrow> DeleteAuth"
  decodeLinkAuth :: "u8 list \<Rightarrow> LinkAuth"
  decodeUnLinkAuth :: "u8 list \<Rightarrow> UnLinkAuth"
  decodeCancelDelay :: "u8 list \<Rightarrow> CancelDelay"
  decodeTransaction :: "u8 list \<Rightarrow> Action list"

section \<open>Manager\<close>

definition CreatePermission :: "AuthEnv \<Rightarrow> eos_name \<Rightarrow> eos_name \<Rightarrow> u64 \<Rightarrow> SharedAuthority \<Rightarrow> TimePoint \<Rightarrow> AuthDb
    \<Rightarrow> PermissionObject \<times> AuthDb" where
  "CreatePermission env account name parent auth initialCreationTime db =
     (let creationTime = (if initialCreationTime = 0 then PendingBlockTime env else initialCreationTime);
          (permUsage, ut) = Insert permUsageSchema \<lparr>pu_ID = 0, LastUsed = creationTime\<rparr> (permUsageTable db);
          (perm, pt) = Insert permissionSchema
            \<lparr>po_Parent = parent, po_ID = 0, UsageId = pu_ID permUsage, po_Owner = account, po_Name = name,
             LastUpdated = creationTime, po_Auth = auth\<rparr> (permTable db)
      in (perm, db\<lparr>permUsageTable := ut, permTable := pt\<rparr>))"

definition ModifyPermission :: "AuthEnv \<Rightarrow> PermissionObject \<Rightarrow> SharedAuthority \<Rightarrow> AuthDb \<Rightarrow> PermissionObject \<times> AuthDb" where
  "ModifyPermission env permission auth db =
     (let (permission, pt) = Modify permissionSchema permission
            (\<lambda>po. po\<lparr>po_Auth := auth, LastUpdated := PendingBlockTime env\<rparr>) (permTable db)
      in (permission, db\<lparr>permTable := pt\<rparr>))"

text \<open>The end of the index by parent: the first key at or behind belongs to another index.\<close>

definition RemovePermission :: "PermissionObject \<Rightarrow> AuthDb \<Rightarrow> AuthDb result" where
  "RemovePermission permission db =
     eos_assert (case LowerBound_key (1, po_ID permission, 0) (permTable db) of None \<Rightarrow> True | Some k \<Rightarrow> fst k \<noteq> 1) ActionValidateException
       (let usage = found (find_id (UsageId permission) (permUsageTable db)) \<lparr>pu_ID = UsageId permission, LastUsed = 0\<rparr>;
            db = (case Remove_row permUsageSchema usage (permUsageTable db) of Inl e \<Rightarrow> db | Inr ut \<Rightarrow> db\<lparr>permUsageTable := ut\<rparr>)
        in Inr (case Remove_row permissionSchema permission (permTable db) of Inl e \<Rightarrow> db | Inr pt \<Rightarrow> db\<lparr>permTable := pt\<rparr>))"

definition UpdatePermissionUsage :: "AuthEnv \<Rightarrow> PermissionObject \<Rightarrow> AuthDb \<Rightarrow> AuthDb" where
  "UpdatePermissionUsage env permission db =
     (let puo = found (find_id (UsageId permission) (permUsageTable db)) \<lparr>pu_ID = UsageId permission, LastUsed = 0\<rparr>
      in db\<lparr>permUsageTable := snd (Modify permUsageSchema puo (\<lambda>p. p\<lparr>LastUsed := PendingBlockTime env\<rparr>) (permUsageTable db))\<rparr>)"

definition GetPermissionLastUsed :: "PermissionObject \<Rightarrow> AuthDb \<Rightarrow> TimePoint" where
  "GetPermissionLastUsed permission db =
     LastUsed (found (find_id (UsageId permission) (permUsageTable db)) \<lparr>pu_ID = UsageId permission, LastUsed = 0\<rparr>)"

text \<open>
  \<open>EosRethrowExceptions\<close> passes a chain exception on as it is, and the exception of an empty level
  is one: it does not become a failed query, and the authority checker does not catch it.
\<close>

definition FindPermission :: "PermissionLevel \<Rightarrow> AuthDb \<Rightarrow> PermissionObject option result" where
  "FindPermission level db =
     eos_assert (Actor level \<noteq> 0 \<and> Permission level \<noteq> 0) InvalidPermission
       (Inr (find_key (0, Actor level, Permission level) (permTable db)))"

definition GetPermission :: "PermissionLevel \<Rightarrow> AuthDb \<Rightarrow> PermissionObject result" where
  "GetPermission level db =
     eos_assert (Actor level \<noteq> 0 \<and> Permission level \<noteq> 0) InvalidPermission
       (case find_key (0, Actor level, Permission level) (permTable db) of None \<Rightarrow> Inl PermissionQueryException | Some po \<Rightarrow> Inr po)"

definition LookupLinkedPermission :: "eos_name \<Rightarrow> eos_name \<Rightarrow> eos_name \<Rightarrow> AuthDb \<Rightarrow> eos_name option" where
  "LookupLinkedPermission authorizerAccount scope actName db =
     (case find_key (0, authorizerAccount, scope, actName, 0) (linkTable db) of
        Some link \<Rightarrow> Some (RequiredPermission link)
      | None \<Rightarrow> map_option RequiredPermission (find_key (0, authorizerAccount, scope, 0, 0) (linkTable db)))"

text \<open>No name is the pointer nil: no minimum applies.\<close>

definition LookupMinimumPermission :: "eos_name \<Rightarrow> eos_name \<Rightarrow> eos_name \<Rightarrow> AuthDb \<Rightarrow> eos_name option result" where
  "LookupMinimumPermission authorizerAccount scope actName db =
     eos_assert (scope = name_of ''eosio'' \<longrightarrow> actName \<notin> set native_auth_actions) UnlinkableMinPermissionAction
       (case LookupLinkedPermission authorizerAccount scope actName db of
          None \<Rightarrow> Inr (Some (name_of ''active''))
        | Some linked \<Rightarrow> if linked = 0 then Inr (Some (name_of ''active''))
            else if linked = name_of ''eosio.any'' then Inr None else Inr (Some linked))"

definition check_satisfies :: "PermissionLevel \<Rightarrow> PermissionObject \<Rightarrow> AuthDb \<Rightarrow> unit result" where
  "check_satisfies auth minPermission db =
     rbind (GetPermission auth db) (\<lambda>p.
     rbind (returned (map_option Inr (Satisfies p minPermission (permTable db)))) (\<lambda>b.
     eos_assert b IrrelevantAuthException (Inr ())))"

definition CheckUpdateAuthAuthorization :: "UpdateAuth \<Rightarrow> PermissionLevel list \<Rightarrow> AuthDb \<Rightarrow> unit result" where
  "CheckUpdateAuthAuthorization update auths db =
     eos_assert (length auths = 1) IrrelevantAuthException
       (let auth = auths ! 0
        in eos_assert (Actor auth = ua_Account update) IrrelevantAuthException
             (rbind (FindPermission \<lparr>Actor = ua_Account update, Permission = ua_Permission update\<rparr> db) (\<lambda>p.
              rbind (case p of Some minPermission \<Rightarrow> Inr minPermission
                     | None \<Rightarrow> GetPermission \<lparr>Actor = ua_Account update, Permission = ua_Parent update\<rparr> db) (\<lambda>minPermission.
              check_satisfies auth minPermission db))))"

definition CheckDeleteAuthAuthorization :: "DeleteAuth \<Rightarrow> PermissionLevel list \<Rightarrow> AuthDb \<Rightarrow> unit result" where
  "CheckDeleteAuthAuthorization del auths db =
     eos_assert (length auths = 1) IrrelevantAuthException
       (let auth = auths ! 0
        in eos_assert (Actor auth = da_Account del) IrrelevantAuthException
             (rbind (GetPermission \<lparr>Actor = da_Account del, Permission = da_Permission del\<rparr> db) (\<lambda>minPermission.
              check_satisfies auth minPermission db)))"

text \<open>A method called on the pointer nil panics.\<close>

definition CheckLinkAuthAuthorization :: "LinkAuth \<Rightarrow> PermissionLevel list \<Rightarrow> AuthDb \<Rightarrow> unit result" where
  "CheckLinkAuthAuthorization link auths db =
     eos_assert (length auths = 1) IrrelevantAuthException
       (let auth = auths ! 0
        in eos_assert (Actor auth = la_Account link) IrrelevantAuthException
             (eos_assert (la_Type link \<notin> set native_auth_actions) ActionValidateException
               (rbind (LookupMinimumPermission (la_Account link) (la_Code link) (la_Type link) db) (\<lambda>linked.
                  case linked of None \<Rightarrow> Inl GoPanic
                  | Some name \<Rightarrow> if name = 0 then Inr ()
                      else rbind (GetPermission auth db) (\<lambda>_.
                           rbind (GetPermission \<lparr>Actor = la_Account link, Permission = name\<rparr> db) (\<lambda>minPermission.
                           check_satisfies auth minPermission db))))))"

definition CheckUnLinkAuthAuthorization :: "UnLinkAuth \<Rightarrow> PermissionLevel list \<Rightarrow> AuthDb \<Rightarrow> unit result" where
  "CheckUnLinkAuthAuthorization unlink auths db =
     eos_assert (length auths = 1) IrrelevantAuthException
       (let auth = auths ! 0
        in eos_assert (Actor auth = ul_Account unlink) IrrelevantAuthException
             (case LookupLinkedPermission (ul_Account unlink) (ul_Code unlink) (ul_Type unlink) db of None \<Rightarrow> Inl GoPanic
              | Some name \<Rightarrow> eos_assert (name \<noteq> 0) TransactionException
                  (if name = name_of ''eosio.any'' then Inr ()
                   else rbind (GetPermission auth db) (\<lambda>_.
                        rbind (GetPermission \<lparr>Actor = ul_Account unlink, Permission = name\<rparr> db) (\<lambda>minPermission.
                        check_satisfies auth minPermission db)))))"

text \<open>
  Without any deferred transaction the iterator behind the end holds none of the storage engine, and
  reading from it panics. The difference of two times in microseconds is taken for milliseconds.
\<close>

definition CheckCancelDelayAuthorization :: "AuthEnv \<Rightarrow> CancelDelay \<Rightarrow> PermissionLevel list \<Rightarrow> AuthDb \<Rightarrow> Microseconds result" where
  "CheckCancelDelayAuthorization env cancel auths db =
     eos_assert (length auths = 1) IrrelevantAuthException
       (let auth = auths ! 0
        in rbind (GetPermission auth db) (\<lambda>_.
           rbind (GetPermission (CancelingAuth cancel) db) (\<lambda>minPermission.
           rbind (check_satisfies auth minPermission db) (\<lambda>_.
           if generatedTransactions env = [] then Inl GoPanic
           else case find (\<lambda>g. gto_TrxId g = cd_TrxId cancel) (generatedTransactions env) of None \<Rightarrow> Inl TxNotFound
           | Some g \<Rightarrow>
               eos_assert (\<exists>act\<in>set (decodeTransaction env (PackedTrx g)). CancelingAuth cancel \<in> set (Authorization act)) ActionValidateException
                 (Inr (Milliseconds (DelayUntil g - Published g)))))))"

definition effectiveDelay :: "AuthEnv \<Rightarrow> Microseconds \<Rightarrow> Microseconds" where
  "effectiveDelay env providedDelay =
     (if sint providedDelay \<ge> sint (Seconds (ucast (MaxTrxDelay env))) then MaxMicroseconds else providedDelay)"

definition permission_authority :: "AuthDb \<Rightarrow> PermissionLevel \<Rightarrow> SharedAuthority result" where
  "permission_authority db p = rbind (GetPermission p db) (\<lambda>perm. Inr (po_Auth perm))"

text \<open>
  The special checks of the native actions; the result tells whether the action is one of them. The
  delay that \<open>CheckCancelDelayAuthorization\<close> returns is not used.
\<close>

definition check_special :: "AuthEnv \<Rightarrow> Action \<Rightarrow> AuthDb \<Rightarrow> bool result" where
  "check_special env act db =
     (if act_Account act = name_of ''eosio'' then
        if act_Name act = name_of ''updateauth''
        then rbind (CheckUpdateAuthAuthorization (decodeUpdateAuth env (act_Data act)) (Authorization act) db) (\<lambda>_. Inr True)
        else if act_Name act = name_of ''deleteauth''
        then rbind (CheckDeleteAuthAuthorization (decodeDeleteAuth env (act_Data act)) (Authorization act) db) (\<lambda>_. Inr True)
        else if act_Name act = name_of ''linkauth''
        then rbind (CheckLinkAuthAuthorization (decodeLinkAuth env (act_Data act)) (Authorization act) db) (\<lambda>_. Inr True)
        else if act_Name act = name_of ''unlinkauth''
        then rbind (CheckUnLinkAuthAuthorization (decodeUnLinkAuth env (act_Data act)) (Authorization act) db) (\<lambda>_. Inr True)
        else if act_Name act = name_of ''canceldelay''
        then rbind (CheckCancelDelayAuthorization env (decodeCancelDelay env (act_Data act)) (Authorization act) db) (\<lambda>_. Inr True)
        else Inr False
      else Inr False)"

type_synonym ToSatisfy = "(PermissionLevel \<times> Microseconds) list"

definition check_declared :: "Action \<Rightarrow> bool \<Rightarrow> Microseconds \<Rightarrow> AuthDb \<Rightarrow> PermissionLevel \<Rightarrow> ToSatisfy \<Rightarrow> ToSatisfy result" where
  "check_declared act specialCase delay db declaredAuth permissionToSatisfy =
     rbind (if specialCase then Inr ()
            else rbind (LookupMinimumPermission (Actor declaredAuth) (act_Account act) (act_Name act) db) (\<lambda>m.
              case m of None \<Rightarrow> Inr ()
              | Some minPermissionName \<Rightarrow>
                  rbind (GetPermission \<lparr>Actor = Actor declaredAuth, Permission = minPermissionName\<rparr> db) (\<lambda>minPermission.
                  check_satisfies declaredAuth minPermission db)))
       (\<lambda>_. Inr (case map_of permissionToSatisfy declaredAuth of
               Some second \<Rightarrow> if sint second > sint delay then permissionToSatisfy else AList.update declaredAuth delay permissionToSatisfy
             | None \<Rightarrow> AList.update declaredAuth delay permissionToSatisfy))"

fun check_declared_all :: "Action \<Rightarrow> bool \<Rightarrow> Microseconds \<Rightarrow> AuthDb \<Rightarrow> PermissionLevel list \<Rightarrow> ToSatisfy \<Rightarrow> ToSatisfy result" where
  "check_declared_all act sp delay db [] pts = Inr pts"
| "check_declared_all act sp delay db (a # as) pts =
     rbind (check_declared act sp delay db a pts) (\<lambda>pts. check_declared_all act sp delay db as pts)"

fun check_actions :: "AuthEnv \<Rightarrow> Microseconds \<Rightarrow> AuthDb \<Rightarrow> Action list \<Rightarrow> ToSatisfy \<Rightarrow> ToSatisfy result" where
  "check_actions env delay db [] pts = Inr pts"
| "check_actions env delay db (act # acts) pts =
     rbind (check_special env act db) (\<lambda>sp.
     rbind (check_declared_all act sp delay db (Authorization act) pts) (\<lambda>pts. check_actions env delay db acts pts))"

fun check_permissions :: "AuthorityChecker \<Rightarrow> ToSatisfy \<Rightarrow> bool list \<Rightarrow> bool list result" where
  "check_permissions checker [] used = Inr used"
| "check_permissions checker ((p, q) # ps) used =
     rbind (SatisfiedLoc checker p q None used) (\<lambda>(r, c, used). eos_assert r UnsatisfiedAuthorization (check_permissions checker ps used))"

definition CheckAuthorization :: "AuthEnv \<Rightarrow> (ToSatisfy \<Rightarrow> ToSatisfy) \<Rightarrow> Action list \<Rightarrow> PublicKey list \<Rightarrow> PermissionLevel list
    \<Rightarrow> Microseconds \<Rightarrow> bool \<Rightarrow> AuthDb \<Rightarrow> unit result" where
  "CheckAuthorization env order actions providedKeys providedPermissions providedDelay allowUnusedKeys db =
     (let delay = effectiveDelay env providedDelay;
          (checker, used) = MakeAuthChecker (permission_authority db) (MaxAuthorityDepth env) providedKeys providedPermissions delay
      in rbind (check_actions env delay db actions []) (\<lambda>permissionToSatisfy.
         rbind (check_permissions checker (order permissionToSatisfy) used) (\<lambda>used.
         if \<not> allowUnusedKeys then eos_assert (AllKeysUsed used) TxIrrelevantSig (Inr ()) else Inr ())))"

definition CheckAuthorization2 :: "AuthEnv \<Rightarrow> eos_name \<Rightarrow> eos_name \<Rightarrow> PublicKey list \<Rightarrow> PermissionLevel list
    \<Rightarrow> Microseconds \<Rightarrow> bool \<Rightarrow> AuthDb \<Rightarrow> unit result" where
  "CheckAuthorization2 env account permission providedKeys providedPermissions providedDelay allowUnusedKeys db =
     (let (checker, used) = MakeAuthChecker (permission_authority db) (MaxAuthorityDepth env) providedKeys providedPermissions
            (effectiveDelay env providedDelay)
      in rbind (SatisfiedLc checker \<lparr>Actor = account, Permission = permission\<rparr> None used) (\<lambda>(r, c, used).
         eos_assert r UnsatisfiedAuthorization
           (if \<not> allowUnusedKeys then eos_assert (AllKeysUsed used) TxIrrelevantSig (Inr ()) else Inr ())))"

fun require_levels :: "AuthorityChecker \<Rightarrow> PermissionLevel list \<Rightarrow> bool list \<Rightarrow> bool list result" where
  "require_levels checker [] used = Inr used"
| "require_levels checker (a # as) used =
     rbind (SatisfiedLc checker a None used) (\<lambda>(r, c, used). eos_assert r UnsatisfiedAuthorization (require_levels checker as used))"

definition GetRequiredKeys :: "AuthEnv \<Rightarrow> Action list \<Rightarrow> PublicKey list \<Rightarrow> Microseconds \<Rightarrow> AuthDb \<Rightarrow> PublicKey list result" where
  "GetRequiredKeys env actions candidateKeys providedDelay db =
     (let (checker, used) = MakeAuthChecker (permission_authority db) (MaxAuthorityDepth env) candidateKeys [] providedDelay
      in rbind (require_levels checker (concat (map Authorization actions)) used) (\<lambda>used. Inr (GetUsedKeys checker used)))"

end
