(* ===== verification/Eos_AuthorityLaws.thy ===== *)
theory Eos_AuthorityLaws
  imports Eos_Authority "HOL-Library.Multiset"
begin

text \<open>
  What the authority checker guarantees: the order in which it visits, that it grants only
  what keys, delay and provided permissions carry, that it ends and which exception it can
  raise, and what the validation of an authority ensures.
\<close>

section \<open>Sorting\<close>

lemma Less_iff: "Less x y \<longleftrightarrow> meta_weight x < meta_weight y"
  by (cases "meta_weight x < meta_weight y") (auto simp: Less_def)

fun bubble :: "meta list \<Rightarrow> meta list" where
  "bubble [] = []"
| "bubble [x] = [x]"
| "bubble (x # y # zs) = (if Less x y then y # bubble (x # zs) else x # bubble (y # zs))"

lemma mset_bubble [simp]: "mset (bubble xs) = mset xs"
  by (induction xs rule: bubble.induct) auto

lemma length_bubble [simp]: "length (bubble xs) = length xs"
  by (induction xs rule: bubble.induct) auto

lemma set_bubble [simp]: "set (bubble xs) = set xs"
  by (induction xs rule: bubble.induct) auto

lemma bubble_nonempty [simp]: "bubble xs = [] \<longleftrightarrow> xs = []"
  by (metis length_bubble length_0_conv)

lemma bubble_snoc:
  "xs \<noteq> [] \<Longrightarrow> bubble (xs @ [y]) =
     butlast (bubble xs) @ (if Less (last (bubble xs)) y then [y, last (bubble xs)] else [last (bubble xs), y])"
  by (induction xs rule: bubble.induct) auto

lemma bubble_last: "x \<in> set xs \<Longrightarrow> meta_weight (last (bubble xs)) \<le> meta_weight x"
proof (induction xs arbitrary: x rule: bubble.induct)
  case (3 a b zs)
  show ?case
  proof (cases "Less a b")
    case True
    then have "meta_weight a < meta_weight b" by (simp add: Less_iff)
    with True 3 show ?thesis by (auto intro: order_trans less_imp_le)
  next
    case False
    then have "meta_weight b \<le> meta_weight a" by (simp add: Less_iff not_less)
    with False 3 show ?thesis by (auto intro: order_trans)
  qed
qed simp_all

lemma filter_bubble: "filter (\<lambda>x. meta_weight x = c) (bubble xs) = filter (\<lambda>x. meta_weight x = c) xs"
  by (induction xs rule: bubble.induct) (auto simp: Less_iff)

text \<open>A pass of the inner loop turns a prefix into its bubbled form.\<close>

lemma pass_bubble:
  "k < length m \<Longrightarrow> fold Sort_step [0..<k] m = bubble (take (k + 1) m) @ drop (k + 1) m"
proof (induction k)
  case 0
  then show ?case by (cases m) auto
next
  case (Suc k)
  let ?p = "take (k + 1) m" and ?y = "m ! (k + 1)"
  have ne: "?p \<noteq> []" using Suc.prems by auto
  have len: "length (bubble ?p) = k + 1" using Suc.prems by simp
  have drop: "drop (k + 1) m = ?y # drop (k + 2) m" using Suc.prems by (simp add: Cons_nth_drop_Suc)
  have take: "take (k + 2) m = ?p @ [?y]" using Suc.prems take_Suc_conv_app_nth [of "k + 1" m] by simp
  obtain B z where B: "bubble ?p = B @ [z]" using ne by (metis append_butlast_last_id bubble_nonempty)
  have lB: "length B = k" using len unfolding B by simp
  have nth: "(B @ z # ?y # drop (k + 2) m) ! k = z" "(B @ z # ?y # drop (k + 2) m) ! (k + 1) = ?y"
    using lB by (simp_all add: nth_append)
  have upd: "(B @ z # ?y # drop (k + 2) m)[k := ?y, k + 1 := z] = B @ ?y # z # drop (k + 2) m"
    using lB by (simp add: list_update_append)
  have "fold Sort_step [0..<Suc k] m = Sort_step k (B @ z # ?y # drop (k + 2) m)"
    using Suc B drop by simp
  also have "\<dots> = B @ (if Less z ?y then [?y, z] else [z, ?y]) @ drop (k + 2) m"
    unfolding Sort_step_def nth upd by simp
  also have "\<dots> = bubble (take (k + 2) m) @ drop (k + 2) m"
    unfolding take bubble_snoc [OF ne] B by simp
  finally show ?case by simp
qed

lemma Sort_passes:
  assumes "k < length m \<or> k = 0"
  shows "\<exists>A B. fold (\<lambda>i. fold Sort_step [0..<length m - 1 - i]) [0..<k] m = A @ B \<and> length B = k \<and> mset (A @ B) = mset m \<and>
    sorted_wrt (\<lambda>x y. meta_weight x \<ge> meta_weight y) B \<and> (\<forall>a\<in>set A. \<forall>b\<in>set B. meta_weight b \<le> meta_weight a) \<and>
    (\<forall>c. filter (\<lambda>x. meta_weight x = c) (A @ B) = filter (\<lambda>x. meta_weight x = c) m)"
  using assms
proof (induction k)
  case 0
  show ?case by (rule exI [of _ m], rule exI [of _ "[]"]) simp
next
  case (Suc k)
  then obtain A B where AB: "fold (\<lambda>i. fold Sort_step [0..<length m - 1 - i]) [0..<k] m = A @ B" "length B = k" "mset (A @ B) = mset m"
      "sorted_wrt (\<lambda>x y. meta_weight x \<ge> meta_weight y) B" "\<forall>a\<in>set A. \<forall>b\<in>set B. meta_weight b \<le> meta_weight a"
      "\<And>c. filter (\<lambda>x. meta_weight x = c) (A @ B) = filter (\<lambda>x. meta_weight x = c) m"
    by auto
  have lm: "length (A @ B) = length m" using AB(3) by (metis size_mset)
  have A: "A \<noteq> []" using lm AB(2) Suc.prems by auto
  have len: "length m - 1 - k < length (A @ B)" "length m - 1 - k + 1 = length A" using lm AB(2) Suc.prems by auto
  have "fold (\<lambda>i. fold Sort_step [0..<length m - 1 - i]) [0..<Suc k] m = fold Sort_step [0..<length m - 1 - k] (A @ B)"
    using AB(1) by simp
  also have "\<dots> = bubble A @ B" unfolding pass_bubble [OF len(1)] len(2) by simp
  also have "\<dots> = butlast (bubble A) @ (last (bubble A) # B)" using A by simp
  finally have run: "fold (\<lambda>i. fold Sort_step [0..<length m - 1 - i]) [0..<Suc k] m = butlast (bubble A) @ (last (bubble A) # B)" .
  have eq: "butlast (bubble A) @ (last (bubble A) # B) = bubble A @ B" using A by simp
  have lastA: "last (bubble A) \<in> set A" using A by (metis bubble_nonempty last_in_set set_bubble)
  show ?case
  proof (intro exI conjI)
    show "fold (\<lambda>i. fold Sort_step [0..<length m - 1 - i]) [0..<Suc k] m = butlast (bubble A) @ (last (bubble A) # B)" by (rule run)
    show "mset (butlast (bubble A) @ (last (bubble A) # B)) = mset m" unfolding eq using AB(3) by simp
    show "sorted_wrt (\<lambda>x y. meta_weight x \<ge> meta_weight y) (last (bubble A) # B)" using AB(4, 5) lastA by simp
    have "meta_weight b \<le> meta_weight a" if "a \<in> set A" "b = last (bubble A) \<or> b \<in> set B" for a b
      using that AB(5) bubble_last [OF that(1)] by auto
    moreover have "set (butlast (bubble A)) \<subseteq> set A" by (metis in_set_butlastD set_bubble subsetI)
    ultimately show "\<forall>a\<in>set (butlast (bubble A)). \<forall>b\<in>set (last (bubble A) # B). meta_weight b \<le> meta_weight a" by auto
    show "\<forall>c. filter (\<lambda>x. meta_weight x = c) (butlast (bubble A) @ (last (bubble A) # B)) = filter (\<lambda>x. meta_weight x = c) m"
      unfolding eq using AB(6) by (simp add: filter_bubble)
  qed (use AB(2) in simp)
qed

text \<open>The double loop is the stable sort by weight alone, greatest first.\<close>

lemma Sort_sort_key: "Sort m = sort_key (\<lambda>p. - uint (meta_weight p)) m"
proof (cases "m = []")
  case True
  then show ?thesis by (simp add: Sort_def)
next
  case False
  then have "length m - 1 < length m \<or> length m - 1 = 0" by simp
  from Sort_passes [OF this] obtain A B where s: "Sort m = A @ B" "length B = length m - 1" "mset (A @ B) = mset m"
      "sorted_wrt (\<lambda>x y. meta_weight x \<ge> meta_weight y) B" "\<forall>a\<in>set A. \<forall>b\<in>set B. meta_weight b \<le> meta_weight a"
      "\<And>c. filter (\<lambda>x. meta_weight x = c) (A @ B) = filter (\<lambda>x. meta_weight x = c) m"
    unfolding Sort_def by blast
  have "length (A @ B) = length m" using s(3) by (metis size_mset)
  then have "length A = 1" using s(2) False by (cases m) simp_all
  then obtain a where a: "A = [a]" by (cases A) auto
  have "sorted_wrt (\<lambda>x y. meta_weight x \<ge> meta_weight y) (A @ B)" using a s(4, 5) by simp
  then have "sorted (map (\<lambda>p. - uint (meta_weight p)) (Sort m))"
    unfolding s(1) sorted_map by (rule sorted_wrt_mono_rel [rotated]) (simp add: word_le_def)
  then show ?thesis
    by (intro properties_for_sort_key [symmetric]) (use s(1, 3, 6) in \<open>simp_all add: word_uint_eq_iff eq_commute\<close>)
qed

lemma mset_Sort: "mset (Sort m) = mset m"
  by (simp add: Sort_sort_key)

lemma set_Sort [simp]: "set (Sort m) = set m"
  by (metis mset_Sort set_mset_mset)

lemma Sort_nonempty [simp]: "Sort m = [] \<longleftrightarrow> m = []"
  by (metis set_Sort set_empty)

section \<open>Granting\<close>

definition meta_sum :: "(meta \<Rightarrow> bool) \<Rightarrow> meta list \<Rightarrow> nat" where
  "meta_sum P ms = sum_list (map (\<lambda>m. if P m then unat (meta_weight m) else 0) ms)"

lemma meta_sum_simps [simp]:
  "meta_sum P [] = 0" "meta_sum P (m # ms) = (if P m then unat (meta_weight m) else 0) + meta_sum P ms"
  "meta_sum P (ms @ ns) = meta_sum P ms + meta_sum P ns"
  by (simp_all add: meta_sum_def)

lemma meta_sum_mset: "mset ms = mset ns \<Longrightarrow> meta_sum P ms = meta_sum P ns"
  by (simp add: meta_sum_def flip: sum_mset_sum_list)

lemma meta_sum_Sort [simp]: "meta_sum P (Sort ms) = meta_sum P ms"
  by (rule meta_sum_mset) (rule mset_Sort)

text \<open>
  What carries weight: a delay that is provided, a key that is provided, an account by the predicate.
\<close>

fun carries :: "AuthorityChecker \<Rightarrow> (PermissionLevel \<Rightarrow> bool) \<Rightarrow> meta \<Rightarrow> bool" where
  "carries ac G (MWait w) = (sint (ProvidedDelay ac) \<ge> sint (Seconds (ucast (WaitSec w))))"
| "carries ac G (MKey k) = (kw_Key k \<in> set (ProvidedKeys ac))"
| "carries ac G (MAccount a) = G (plw_Permission a)"

text \<open>
  The permissions that are granted: the provided ones, all of an account that is provided as a whole,
  and those whose authority is outweighed by keys, delay and other granted permissions.
\<close>

inductive granted :: "AuthorityChecker \<Rightarrow> PermissionLevel \<Rightarrow> bool" for ac where
  provided: "l \<in> set (ProvidedPermissions ac) \<Longrightarrow> granted ac l"
| wildcard: "l\<lparr>Permission := 0\<rparr> \<in> set (ProvidedPermissions ac) \<Longrightarrow> granted ac l"
| authority: "permissionToAuthority ac l = Inr auth \<Longrightarrow> (\<And>p. G p \<Longrightarrow> granted ac p) \<Longrightarrow>
    unat (Threshold auth) \<le> meta_sum (carries ac G) (metaPermission auth) \<Longrightarrow> Threshold auth \<noteq> 0 \<Longrightarrow> granted ac l"

definition cache_ok :: "AuthorityChecker \<Rightarrow> PermissionCache \<Rightarrow> bool" where
  "cache_ok ac cache \<longleftrightarrow> (\<forall>l. map_of cache l = Some PermissionSatisfied \<longrightarrow>
     granted ac l \<and> (Permission l = 0 \<longrightarrow> l \<in> set (ProvidedPermissions ac)))"

text \<open>
  What \<open>GetPermission\<close> promises as the look-up of the checker: a level with an empty part is invalid, and any
  other that is not found is a failed query. \<open>Eos_AuthorizationLaws\<close> shows it of the authorization manager.
\<close>

definition level_ok :: "PermissionLevel \<Rightarrow> bool" where
  "level_ok l \<longleftrightarrow> Actor l \<noteq> 0 \<and> Permission l \<noteq> 0"

definition lookup_ok :: "AuthorityChecker \<Rightarrow> bool" where
  "lookup_ok ac \<longleftrightarrow> (\<forall>l. if level_ok l then (\<forall>e. permissionToAuthority ac l = Inl e \<longrightarrow> e = PermissionQueryException)
     else permissionToAuthority ac l = Inl InvalidPermission)"

definition meta_ok :: "meta \<Rightarrow> bool" where
  "meta_ok m = (case m of MAccount a \<Rightarrow> level_ok (plw_Permission a) | _ \<Rightarrow> True)"

definition authorities_ok :: "AuthorityChecker \<Rightarrow> bool" where
  "authorities_ok ac \<longleftrightarrow> (\<forall>l auth. permissionToAuthority ac l = Inr auth \<longrightarrow> (\<forall>m\<in>set (metaPermission auth). meta_ok m))"

lemma lookup_okD:
  assumes "lookup_ok ac"
  shows "permissionToAuthority ac l = Inr auth \<Longrightarrow> level_ok l"
    and "permissionToAuthority ac l = Inl e \<Longrightarrow> e = (if level_ok l then PermissionQueryException else InvalidPermission)"
  using assms [unfolded lookup_ok_def, rule_format, of l] by (auto split: if_splits)

lemma cache_ok_status:
  assumes "cache_ok ac cache" "PermissionStatusInCache cache l = PermissionSatisfied"
  shows "granted ac l"
proof (cases "map_of cache l")
  case (Some s)
  then show ?thesis using assms by (simp add: PermissionStatusInCache_def cache_ok_def)
next
  case None
  then have "map_of cache (l\<lparr>Permission := 0\<rparr>) = Some PermissionSatisfied"
    using assms(2) by (simp add: PermissionStatusInCache_def split: option.splits)
  then have "l\<lparr>Permission := 0\<rparr> \<in> set (ProvidedPermissions ac)" using assms(1) by (simp add: cache_ok_def)
  then show ?thesis by (rule granted.wildcard)
qed

lemma cache_ok_update:
  assumes "cache_ok ac cache" "s = PermissionSatisfied \<Longrightarrow> granted ac l \<and> (Permission l = 0 \<longrightarrow> l \<in> set (ProvidedPermissions ac))"
  shows "cache_ok ac (AList.update l s cache)"
  using assms by (auto simp: cache_ok_def update_conv')

lemma cache_ok_init: "cache_ok ac (initializePermissionCache ac)"
proof -
  have "map_of (fold (\<lambda>p. AList.update p PermissionSatisfied) ps c) l = Some PermissionSatisfied \<Longrightarrow>
      l \<in> set ps \<or> map_of c l = Some PermissionSatisfied" for ps c l
    by (induction ps arbitrary: c) (fastforce simp: update_conv' split: if_splits)+
  from this [of "ProvidedPermissions ac" "[]"] show ?thesis
    by (auto simp: cache_ok_def initializePermissionCache_def intro: granted.provided)
qed

lemma unat_bound16: "unat (w :: u16) < 65536"
  using unsigned_less [of w, where ?'a = nat] by simp

lemma unat_ucast16: "unat (ucast (w :: u16) :: u32) = unat w"
  using unsigned_less [of w, where ?'a = nat] by (simp add: unsigned_ucast_eq take_bit_nat_eq_self_iff)

lemma add_weight_le: "unat (tot + ucast (w :: u16) :: u32) \<le> unat tot + unat w"
  by (simp add: unat_add_mod mod_less_eq_dividend unat_ucast16)

lemma key_index_Some: "key_index k keys itr = Some i \<Longrightarrow> k \<in> set keys \<and> i < itr + length keys"
  by (induction keys arbitrary: itr) (fastforce simp: PublicKey_Compare_iff split: if_splits)+

lemma key_index_None: "key_index k keys itr = None \<Longrightarrow> k \<notin> set keys"
  by (induction keys arbitrary: itr) (auto simp: PublicKey_Compare_iff split: if_splits)

lemma Visit_found:
  assumes "PermissionStatusInCache cache (plw_Permission p) = NoStatus" "depth < RecursionDepthLimit ac"
    "permissionToAuthority ac (plw_Permission p) = Inr auth"
  shows "VisitPermissionLevelWeight ac p depth tot cache used =
    rbind (if Threshold auth = 0 then Inr (False, cache, used)
           else SatisfiedAcd ac auth (depth + 1) (AList.update (plw_Permission p) BeingEvaluated cache) used)
      (\<lambda>x. Inr (if fst x then tot + ucast (plw_Weight p) else tot,
        AList.update (plw_Permission p) (if fst x then PermissionSatisfied else PermissionUnsatisfied) (fst (snd x)), snd (snd x)))"
proof -
  have eq: "(\<lambda>(r, cache, used). if r then Inr (tot + ucast (plw_Weight p), AList.update (plw_Permission p) PermissionSatisfied cache, used)
      else Inr (tot, AList.update (plw_Permission p) PermissionUnsatisfied cache, used)) =
    (\<lambda>x. Inr (if fst x then tot + ucast (plw_Weight p) else tot,
      AList.update (plw_Permission p) (if fst x then PermissionSatisfied else PermissionUnsatisfied) (fst (snd x)), snd (snd x)))"
    by (auto simp: fun_eq_iff)
  show ?thesis by (subst VisitPermissionLevelWeight.simps) (simp only: assms PermissionCacheStatus.simps sum.case if_True eq)
qed

lemma checker_sound:
  shows "lookup_ok ac \<Longrightarrow> cache_ok ac cache \<Longrightarrow> SatisfiedAcd ac auth depth cache used = Inr (r, cache', used') \<Longrightarrow>
      cache_ok ac cache' \<and> (r \<longrightarrow> unat (Threshold auth) \<le> meta_sum (carries ac (granted ac)) (metaPermission auth))"
    and "lookup_ok ac \<Longrightarrow> cache_ok ac cache \<Longrightarrow> visit_all ac ms thr depth tot cache used = Inr (r, cache', used') \<Longrightarrow>
      cache_ok ac cache' \<and> (r \<longrightarrow> unat thr \<le> unat tot + meta_sum (carries ac (granted ac)) ms)"
    and "lookup_ok ac \<Longrightarrow> cache_ok ac cache \<Longrightarrow> Visit ac m depth tot cache used = Inr (tot', cache', used') \<Longrightarrow>
      cache_ok ac cache' \<and> unat tot' \<le> unat tot + meta_sum (carries ac (granted ac)) [m]"
    and "lookup_ok ac \<Longrightarrow> cache_ok ac cache \<Longrightarrow> VisitPermissionLevelWeight ac p depth tot cache used = Inr (tot', cache', used') \<Longrightarrow>
      cache_ok ac cache' \<and> unat tot' \<le> unat tot + meta_sum (carries ac (granted ac)) [MAccount p]"
proof (induction ac auth depth cache used and ac ms thr depth tot cache used and ac m depth tot cache used and ac p depth tot cache used
    arbitrary: r cache' used' and r cache' used' and tot' cache' used' and tot' cache' used'
    rule: SatisfiedAcd_visit_all_Visit_VisitPermissionLevelWeight.induct)
  case (1 ac authority depth cache used)
  then show ?case by (fastforce simp: SatisfiedAcd.simps rbind_Inr_iff)
next
  case (2 ac threshold depth tot cache used)
  then show ?case by simp
next
  case (3 ac m ms threshold depth tot cache used)
  obtain t c u where v: "Visit ac m depth tot cache used = Inr (t, c, u)"
    and rest: "(if t \<ge> threshold then Inr (True, c, u) else visit_all ac ms threshold depth t c u) = Inr (r, cache', used')"
    using "3.prems"(3) by (auto simp: rbind_Inr_iff)
  have V: "cache_ok ac c" "unat t \<le> unat tot + meta_sum (carries ac (granted ac)) [m]"
    using "3.IH"(1) [OF "3.prems"(1, 2) v] by simp_all
  show ?case
  proof (cases "t \<ge> threshold")
    case True
    then show ?thesis using rest V by (auto simp: word_le_nat_alt)
  next
    case False
    then have a: "visit_all ac ms threshold depth t c u = Inr (r, cache', used')" using rest by simp
    show ?thesis using "3.IH"(2) [OF v refl refl False "3.prems"(1) V(1) a] V(2) by auto
  qed
next
  case (4 ac w depth tot cache used)
  then show ?case using add_weight_le [of tot "ww_Weight w"] by (auto simp: VisitWaitWeight_def split: if_splits)
next
  case (5 ac k depth tot cache used)
  then show ?case using add_weight_le [of tot "kw_Weight k"] key_index_Some [of "kw_Key k" "ProvidedKeys ac" 0]
    by (auto simp: rbind_Inr_iff VisitKeyWeight_def split: option.splits if_splits)
next
  case (6 ac a depth tot cache used)
  then show ?case by simp
next
  case (7 ac p depth tot cache used)
  let ?l = "plw_Permission p"
  show ?case
  proof (cases "PermissionStatusInCache cache ?l")
    case PermissionSatisfied
    then show ?thesis using "7.prems" cache_ok_status [OF "7.prems"(2), of ?l] add_weight_le [of tot "plw_Weight p"]
      by (auto simp: VisitPermissionLevelWeight.simps)
  next
    case NoStatus
    consider (deep) "\<not> depth < RecursionDepthLimit ac" | (missing) e where "depth < RecursionDepthLimit ac" "permissionToAuthority ac ?l = Inl e"
      | (found) auth where "depth < RecursionDepthLimit ac" "permissionToAuthority ac ?l = Inr auth"
      by (cases "permissionToAuthority ac ?l") auto
    then show ?thesis
    proof cases
      case (found auth)
      let ?c = "AList.update ?l BeingEvaluated cache"
      obtain r c u where sat: "(if Threshold auth = 0 then Inr (False, cache, used) else SatisfiedAcd ac auth (depth + 1) ?c used) = Inr (r, c, u)"
        and res: "tot' = (if r then tot + ucast (plw_Weight p) else tot)"
          "cache' = AList.update ?l (if r then PermissionSatisfied else PermissionUnsatisfied) c"
        using "7.prems"(3) unfolding Visit_found [OF NoStatus found] rbind_Inr_iff by (auto simp: prod_eq_iff)
      have ok: "cache_ok ac c \<and> (r \<longrightarrow> granted ac ?l)"
      proof (cases "Threshold auth = 0")
        case True
        then show ?thesis using sat "7.prems"(2) by simp
      next
        case False
        then have s: "SatisfiedAcd ac auth (depth + 1) ?c used = Inr (r, c, u)" using sat by simp
        have "cache_ok ac ?c" by (rule cache_ok_update [OF "7.prems"(2)]) simp
        from "7.IH" [OF NoStatus found(1, 2) False "7.prems"(1) this s]
        show ?thesis using granted.authority [OF found(2), of "granted ac"] False by blast
      qed
      have "Permission ?l \<noteq> 0" using lookup_okD(1) [OF "7.prems"(1) found(2)] by (simp add: level_ok_def)
      then show ?thesis using res ok add_weight_le [of tot "plw_Weight p"] by (auto intro!: cache_ok_update split: if_splits)
    qed (use "7.prems" NoStatus in \<open>auto simp: VisitPermissionLevelWeight.simps split: if_splits\<close>)
  qed (use "7.prems" in \<open>auto simp: VisitPermissionLevelWeight.simps\<close>)
qed

section \<open>Totality\<close>

definition keys_grow :: "bool list \<Rightarrow> bool list \<Rightarrow> bool" where
  "keys_grow used used' \<longleftrightarrow> list_all2 (\<longrightarrow>) used used'"

lemma keys_grow_refl [simp]: "keys_grow u u"
  by (simp add: keys_grow_def list_all2_refl)

lemma keys_grow_trans: "keys_grow u v \<Longrightarrow> keys_grow v w \<Longrightarrow> keys_grow u w"
  unfolding keys_grow_def by (rule list_all2_trans [of "(\<longrightarrow>)" "(\<longrightarrow>)" "(\<longrightarrow>)"]) auto

lemma keys_grow_length: "keys_grow u v \<Longrightarrow> length v = length u"
  by (simp add: keys_grow_def list_all2_lengthD)

lemma keys_grow_set: "keys_grow u (u[i := True])"
  by (cases "i < length u") (auto simp: keys_grow_def list_all2_conv_all_nth nth_list_update list_update_beyond)

lemma checker_total:
  shows "lookup_ok ac \<Longrightarrow> length used = length (ProvidedKeys ac) \<Longrightarrow>
      (\<exists>r c u. SatisfiedAcd ac auth depth cache used = Inr (r, c, u) \<and> keys_grow used u \<and> (r \<or> u = used)) \<or>
      SatisfiedAcd ac auth depth cache used = Inl InvalidPermission \<and> \<not> (authorities_ok ac \<and> (\<forall>m\<in>set (metaPermission auth). meta_ok m))"
    and "lookup_ok ac \<Longrightarrow> length used = length (ProvidedKeys ac) \<Longrightarrow>
      (\<exists>r c u. visit_all ac ms thr depth tot cache used = Inr (r, c, u) \<and> keys_grow used u) \<or>
      visit_all ac ms thr depth tot cache used = Inl InvalidPermission \<and> \<not> (authorities_ok ac \<and> (\<forall>m\<in>set ms. meta_ok m))"
    and "lookup_ok ac \<Longrightarrow> length used = length (ProvidedKeys ac) \<Longrightarrow>
      (\<exists>t c u. Visit ac m depth tot cache used = Inr (t, c, u) \<and> keys_grow used u) \<or>
      Visit ac m depth tot cache used = Inl InvalidPermission \<and> \<not> (authorities_ok ac \<and> meta_ok m)"
    and "lookup_ok ac \<Longrightarrow> length used = length (ProvidedKeys ac) \<Longrightarrow>
      (\<exists>t c u. VisitPermissionLevelWeight ac p depth tot cache used = Inr (t, c, u) \<and> keys_grow used u \<and> (t = tot \<longrightarrow> plw_Weight p \<noteq> 0 \<longrightarrow> u = used)) \<or>
      VisitPermissionLevelWeight ac p depth tot cache used = Inl InvalidPermission \<and> \<not> (authorities_ok ac \<and> level_ok (plw_Permission p))"
proof (induction ac auth depth cache used and ac ms thr depth tot cache used and ac m depth tot cache used and ac p depth tot cache used
    rule: SatisfiedAcd_visit_all_Visit_VisitPermissionLevelWeight.induct)
  case (1 ac authority depth cache used)
  from "1.IH" [OF "1.prems"] show ?case by (auto simp: SatisfiedAcd.simps)
next
  case (3 ac m ms threshold depth tot cache used)
  from "3.IH"(1) [OF "3.prems"] show ?case
  proof (elim disjE)
    assume "\<exists>t c u. Visit ac m depth tot cache used = Inr (t, c, u) \<and> keys_grow used u"
    then obtain t c u where v: "Visit ac m depth tot cache used = Inr (t, c, u)" "keys_grow used u" by blast
    show ?thesis
    proof (cases "t \<ge> threshold")
      case False
      have "length u = length (ProvidedKeys ac)" using "3.prems"(2) keys_grow_length [OF v(2)] by simp
      from "3.IH"(2) [OF v(1) refl refl False "3.prems"(1) this] show ?thesis
        using v False keys_grow_trans [OF v(2)] by auto
    qed (use v in \<open>auto intro: exI [of _ True]\<close>)
  qed auto
next
  case (5 ac k depth tot cache used)
  show ?case
  proof (cases "key_index (kw_Key k) (ProvidedKeys ac) 0")
    case (Some i)
    then show ?thesis using "5.prems" key_index_Some [OF Some] by (simp add: VisitKeyWeight_def keys_grow_set)
  qed (simp add: VisitKeyWeight_def)
next
  case (6 ac a depth tot cache used)
  then show ?case by (auto simp: meta_ok_def)
next
  case (7 ac p depth tot cache used)
  let ?l = "plw_Permission p"
  show ?case
  proof (cases "PermissionStatusInCache cache ?l")
    case NoStatus
    consider (deep) "\<not> depth < RecursionDepthLimit ac" | (missing) e where "depth < RecursionDepthLimit ac" "permissionToAuthority ac ?l = Inl e"
      | (found) auth where "depth < RecursionDepthLimit ac" "permissionToAuthority ac ?l = Inr auth"
      by (cases "permissionToAuthority ac ?l") auto
    then show ?thesis
    proof cases
      case (missing e)
      from lookup_okD(2) [OF "7.prems"(1) missing(2)] show ?thesis using missing NoStatus by (simp add: VisitPermissionLevelWeight.simps)
    next
      case (found auth)
      let ?s = "if Threshold auth = 0 then Inr (False, cache, used) else SatisfiedAcd ac auth (depth + 1) (AList.update ?l BeingEvaluated cache) used"
      have "(\<exists>r c u. ?s = Inr (r, c, u) \<and> keys_grow used u \<and> (r \<or> u = used)) \<or>
          ?s = Inl InvalidPermission \<and> \<not> (authorities_ok ac \<and> (\<forall>m\<in>set (metaPermission auth). meta_ok m))"
        using "7.IH" [OF NoStatus found] "7.prems" by (cases "Threshold auth = 0") (auto intro: exI [of _ False])
      then show ?thesis
      proof (elim disjE)
        assume "\<exists>r c u. ?s = Inr (r, c, u) \<and> keys_grow used u \<and> (r \<or> u = used)"
        then obtain r c u where sat: "?s = Inr (r, c, u)" "keys_grow used u" "r \<or> u = used" by blast
        have "tot + ucast (plw_Weight p) \<noteq> tot" if "plw_Weight p \<noteq> 0"
          using that unat_ucast16 [of "plw_Weight p"] by (metis add_cancel_left_right unat_0 unat_eq_0)
        then show ?thesis unfolding Visit_found [OF NoStatus found] sat(1) using sat(2, 3) by auto
      next
        assume s: "?s = Inl InvalidPermission \<and> \<not> (authorities_ok ac \<and> (\<forall>m\<in>set (metaPermission auth). meta_ok m))"
        then have "\<not> authorities_ok ac" using found(2) unfolding authorities_ok_def by blast
        then show ?thesis unfolding Visit_found [OF NoStatus found] s [THEN conjunct1] by simp
      qed
    qed (use NoStatus in \<open>simp add: VisitPermissionLevelWeight.simps\<close>)
  qed (simp_all add: VisitPermissionLevelWeight.simps)
qed (auto intro: exI [of _ False])

section \<open>Exactness\<close>

abbreviation all_weights :: "meta list \<Rightarrow> nat" where
  "all_weights \<equiv> meta_sum (\<lambda>_. True)"

lemma meta_sum_le: "meta_sum P ms \<le> all_weights ms"
  by (induction ms) auto

lemma Visit_leaf:
  assumes "\<forall>a. m \<noteq> MAccount a" "unat tot + unat (meta_weight m) < 2 ^ 32" "length used = length (ProvidedKeys ac)"
  obtains t u where "Visit ac m depth tot cache used = Inr (t, cache, u)" "unat t = unat tot + meta_sum (carries ac G) [m]"
    "length u = length (ProvidedKeys ac)"
proof (cases m)
  case (MWait w)
  then show ?thesis using assms that by (simp add: VisitWaitWeight_def unat_add_mod unat_ucast16)
next
  case (MKey k)
  show ?thesis
  proof (cases "key_index (kw_Key k) (ProvidedKeys ac) 0")
    case None
    then show ?thesis using assms MKey that key_index_None [OF None] by (simp add: VisitKeyWeight_def)
  next
    case (Some i)
    then show ?thesis using assms MKey that key_index_Some [OF Some] by (simp add: VisitKeyWeight_def unat_add_mod unat_ucast16)
  qed
next
  case (MAccount a)
  then show ?thesis using assms(1) by simp
qed

lemma visit_all_leaves:
  assumes "\<forall>m\<in>set ms. \<forall>a. m \<noteq> MAccount a" "unat tot + all_weights ms < 2 ^ 32" "length used = length (ProvidedKeys ac)"
  shows "\<exists>u. visit_all ac ms thr depth tot cache used =
    Inr (ms \<noteq> [] \<and> unat thr \<le> unat tot + meta_sum (carries ac G) ms, cache, u)"
  using assms
proof (induction ms arbitrary: tot used)
  case (Cons m ms)
  obtain t u where v: "Visit ac m depth tot cache used = Inr (t, cache, u)" "unat t = unat tot + meta_sum (carries ac G) [m]"
      "length u = length (ProvidedKeys ac)"
    by (rule Visit_leaf [where m = m and tot = tot and used = used and ac = ac]) (use Cons.prems in auto)
  show ?case
  proof (cases "t \<ge> thr")
    case True
    then show ?thesis using v by (simp add: word_le_nat_alt)
  next
    case False
    have "unat t + all_weights ms < 2 ^ 32" using v(2) Cons.prems(2) by (simp split: if_splits)
    then obtain u' where "visit_all ac ms thr depth t cache u = Inr (ms \<noteq> [] \<and> unat thr \<le> unat t + meta_sum (carries ac G) ms, cache, u')"
      using Cons.IH [of t u] Cons.prems(1) v(3) by auto
    moreover have "\<not> unat thr \<le> unat t" using False by (simp add: word_le_nat_alt)
    ultimately show ?thesis using v False by (cases "ms = []") (simp_all add: add.assoc)
  qed
qed simp

lemma metaPermission_leaves: "auth_Accounts auth = [] \<Longrightarrow> \<forall>m\<in>set (Sort (metaPermission auth)). \<forall>a. m \<noteq> MAccount a"
  by (auto simp: metaPermission_def)

lemma SatisfiedAcd_leaf:
  assumes "auth_Accounts auth = []" "all_weights (metaPermission auth) < 2 ^ 32" "length used = length (ProvidedKeys ac)" "Threshold auth \<noteq> 0"
  shows "\<exists>u. SatisfiedAcd ac auth depth cache used = Inr (unat (Threshold auth) \<le> meta_sum (carries ac G) (metaPermission auth), cache, u)"
proof -
  have "\<exists>u. visit_all ac (Sort (metaPermission auth)) (Threshold auth) depth 0 cache used =
      Inr (Sort (metaPermission auth) \<noteq> [] \<and> unat (Threshold auth) \<le> unat (0 :: u32) + meta_sum (carries ac G) (Sort (metaPermission auth)), cache, u)"
    by (rule visit_all_leaves [OF metaPermission_leaves [OF assms(1)]]) (use assms(2, 3) in simp_all)
  moreover have "unat (Threshold auth) \<le> meta_sum (carries ac G) (metaPermission auth) \<Longrightarrow> Sort (metaPermission auth) \<noteq> []"
    using assms(4) by (cases "metaPermission auth") (simp_all add: unat_eq_0)
  ultimately show ?thesis by (auto simp: SatisfiedAcd.simps)
qed

section \<open>Validation\<close>

lemma add_weights_spec:
  "add_weights lt w prev xs acc =
     (if successively lt (case prev of None \<Rightarrow> xs | Some p \<Rightarrow> p # xs) then Some (acc + sum_list (map (\<lambda>x. ucast (w x)) xs)) else None)"
proof (induction xs arbitrary: prev acc)
  case Nil
  then show ?case by (cases prev) simp_all
next
  case (Cons x xs)
  then show ?case by (cases prev) (simp_all add: add.assoc)
qed

lemma sum_weights_word:
  assumes "unat acc + 65535 * length xs < 2 ^ 32"
  shows "unat (acc + sum_list (map (\<lambda>x. ucast (w x :: u16)) xs) :: u32) = unat acc + sum_list (map (\<lambda>x. unat (w x)) xs)"
  using assms
proof (induction xs arbitrary: acc)
  case (Cons x xs)
  have b: "unat (w x) < 65536" by (rule unat_bound16)
  then have a: "unat (acc + ucast (w x)) = unat acc + unat (w x)" using Cons.prems b by (simp add: unat_add_mod unat_ucast16)
  then have "unat (acc + ucast (w x)) + 65535 * length xs < 2 ^ 32" using Cons.prems b by simp
  from Cons.IH [OF this] show ?case using a by (simp add: add.assoc)
qed simp

lemma sum_list_bound16: "sum_list (map (\<lambda>x. unat (f x :: u16)) xs) \<le> 65535 * length xs"
proof (induction xs)
  case (Cons x xs)
  show ?case using Cons unat_bound16 [of "f x"] by simp
qed simp

lemma all_weights_metaPermission:
  "all_weights (metaPermission auth) = sum_list (map (\<lambda>k. unat (kw_Weight k)) (auth_Keys auth)) +
     sum_list (map (\<lambda>a. unat (plw_Weight a)) (auth_Accounts auth)) + sum_list (map (\<lambda>w. unat (ww_Weight w)) (auth_Waits auth))"
  by (simp add: metaPermission_def meta_sum_def comp_def)

lemma all_weights_bound: "all_weights ms \<le> 65535 * length ms"
proof (induction ms)
  case (Cons m ms)
  show ?case using Cons unat_bound16 [of "meta_weight m"] by simp
qed simp

definition in_order :: "SharedAuthority \<Rightarrow> bool" where
  "in_order auth \<longleftrightarrow>
     successively (\<lambda>p k. ComparePubKey (kw_Key p) (kw_Key k) = - 1) (auth_Keys auth) \<and>
     successively (\<lambda>p a. ComparePermissionLevel (plw_Permission p) (plw_Permission a) = - 1) (auth_Accounts auth) \<and>
     successively (\<lambda>p w. WaitSec p < WaitSec w) (auth_Waits auth)"

lemma Validate_spec:
  "Authority_Validate auth \<longleftrightarrow> length (metaPermission auth) \<le> 65536 \<and> Threshold auth \<noteq> 0 \<and> in_order auth \<and>
     unat (Threshold auth) \<le> all_weights (metaPermission auth)"
proof (cases "length (metaPermission auth) \<le> 65536")
  case True
  let ?k = "sum_list (map (\<lambda>x. ucast (kw_Weight x)) (auth_Keys auth)) :: u32"
    and ?a = "sum_list (map (\<lambda>x. ucast (plw_Weight x)) (auth_Accounts auth)) :: u32"
    and ?w = "sum_list (map (\<lambda>x. ucast (ww_Weight x)) (auth_Waits auth)) :: u32"
  have len: "65535 * length (auth_Keys auth) + 65535 * length (auth_Accounts auth) + 65535 * length (auth_Waits auth) < 2 ^ 32"
    using True by (simp add: metaPermission_def)
  note b = sum_list_bound16
  have 1: "unat (0 + ?k) = sum_list (map (\<lambda>x. unat (kw_Weight x)) (auth_Keys auth))"
    using sum_weights_word [of 0 "auth_Keys auth" kw_Weight] len by simp
  have 2: "unat (0 + ?k + ?a) = sum_list (map (\<lambda>x. unat (kw_Weight x)) (auth_Keys auth)) + sum_list (map (\<lambda>x. unat (plw_Weight x)) (auth_Accounts auth))"
    using sum_weights_word [of "0 + ?k" "auth_Accounts auth" plw_Weight] 1 b [of kw_Weight "auth_Keys auth"] len by simp
  have 3: "unat (0 + ?k + ?a + ?w) = all_weights (metaPermission auth)"
    using sum_weights_word [of "0 + ?k + ?a" "auth_Waits auth" ww_Weight] 2 b [of kw_Weight "auth_Keys auth"] b [of plw_Weight "auth_Accounts auth"] len
    by (simp add: all_weights_metaPermission)
  have thr: "Threshold auth \<le> 0 + ?k + ?a + ?w \<longleftrightarrow> unat (Threshold auth) \<le> all_weights (metaPermission auth)"
    by (simp only: word_le_nat_alt 3)
  have len': "\<not> length (auth_Accounts auth) + length (auth_Keys auth) + length (auth_Waits auth) > 2 ^ 16"
    using True by (simp add: metaPermission_def)
  show ?thesis
    unfolding Authority_Validate_def if_not_P [OF len'] add_weights_spec not_le in_order_def thr [symmetric]
    using True by auto
next
  case False
  then show ?thesis by (auto simp: Authority_Validate_def metaPermission_def)
qed

section \<open>Properties\<close>

lemma SatisfiedLc_visit:
  "SatisfiedLc ac l None used =
     rbind (VisitPermissionLevelWeight ac \<lparr>plw_Permission = l, plw_Weight = 1\<rparr> 0 0 (initializePermissionCache ac) used)
       (\<lambda>(tot, cache, used). Inr (tot > 0, cache, used))"
  by (simp add: SatisfiedLc_def)

lemma init_status:
  assumes "l \<in> set (ProvidedPermissions ac) \<or> l\<lparr>Permission := 0\<rparr> \<in> set (ProvidedPermissions ac)"
  shows "PermissionStatusInCache (initializePermissionCache ac) l = PermissionSatisfied"
proof -
  have "map_of (fold (\<lambda>p. AList.update p PermissionSatisfied) ps c) l =
      (if l \<in> set ps then Some PermissionSatisfied else map_of c l)" for ps c and l :: PermissionLevel
    by (induction ps arbitrary: c) (auto simp: update_conv')
  then show ?thesis using assms by (auto simp: PermissionStatusInCache_def initializePermissionCache_def)
qed

lemma init_status_None:
  assumes "l \<notin> set (ProvidedPermissions ac)" "l\<lparr>Permission := 0\<rparr> \<notin> set (ProvidedPermissions ac)"
  shows "PermissionStatusInCache (initializePermissionCache ac) l = NoStatus"
proof -
  have "map_of (fold (\<lambda>p. AList.update p PermissionSatisfied) ps c) l =
      (if l \<in> set ps then Some PermissionSatisfied else map_of c l)" for ps c and l :: PermissionLevel
    by (induction ps arbitrary: c) (auto simp: update_conv')
  then show ?thesis using assms by (simp add: PermissionStatusInCache_def initializePermissionCache_def)
qed

lemma SatisfiedLc_sound:
  assumes "lookup_ok ac" "length used = length (ProvidedKeys ac)"
  shows "(\<exists>r c u. SatisfiedLc ac l None used = Inr (r, c, u) \<and> (r \<longrightarrow> granted ac l) \<and> keys_grow used u \<and> (\<not> r \<longrightarrow> u = used)) \<or>
      SatisfiedLc ac l None used = Inl InvalidPermission \<and> \<not> (authorities_ok ac \<and> level_ok l)"
proof -
  let ?p = "\<lparr>plw_Permission = l, plw_Weight = 1\<rparr>" and ?c = "initializePermissionCache ac"
  have granted: "t > 0 \<longrightarrow> granted ac l" if "VisitPermissionLevelWeight ac ?p 0 0 ?c used = Inr (t, c, u)" for t c u
  proof -
    have "unat t \<le> unat (0 :: u32) + meta_sum (carries ac (granted ac)) [MAccount ?p]"
      using checker_sound(4) [OF assms(1) cache_ok_init that] by blast
    then show ?thesis by (auto simp: word_less_nat_alt split: if_splits)
  qed
  from checker_total(4) [OF assms, of ?p 0 0 ?c] show ?thesis
  proof (elim disjE)
    assume "\<exists>t c u. VisitPermissionLevelWeight ac ?p 0 0 ?c used = Inr (t, c, u) \<and> keys_grow used u \<and> (t = 0 \<longrightarrow> plw_Weight ?p \<noteq> 0 \<longrightarrow> u = used)"
    then obtain t c u where "VisitPermissionLevelWeight ac ?p 0 0 ?c used = Inr (t, c, u)" "keys_grow used u" "t = 0 \<longrightarrow> u = used" by auto
    then show ?thesis using granted unfolding SatisfiedLc_visit by (auto simp: word_neq_0_conv)
  qed (simp add: SatisfiedLc_visit)
qed

text \<open>An account whose owner key is nested in the active permission of another, up to the first depth.\<close>

definition sample_key :: PublicKey where
  "sample_key = \<lparr>Curve = 0, KeyContent = replicate 33 7\<rparr>"

definition sample_lookup :: "PermissionLevel \<Rightarrow> SharedAuthority result" where
  "sample_lookup l =
     (if l = \<lparr>Actor = 1, Permission = 5\<rparr>
      then Inr \<lparr>Threshold = 3, auth_Keys = [], auth_Accounts = [\<lparr>plw_Permission = \<lparr>Actor = 2, Permission = 5\<rparr>, plw_Weight = 2\<rparr>],
                auth_Waits = [\<lparr>WaitSec = 10, ww_Weight = 1\<rparr>]\<rparr>
      else if l = \<lparr>Actor = 2, Permission = 5\<rparr> then Inr (NewAuthority sample_key 0)
      else if level_ok l then Inl PermissionQueryException else Inl InvalidPermission)"

definition sample_checker :: AuthorityChecker where
  "sample_checker = fst (MakeAuthChecker sample_lookup 6 [sample_key] [] (Seconds 10))"

lemma sample_lookup_ok: "lookup_ok sample_checker"
  by (auto simp: lookup_ok_def level_ok_def sample_checker_def MakeAuthChecker_def sample_lookup_def split: if_splits)

text \<open>
  C4. The checker grants only what is carried. Whatever authorities an account names, also in a
  circle, the check ends. If it says yes, the permission is provided, or its account is provided as a
  whole, or keys, delay and granted permissions outweigh its authority, in a finite derivation. Keys are
  marked as used only, and none is marked by a check that says no. The one exception it raises
  is that of an invalid permission, and only if the level asked for or one that an authority names has an empty part.
  A provided permission is always accepted.
\<close>

theorem checker_grants:
  assumes "lookup_ok ac" "length used = length (ProvidedKeys ac)"
  shows "((\<exists>r c u. SatisfiedLc ac l None used = Inr (r, c, u) \<and> (r \<longrightarrow> granted ac l) \<and> keys_grow used u \<and> (\<not> r \<longrightarrow> u = used)) \<or>
      SatisfiedLc ac l None used = Inl InvalidPermission \<and> \<not> (authorities_ok ac \<and> level_ok l)) \<and>
    (l \<in> set (ProvidedPermissions ac) \<or> l\<lparr>Permission := 0\<rparr> \<in> set (ProvidedPermissions ac) \<longrightarrow>
      (\<exists>c. SatisfiedLc ac l None used = Inr (True, c, used)))"
proof
  show "l \<in> set (ProvidedPermissions ac) \<or> l\<lparr>Permission := 0\<rparr> \<in> set (ProvidedPermissions ac) \<longrightarrow>
      (\<exists>c. SatisfiedLc ac l None used = Inr (True, c, used))"
    using init_status [of l ac] by (auto simp: SatisfiedLc_visit VisitPermissionLevelWeight.simps)
qed (rule SatisfiedLc_sound [OF assms])

theorem checker_grants_witness:
  "granted sample_checker \<lparr>Actor = 1, Permission = 5\<rparr>"
proof -
  have "map_sum id fst (SatisfiedLc sample_checker \<lparr>Actor = 1, Permission = 5\<rparr> None [False]) = Inr True" by code_simp
  moreover have "length [False] = length (ProvidedKeys sample_checker)" by code_simp
  ultimately show ?thesis using checker_grants [OF sample_lookup_ok, of "[False]" "\<lparr>Actor = 1, Permission = 5\<rparr>"] by auto
qed

text \<open>
  C36. For a validated authority of keys and delays only the check is exact: it says yes if and only if
  the weights of the provided keys and delays reach the threshold.
\<close>

theorem leaf_authority_exact:
  assumes "permissionToAuthority ac l = Inr auth" "Authority_Validate auth" "auth_Accounts auth = []"
    "length used = length (ProvidedKeys ac)" "0 < RecursionDepthLimit ac"
    "l \<notin> set (ProvidedPermissions ac)" "l\<lparr>Permission := 0\<rparr> \<notin> set (ProvidedPermissions ac)"
  shows "\<exists>c u. SatisfiedLc ac l None used =
    Inr (unat (Threshold auth) \<le> meta_sum (carries ac (\<lambda>_. False)) (metaPermission auth), c, u)"
proof -
  have v: "length (metaPermission auth) \<le> 65536" "Threshold auth \<noteq> 0" using assms(2) by (simp_all add: Validate_spec)
  have "all_weights (metaPermission auth) < 2 ^ 32" using all_weights_bound [of "metaPermission auth"] v(1) by simp
  from SatisfiedAcd_leaf [OF assms(3) this assms(4) v(2), of 1 _ "\<lambda>_. False"]
  obtain u where u: "SatisfiedAcd ac auth 1 (AList.update l BeingEvaluated (initializePermissionCache ac)) used =
      Inr (unat (Threshold auth) \<le> meta_sum (carries ac (\<lambda>_. False)) (metaPermission auth),
           AList.update l BeingEvaluated (initializePermissionCache ac), u)" by blast
  let ?p = "\<lparr>plw_Permission = l, plw_Weight = 1\<rparr>"
  have n: "PermissionStatusInCache (initializePermissionCache ac) (plw_Permission ?p) = NoStatus" "permissionToAuthority ac (plw_Permission ?p) = Inr auth"
    using init_status_None [OF assms(6, 7)] assms(1) by simp_all
  show ?thesis unfolding SatisfiedLc_visit Visit_found [OF n(1) assms(5) n(2)] using u v(2) by simp
qed

theorem leaf_authority_exact_witness:
  "\<exists>c u. SatisfiedLc sample_checker \<lparr>Actor = 2, Permission = 5\<rparr> None [False] = Inr (True, c, u)"
proof -
  have "permissionToAuthority sample_checker \<lparr>Actor = 2, Permission = 5\<rparr> = Inr (NewAuthority sample_key 0)"
    "auth_Accounts (NewAuthority sample_key 0) = []" "length [False] = length (ProvidedKeys sample_checker)" "0 < RecursionDepthLimit sample_checker" by code_simp+
  moreover have "Authority_Validate (NewAuthority sample_key 0)"
    by (simp add: Validate_spec NewAuthority_def metaPermission_def in_order_def)
  moreover have "ProvidedPermissions sample_checker = []" by code_simp
  moreover have "unat (Threshold (NewAuthority sample_key 0)) \<le> meta_sum (carries sample_checker (\<lambda>_. False)) (metaPermission (NewAuthority sample_key 0))"
    by (simp add: NewAuthority_def metaPermission_def sample_checker_def MakeAuthChecker_def)
  ultimately show ?thesis using leaf_authority_exact [of sample_checker "\<lparr>Actor = 2, Permission = 5\<rparr>" "NewAuthority sample_key 0" "[False]"] by simp
qed

text \<open>
  An authority is valid exactly if it has at most 65536 entries, a positive threshold, its keys, accounts and
  delays strictly in order, and weights that reach the threshold: within this size the 32-bit sum of
  the 16-bit weights cannot wrap.
\<close>

theorem validate_exact:
  "Authority_Validate auth \<longleftrightarrow> length (metaPermission auth) \<le> 65536 \<and> Threshold auth \<noteq> 0 \<and> in_order auth \<and>
     unat (Threshold auth) \<le> meta_sum (\<lambda>_. True) (metaPermission auth)"
  by (rule Validate_spec)

text \<open>
  The double loop that orders the entries of an authority is the stable sort by weight, greatest
  first. The types of the entries, which the comparison means to use between equal weights, play no
  part: delays stay before keys and keys before accounts.
\<close>

theorem visit_order: "Sort m = sort_key (\<lambda>p. - uint (meta_weight p)) m"
  by (rule Sort_sort_key)

end
