(* ===== verification/Eos_AuthorizationLaws.thy ===== *)
theory Eos_AuthorizationLaws
  imports Eos_Authorization Eos_AuthorityLaws
begin

text \<open>
  Laws of the authorization manager. The permissions of an account form a tree, which every
  operation keeps; on such a tree \<open>Satisfies\<close> returns and decides whether a permission stands above
  another. A transaction whose authorizations are accepted has each of them granted and at or above the
  permission its action requires. \<open>RemovePermission\<close> is exact about what it refuses.
\<close>

section \<open>Look-up\<close>

lemma checker_fields [simp]:
  "permissionToAuthority (fst (MakeAuthChecker pta d keys perms delay)) = pta"
  "ProvidedKeys (fst (MakeAuthChecker pta d keys perms delay)) = keys"
  "ProvidedPermissions (fst (MakeAuthChecker pta d keys perms delay)) = perms"
  "ProvidedDelay (fst (MakeAuthChecker pta d keys perms delay)) = delay"
  "snd (MakeAuthChecker pta d keys perms delay) = replicate (length keys) False"
  by (simp_all add: MakeAuthChecker_def)

text \<open>The look-up of the manager is the one that the laws of the checker ask for.\<close>

lemma manager_lookup_ok: "permissionToAuthority ac = permission_authority db \<Longrightarrow> lookup_ok ac"
  by (auto simp: lookup_ok_def level_ok_def permission_authority_def GetPermission_def eos_assert_def split: option.splits)

lemma GetPermission_Inr: "GetPermission l db = Inr po \<longleftrightarrow> level_ok l \<and> find_key (0, Actor l, Permission l) (permTable db) = Some po"
  by (auto simp: GetPermission_def eos_assert_def level_ok_def split: option.splits)

section \<open>Permission tree\<close>

text \<open>
  A parent is older than its children. Id 0 is no special object: the first permission that is
  created has it, and it is also what a permission without parent carries.
\<close>

definition tree_ok :: "(nat \<times> u64 \<times> u64, PermissionObject) table \<Rightarrow> bool" where
  "tree_ok t \<longleftrightarrow> table_ok permissionSchema t \<and>
     (\<forall>i v. rowsOf t i = Some v \<longrightarrow> po_Parent v = 0 \<or> unat (po_Parent v) < unat i \<and> rowsOf t (po_Parent v) \<noteq> None)"

inductive above :: "(nat \<times> u64 \<times> u64, PermissionObject) table \<Rightarrow> u64 \<Rightarrow> PermissionObject \<Rightarrow> bool" for t where
  self: "above t (po_ID v) v"
| up: "po_Parent v \<noteq> 0 \<Longrightarrow> rowsOf t (po_Parent v) = Some p \<Longrightarrow> above t i p \<Longrightarrow> above t i v"

inductive_simps above_iff: "above t i v"

lemma permission_id [simp]: "getId permissionSchema v = po_ID v"
  by (simp add: permissionSchema_def)

lemma tree_okD:
  assumes "tree_ok t" "rowsOf t i = Some v"
  shows "po_ID v = i" "po_Parent v = 0 \<or> unat (po_Parent v) < unat i \<and> rowsOf t (po_Parent v) \<noteq> None"
  using assms consistentD(1) [OF table_okD(1), of permissionSchema t i v] by (auto simp: tree_ok_def)

lemma LowerBound_id_spec:
  "LowerBound_id i t =
     (let S = {x \<in> dom (rowsOf t). i \<le> x} in if S = {} then None else rowsOf t (Min S))"
proof -
  have eq: "{x \<in> dom (rowsOf t). i \<le> x} = set (filter (\<lambda>x. i \<le> x) (map fst (tbl_rows t)))"
    by (auto simp: rowsOf_def dom_map_of_conv_image_fst)
  show ?thesis
    by (cases "filter (\<lambda>x. i \<le> x) (map fst (tbl_rows t))")
      (simp_all only: LowerBound_id_def eq Let_def list.case Min.set_eq_fold find_id_maps set_empty if_True refl list.distinct if_False)
qed

lemma LowerBound_id_found: "rowsOf t i = Some v \<Longrightarrow> LowerBound_id i t = Some v"
proof -
  assume v: "rowsOf t i = Some v"
  have "finite (dom (rowsOf t))" by (simp add: rowsOf_def finite_dom_map_of)
  then have "Min {x \<in> dom (rowsOf t). i \<le> x} = i" using v by (intro Min_eqI) auto
  then show ?thesis using v by (auto simp: LowerBound_id_spec Let_def)
qed

lemma LowerBound_id_first:
  assumes "tree_ok t" "rowsOf t i = Some v"
  obtains w where "LowerBound_id 0 t = Some w" "po_Parent w = 0"
proof -
  let ?m = "Min (dom (rowsOf t))"
  have fin: "finite (dom (rowsOf t))" by (simp add: rowsOf_def finite_dom_map_of)
  moreover have ne: "dom (rowsOf t) \<noteq> {}" using assms(2) by auto
  ultimately have "?m \<in> dom (rowsOf t)" by (rule Min_in)
  then obtain w where w: "rowsOf t ?m = Some w" by blast
  have "po_Parent w = 0"
  proof (rule ccontr)
    assume "po_Parent w \<noteq> 0"
    then have p: "unat (po_Parent w) < unat ?m" "po_Parent w \<in> dom (rowsOf t)" using tree_okD(2) [OF assms(1) w] by auto
    from Min_le [OF fin p(2)] p(1) show False by (simp add: word_le_nat_alt)
  qed
  moreover have "LowerBound_id 0 t = Some w" using w ne by (simp add: LowerBound_id_spec Let_def)
  ultimately show ?thesis using that by blast
qed

lemma Satisfies_loop_spec:
  assumes "tree_ok t" "rowsOf t i = Some v"
  shows "Satisfies_loop po t v =
    Some (po_ID po = 0 \<or> po_Parent v \<noteq> 0 \<and> (\<exists>p. rowsOf t (po_Parent v) = Some p \<and> above t (po_ID po) p))"
  using assms(2)
proof (induction "unat i" arbitrary: i v rule: less_induct)
  case less
  show ?case
  proof (cases "po_Parent v = 0")
    case True
    then show ?thesis unfolding Satisfies_loop.simps [of po t v] by simp
  next
    case False
    then obtain p where p: "unat (po_Parent v) < unat i" "rowsOf t (po_Parent v) = Some p"
      using tree_okD(2) [OF assms(1) less.prems] by auto
    have pid: "po_ID p = po_Parent v" by (rule tree_okD(1) [OF assms(1) p(2)])
    show ?thesis
    proof (cases "po_ID po = po_Parent v")
      case True
      then have "above t (po_ID po) p" using above.self [of t p] pid by simp
      then show ?thesis unfolding Satisfies_loop.simps [of po t v] using True False p(2) by simp
    next
      case ne: False
      have "Satisfies_loop po t v = Satisfies_loop po t p"
        unfolding Satisfies_loop.simps [of po t v] using ne False by (simp add: LowerBound_id_found [OF p(2)] found_def)
      also have "\<dots> = Some (po_ID po = 0 \<or> above t (po_ID po) p)"
        unfolding less.hyps [OF p(1) p(2)] above_iff [of t "po_ID po" p] using ne pid by auto
      finally show ?thesis using False p(2) by simp
    qed
  qed
qed

lemma Satisfies_spec:
  assumes "tree_ok t" "rowsOf t i = Some other"
  shows "Satisfies po other t = Some (po_Owner po = po_Owner other \<and> (po_ID po = 0 \<or> above t (po_ID po) other))"
proof (cases "po_Owner po \<noteq> po_Owner other \<or> po_ID po = po_ID other")
  case True
  then show ?thesis by (auto simp: Satisfies_def above_iff [of t "po_ID po" other])
next
  case f: False
  show ?thesis
  proof (cases "po_Parent other = 0")
    case True
    obtain w where w: "LowerBound_id 0 t = Some w" "po_Parent w = 0" by (rule LowerBound_id_first [OF assms])
    have "Satisfies_loop po t w = Some (po_ID po = 0)" unfolding Satisfies_loop.simps [of po t w] using w(2) by simp
    then show ?thesis using f True w(1) by (auto simp: Satisfies_def found_def above_iff [of t "po_ID po" other])
  next
    case False
    then obtain p where p: "rowsOf t (po_Parent other) = Some p" using tree_okD(2) [OF assms] by auto
    have pid: "po_ID p = po_Parent other" by (rule tree_okD(1) [OF assms(1) p])
    have a: "above t (po_ID po) other \<longleftrightarrow> above t (po_ID po) p" using f False p by (auto simp: above_iff [of t "po_ID po" other])
    show ?thesis
    proof (cases "po_ID po = po_Parent other")
      case True
      then have "above t (po_ID po) p" using above.self [of t p] pid by simp
      then show ?thesis using True f a by (simp add: Satisfies_def)
    next
      case ne: False
      then have "Satisfies po other t = Satisfies_loop po t p"
        using f by (simp add: Satisfies_def LowerBound_id_found [OF p] found_def)
      then show ?thesis unfolding Satisfies_loop_spec [OF assms(1) p] a above_iff [of t "po_ID po" p] using f ne pid by auto
    qed
  qed
qed

section \<open>Children\<close>

lemma LowerBound_key_spec:
  "LowerBound_key k t = (let S = {x \<in> dom (idsOf t). k \<le> x} in if S = {} then None else Some (Min S))"
proof -
  have eq: "{x \<in> dom (idsOf t). k \<le> x} = set (filter (\<lambda>x. k \<le> x) (map fst (tbl_index t)))"
    by (auto simp: idsOf_def dom_map_of_conv_image_fst)
  show ?thesis
    by (cases "filter (\<lambda>x. k \<le> x) (map fst (tbl_index t))")
      (simp_all only: LowerBound_key_def eq Let_def list.case Min.set_eq_fold set_empty if_True refl list.distinct if_False)
qed

lemma permission_keys:
  assumes "consistent permissionSchema t"
  shows "k \<in> dom (idsOf t) \<longleftrightarrow> (\<exists>i v. rowsOf t i = Some v \<and>
    (k = (0, po_Owner v, po_Name v) \<or> k = (1, po_Parent v, i) \<or> k = (2, i, po_Name v)))"
proof -
  have "k \<in> dom (idsOf t) \<longleftrightarrow> (\<exists>i v. rowsOf t i = Some v \<and> k \<in> set (keysOf permissionSchema v))"
    unfolding dom_def mem_Collect_eq not_None_eq using consistentD(2) [OF assms, of k] by blast
  moreover have "po_ID v = i" if "rowsOf t i = Some v" for i v using consistentD(1) [OF assms that] by simp
  ultimately show ?thesis by (auto simp: permissionSchema_def)
qed

lemma no_later_child:
  assumes "consistent permissionSchema t"
  shows "(case LowerBound_key (1, j, 0) t of None \<Rightarrow> True | Some k \<Rightarrow> fst k \<noteq> 1) \<longleftrightarrow> \<not> (\<exists>i v. rowsOf t i = Some v \<and> j \<le> po_Parent v)"
proof -
  let ?S = "{x \<in> dom (idsOf t). (1, j, 0) \<le> x}"
  have fin: "finite ?S" by (simp add: idsOf_def finite_dom_map_of)
  have one: "(\<exists>x\<in>?S. fst x = 1) \<longleftrightarrow> (\<exists>i v. rowsOf t i = Some v \<and> j \<le> po_Parent v)"
  proof
    assume "\<exists>x\<in>?S. fst x = 1"
    then obtain x where x: "x \<in> dom (idsOf t)" "(1, j, 0) \<le> x" "fst x = 1" by blast
    then obtain i v where v: "rowsOf t i = Some v" "x = (1, po_Parent v, i)" using permission_keys [OF assms, of x] by auto
    then have "j \<le> po_Parent v" using x(2) by (auto simp: less_eq_prod_def less_prod_def)
    then show "\<exists>i v. rowsOf t i = Some v \<and> j \<le> po_Parent v" using v(1) by blast
  next
    assume "\<exists>i v. rowsOf t i = Some v \<and> j \<le> po_Parent v"
    then obtain i v where v: "rowsOf t i = Some v" "j \<le> po_Parent v" by blast
    then have "(1, po_Parent v, i) \<in> dom (idsOf t)" using permission_keys [OF assms] by blast
    moreover have "(1, j, 0) \<le> (1 :: nat, po_Parent v, i)" using v(2) by (auto simp: less_eq_prod_def less_prod_def)
    ultimately show "\<exists>x\<in>?S. fst x = 1" by force
  qed
  have "fst (Min ?S) = 1 \<longleftrightarrow> (\<exists>x\<in>?S. fst x = 1)" if ne: "?S \<noteq> {}"
  proof
    assume "\<exists>x\<in>?S. fst x = 1"
    then obtain x where "x \<in> ?S" "fst x = 1" by blast
    then have "fst (Min ?S) \<le> 1" using Min_le [OF fin] by (fastforce simp: less_eq_prod_def less_prod_def)
    moreover have "(1, j, 0) \<le> Min ?S" using Min_in [OF fin ne] by blast
    then have "1 \<le> fst (Min ?S)" by (auto simp: less_eq_prod_def less_prod_def)
    ultimately show "fst (Min ?S) = 1" by simp
  qed (use Min_in [OF fin ne] in blast)
  then show ?thesis unfolding LowerBound_key_spec Let_def one [symmetric] by auto
qed

section \<open>Invariant\<close>

text \<open>The permissions form a tree, and each has a usage record of its own.\<close>

definition auth_ok :: "AuthDb \<Rightarrow> bool" where
  "auth_ok db \<longleftrightarrow> tree_ok (permTable db) \<and> table_ok permUsageSchema (permUsageTable db) \<and>
     (\<forall>i v. rowsOf (permTable db) i = Some v \<longrightarrow> rowsOf (permUsageTable db) (UsageId v) \<noteq> None) \<and>
     (\<forall>i v j w. rowsOf (permTable db) i = Some v \<longrightarrow> rowsOf (permTable db) j = Some w \<longrightarrow> UsageId v = UsageId w \<longrightarrow> i = j)"

lemma auth_okD:
  assumes "auth_ok db"
  shows "tree_ok (permTable db)" "table_ok permUsageSchema (permUsageTable db)"
    "rowsOf (permTable db) i = Some v \<Longrightarrow> rowsOf (permUsageTable db) (UsageId v) \<noteq> None"
    "rowsOf (permTable db) i = Some v \<Longrightarrow> rowsOf (permTable db) j = Some w \<Longrightarrow> UsageId v = UsageId w \<Longrightarrow> i = j"
  using assms unfolding auth_ok_def by blast+

lemma auth_okI:
  assumes "tree_ok (permTable db)" "table_ok permUsageSchema (permUsageTable db)"
    "\<And>i v. rowsOf (permTable db) i = Some v \<Longrightarrow> rowsOf (permUsageTable db) (UsageId v) \<noteq> None"
    "\<And>i v j w. rowsOf (permTable db) i = Some v \<Longrightarrow> rowsOf (permTable db) j = Some w \<Longrightarrow> UsageId v = UsageId w \<Longrightarrow> i = j"
  shows "auth_ok db"
  using assms unfolding auth_ok_def by blast

lemma tree_table: "tree_ok t \<Longrightarrow> table_ok permissionSchema t"
  by (simp add: tree_ok_def)

lemma tree_okI:
  assumes "table_ok permissionSchema t"
    "\<And>i v. rowsOf t i = Some v \<Longrightarrow> po_Parent v \<noteq> 0 \<Longrightarrow> unat (po_Parent v) < unat i \<and> rowsOf t (po_Parent v) \<noteq> None"
  shows "tree_ok t"
  using assms unfolding tree_ok_def by blast

lemma usage_id [simp]: "getId permUsageSchema u = pu_ID u" "keysOf permUsageSchema u = []"
  by (simp_all add: permUsageSchema_def)

lemma GetPermission_stored:
  assumes "tree_ok (permTable db)" "GetPermission l db = Inr po"
  shows "rowsOf (permTable db) (po_ID po) = Some po" "po_Owner po = Actor l" "po_Name po = Permission l"
proof -
  have "find_key (0, Actor l, Permission l) (permTable db) = Some po" using assms(2) by (simp add: GetPermission_Inr)
  then have "rowsOf (permTable db) (po_ID po) = Some po \<and> (0, Actor l, Permission l) \<in> set (keysOf permissionSchema po)"
    using find_key_iff [OF table_okD(1) [OF tree_table [OF assms(1)]]] by simp
  then show "rowsOf (permTable db) (po_ID po) = Some po" "po_Owner po = Actor l" "po_Name po = Permission l"
    by (simp_all add: permissionSchema_def)
qed

lemma permission_insert:
  assumes "tree_ok t" "po_Parent v = 0 \<or> rowsOf t (po_Parent v) \<noteq> None" "find_key (0, po_Owner v, po_Name v) t = None"
    "tbl_nextId t + 1 \<noteq> 0" "Insert permissionSchema v t = (v', t')"
  shows "tree_ok t'" "v' = v\<lparr>po_ID := tbl_nextId t\<rparr>" "rowsOf t' = (rowsOf t)(po_ID v' \<mapsto> v')" "rowsOf t (po_ID v') = None"
proof -
  let ?n = "tbl_nextId t"
  note cons = table_okD(1) [OF tree_table [OF assms(1)]]
  have older: "rowsOf t i = Some w \<Longrightarrow> unat i < unat ?n" for i w by (rule table_okD(2) [OF tree_table [OF assms(1)]])
  have free: "idsOf t k = None" if "k \<in> set (keysOf permissionSchema (setId permissionSchema ?n v))" for k
  proof (cases "k = (0, po_Owner v, po_Name v)")
    case True
    then show ?thesis using assms(3) idsOf_find [OF cons] by simp
  next
    case False
    then have k: "k = (1, po_Parent v, ?n) \<or> k = (2, ?n, po_Name v)" using that by (simp add: permissionSchema_def)
    have "k \<notin> dom (idsOf t)" unfolding permission_keys [OF cons] using k older by fastforce
    then show ?thesis by (simp add: domIff)
  qed
  note V = permission_schema.Insert_id_ok [OF tree_table [OF assms(1)] ballI [OF free] assms(4, 5)]
  show v': "v' = v\<lparr>po_ID := ?n\<rparr>" using V(2) by (simp add: permissionSchema_def)
  then show rows: "rowsOf t' = (rowsOf t)(po_ID v' \<mapsto> v')" and "rowsOf t (po_ID v') = None" using V(3, 5) by simp_all
  show "tree_ok t'"
  proof (rule tree_okI [OF V(1)])
    fix i w assume w: "rowsOf t' i = Some w" "po_Parent w \<noteq> 0"
    show "unat (po_Parent w) < unat i \<and> rowsOf t' (po_Parent w) \<noteq> None"
    proof (cases "i = po_ID v'")
      case True
      then have p: "po_Parent w = po_Parent v" "i = ?n" using w(1) rows v' by auto
      then obtain q where "rowsOf t (po_Parent v) = Some q" using assms(2) w(2) by auto
      then show ?thesis using older p rows by auto
    next
      case False
      then have "rowsOf t i = Some w" using w(1) rows by simp
      from tree_okD(2) [OF assms(1) this] w(2) show ?thesis using rows by auto
    qed
  qed
qed

lemma CreatePermission_ok:
  assumes "auth_ok db" "parent = 0 \<or> rowsOf (permTable db) parent \<noteq> None" "find_key (0, account, name) (permTable db) = None"
    "tbl_nextId (permTable db) + 1 \<noteq> 0" "tbl_nextId (permUsageTable db) + 1 \<noteq> 0"
    "CreatePermission env account name parent auth time db = (p, db')"
  shows "auth_ok db'" "rowsOf (permTable db') = (rowsOf (permTable db))(po_ID p \<mapsto> p)" "rowsOf (permTable db) (po_ID p) = None"
proof -
  let ?t = "permTable db" and ?u = "permUsageTable db" and ?ct = "if time = 0 then PendingBlockTime env else time"
  obtain u ut where u: "Insert permUsageSchema \<lparr>pu_ID = 0, LastUsed = ?ct\<rparr> ?u = (u, ut)" by fastforce
  let ?v = "\<lparr>po_Parent = parent, po_ID = 0, UsageId = pu_ID u, po_Owner = account, po_Name = name, LastUpdated = ?ct, po_Auth = auth\<rparr>"
  obtain v pt where v: "Insert permissionSchema ?v ?t = (v, pt)" by fastforce
  have res: "p = v" "db' = db\<lparr>permUsageTable := ut, permTable := pt\<rparr>" using assms(6) u v by (simp_all add: CreatePermission_def Let_def)
  note U = permUsage_schema.Insert_id_ok [OF auth_okD(2) [OF assms(1)] _ assms(5) u, simplified]
  have "po_Parent ?v = 0 \<or> rowsOf ?t (po_Parent ?v) \<noteq> None" "find_key (0, po_Owner ?v, po_Name ?v) ?t = None"
    using assms(2, 3) by simp_all
  note P = permission_insert [OF auth_okD(1) [OF assms(1)] this assms(4) v]
  show rows: "rowsOf (permTable db') = (rowsOf ?t)(po_ID p \<mapsto> p)" and "rowsOf ?t (po_ID p) = None" using P(3, 4) by (simp_all add: res)
  have uid: "pu_ID u = tbl_nextId ?u" "UsageId p = tbl_nextId ?u" using U(2) P(2) by (simp_all add: permUsageSchema_def res)
  show "auth_ok db'"
  proof (rule auth_okI)
    show "tree_ok (permTable db')" "table_ok permUsageSchema (permUsageTable db')" using P(1) U(1) by (simp_all add: res)
    have old: "UsageId w \<noteq> UsageId p" if "rowsOf ?t i = Some w" for i w using auth_okD(3) [OF assms(1) that] U(5) uid by auto
    fix i w assume w: "rowsOf (permTable db') i = Some w"
    show "rowsOf (permUsageTable db') (UsageId w) \<noteq> None"
      using w auth_okD(3) [OF assms(1), of i w] U(3) uid unfolding rows by (auto simp: res(2) split: if_splits)
    fix j x assume x: "rowsOf (permTable db') j = Some x" "UsageId w = UsageId x"
    show "i = j"
    proof (cases "i = po_ID p \<or> j = po_ID p")
      case True
      then show ?thesis using w x old [of i w] old [of j x] unfolding rows by (auto split: if_splits)
    next
      case False
      then show ?thesis using w x auth_okD(4) [OF assms(1), of i w j x] unfolding rows by simp
    qed
  qed
qed

lemma ModifyPermission_ok:
  assumes "auth_ok db" "rowsOf (permTable db) (po_ID po) = Some po" "ModifyPermission env po auth db = (po', db')"
  shows "auth_ok db'" "po' = po\<lparr>po_Auth := auth, LastUpdated := PendingBlockTime env\<rparr>"
    "rowsOf (permTable db') = (rowsOf (permTable db))(po_ID po \<mapsto> po')" "permUsageTable db' = permUsageTable db"
proof -
  let ?f = "\<lambda>po. po\<lparr>po_Auth := auth, LastUpdated := PendingBlockTime env\<rparr>" and ?t = "permTable db"
  note tree = auth_okD(1) [OF assms(1)]
  have k: "getId permissionSchema (?f po) = po_ID po" "keysOf permissionSchema (?f po) = keysOf permissionSchema po"
    by (simp_all add: permissionSchema_def)
  note M = permission_schema.Modify_row [where f = ?f, OF tree_table [OF tree] assms(2) k]
  have res: "po' = fst (Modify permissionSchema po ?f ?t)" "db' = db\<lparr>permTable := snd (Modify permissionSchema po ?f ?t)\<rparr>"
    using assms(3) by (simp_all add: ModifyPermission_def split: prod.splits)
  show po': "po' = ?f po" using M(3) res(1) by simp
  show rows: "rowsOf (permTable db') = (rowsOf ?t)(po_ID po \<mapsto> po')" and u: "permUsageTable db' = permUsageTable db"
    using M(2) po' by (simp_all add: res(2))
  have same: "\<exists>w'. rowsOf ?t i = Some w' \<and> po_Parent w' = po_Parent w \<and> UsageId w' = UsageId w" if "rowsOf (permTable db') i = Some w" for i w
    using that assms(2) po' unfolding rows by (auto split: if_splits)
  show "auth_ok db'"
  proof (rule auth_okI)
    show "tree_ok (permTable db')"
    proof (rule tree_okI)
      show "table_ok permissionSchema (permTable db')" using M(1) by (simp add: res(2))
      fix i w assume "rowsOf (permTable db') i = Some w" "po_Parent w \<noteq> 0"
      then obtain w' where "rowsOf ?t i = Some w'" "po_Parent w' = po_Parent w" "po_Parent w \<noteq> 0" using same by blast
      then show "unat (po_Parent w) < unat i \<and> rowsOf (permTable db') (po_Parent w) \<noteq> None"
        using tree_okD(2) [OF tree, of i w'] unfolding rows by auto
    qed
    show "table_ok permUsageSchema (permUsageTable db')" using auth_okD(2) [OF assms(1)] u by simp
    fix i w assume "rowsOf (permTable db') i = Some w"
    then obtain w' where w': "rowsOf ?t i = Some w'" "UsageId w' = UsageId w" using same by blast
    then show "rowsOf (permUsageTable db') (UsageId w) \<noteq> None" using auth_okD(3) [OF assms(1) w'(1)] u by simp
    fix j x assume "rowsOf (permTable db') j = Some x" "UsageId w = UsageId x"
    then show "i = j" using same [of j x] w' auth_okD(4) [OF assms(1) w'(1)] by metis
  qed
qed

lemma auth_ok_usage:
  assumes "auth_ok db" "rowsOf (permTable db) i = Some po"
  obtains u where "rowsOf (permUsageTable db) (UsageId po) = Some u" "pu_ID u = UsageId po"
    "find_id (UsageId po) (permUsageTable db) = Some u"
proof -
  obtain u where u: "rowsOf (permUsageTable db) (UsageId po) = Some u" using auth_okD(3) [OF assms] by blast
  then have "pu_ID u = UsageId po" using consistentD(1) [OF table_okD(1) [OF auth_okD(2) [OF assms(1)]] u] by simp
  then show ?thesis using that u by (simp add: find_id_maps)
qed

lemma RemovePermission_ok:
  assumes "auth_ok db" "rowsOf (permTable db) (po_ID po) = Some po" "RemovePermission po db = Inr db'"
  shows "auth_ok db'" "rowsOf (permTable db') = (rowsOf (permTable db))(po_ID po := None)"
    "rowsOf (permUsageTable db') = (rowsOf (permUsageTable db))(UsageId po := None)"
proof -
  let ?t = "permTable db" and ?u = "permUsageTable db"
  note tree = auth_okD(1) [OF assms(1)]
  obtain u where u: "rowsOf ?u (UsageId po) = Some u" "pu_ID u = UsageId po" "find_id (UsageId po) ?u = Some u"
    by (rule auth_ok_usage [OF assms(1, 2)])
  obtain ut where ut: "Remove_row permUsageSchema u ?u = Inr ut" using u by (auto simp: Remove_row_def find_id_maps Let_def)
  obtain pt where pt: "Remove_row permissionSchema po ?t = Inr pt" using assms(2) by (auto simp: Remove_row_def find_id_maps Let_def)
  have childless: "\<not> po_ID po \<le> po_Parent v" if "rowsOf ?t i = Some v" for i v
    using assms(3) no_later_child [OF table_okD(1) [OF tree_table [OF tree]], of "po_ID po"] that
    unfolding RemovePermission_def eos_assert_Inr_iff by blast
  have db': "db' = db\<lparr>permUsageTable := ut, permTable := pt\<rparr>"
    using assms(3) u(3) ut pt by (simp add: RemovePermission_def eos_assert_Inr_iff found_def)
  note R = permission_schema.Remove_ok [OF tree_table [OF tree] _ pt, simplified, OF assms(2)]
  have "rowsOf ?u (getId permUsageSchema u) = Some u" using u by simp
  note U = permUsage_schema.Remove_ok [OF auth_okD(2) [OF assms(1)] this ut]
  show rows: "rowsOf (permTable db') = (rowsOf ?t)(po_ID po := None)" and urows: "rowsOf (permUsageTable db') = (rowsOf ?u)(UsageId po := None)"
    using R(2) U(2) u(2) by (simp_all add: db')
  have sub: "i \<noteq> po_ID po" "rowsOf ?t i = Some w" if "rowsOf (permTable db') i = Some w" for i w
    using that unfolding rows by (auto split: if_splits)
  show "auth_ok db'"
  proof (rule auth_okI)
    show "tree_ok (permTable db')"
    proof (rule tree_okI)
      show "table_ok permissionSchema (permTable db')" using R(1) by (simp add: db')
      fix i w assume w: "rowsOf (permTable db') i = Some w" "po_Parent w \<noteq> 0"
      then show "unat (po_Parent w) < unat i \<and> rowsOf (permTable db') (po_Parent w) \<noteq> None"
        using tree_okD(2) [OF tree sub(2) [OF w(1)]] childless [OF sub(2) [OF w(1)]] unfolding rows by auto
    qed
    show "table_ok permUsageSchema (permUsageTable db')" using U(1) by (simp add: db')
    fix i w assume w: "rowsOf (permTable db') i = Some w"
    show "rowsOf (permUsageTable db') (UsageId w) \<noteq> None"
      using auth_okD(3) [OF assms(1) sub(2) [OF w]] auth_okD(4) [OF assms(1) sub(2) [OF w] assms(2)] sub(1) [OF w] unfolding urows by auto
    fix j x assume "rowsOf (permTable db') j = Some x" "UsageId w = UsageId x"
    then show "i = j" using auth_okD(4) [OF assms(1) sub(2) [OF w] sub(2)] by blast
  qed
qed

lemma UpdatePermissionUsage_ok:
  assumes "auth_ok db" "rowsOf (permTable db) i = Some po"
  shows "auth_ok (UpdatePermissionUsage env po db)" "permTable (UpdatePermissionUsage env po db) = permTable db"
    "GetPermissionLastUsed po (UpdatePermissionUsage env po db) = PendingBlockTime env"
proof -
  let ?f = "\<lambda>p :: PermissionUsageObject. p\<lparr>LastUsed := PendingBlockTime env\<rparr>" and ?u = "permUsageTable db"
  obtain u where u: "rowsOf ?u (UsageId po) = Some u" "pu_ID u = UsageId po" "find_id (UsageId po) ?u = Some u"
    by (rule auth_ok_usage [OF assms])
  have "getId permUsageSchema (?f u) = UsageId po" "keysOf permUsageSchema (?f u) = keysOf permUsageSchema u" using u(2) by simp_all
  note M = permUsage_schema.Modify_row [where f = ?f, OF auth_okD(2) [OF assms(1)] u(1) this]
  have db': "UpdatePermissionUsage env po db = db\<lparr>permUsageTable := snd (Modify permUsageSchema u ?f ?u)\<rparr>"
    using u(3) by (simp add: UpdatePermissionUsage_def found_def)
  show "permTable (UpdatePermissionUsage env po db) = permTable db" by (simp add: db')
  show "GetPermissionLastUsed po (UpdatePermissionUsage env po db) = PendingBlockTime env"
    using M(2) by (simp add: db' GetPermissionLastUsed_def find_id_maps found_def)
  show "auth_ok (UpdatePermissionUsage env po db)"
    by (rule auth_okI) (use M(1, 2) auth_okD [OF assms(1)] in \<open>auto simp: db'\<close>)
qed

text \<open>
  The databases that the manager can build. The callers look a name up before they create it and
  read the parent, and what is changed or removed was just found; the two counters of ids do not wrap.
\<close>

inductive auth_reachable :: "AuthDb \<Rightarrow> bool" where
  empty: "auth_reachable \<lparr>permTable = emptyTable, permUsageTable = emptyTable, linkTable = emptyTable\<rparr>"
| create: "auth_reachable db \<Longrightarrow> parent = 0 \<or> rowsOf (permTable db) parent \<noteq> None \<Longrightarrow> find_key (0, account, name) (permTable db) = None \<Longrightarrow>
    tbl_nextId (permTable db) + 1 \<noteq> 0 \<Longrightarrow> tbl_nextId (permUsageTable db) + 1 \<noteq> 0 \<Longrightarrow>
    CreatePermission env account name parent auth time db = (p, db') \<Longrightarrow> auth_reachable db'"
| modify: "auth_reachable db \<Longrightarrow> GetPermission l db = Inr po \<Longrightarrow> ModifyPermission env po auth db = (po', db') \<Longrightarrow> auth_reachable db'"
| remove: "auth_reachable db \<Longrightarrow> GetPermission l db = Inr po \<Longrightarrow> RemovePermission po db = Inr db' \<Longrightarrow> auth_reachable db'"
| used: "auth_reachable db \<Longrightarrow> GetPermission l db = Inr po \<Longrightarrow> auth_reachable (UpdatePermissionUsage env po db)"

lemma auth_ok_empty: "auth_ok \<lparr>permTable = emptyTable, permUsageTable = emptyTable, linkTable = t\<rparr>"
  by (simp add: auth_ok_def tree_ok_def table_ok_def consistent_def rowsOf_def idsOf_def emptyTable_def)

lemma auth_reachable_ok: "auth_reachable db \<Longrightarrow> auth_ok db"
proof (induction rule: auth_reachable.induct)
  case empty
  then show ?case by (rule auth_ok_empty)
next
  case (create db parent account name env auth time p db')
  show ?case by (rule CreatePermission_ok(1) [OF create.IH create.hyps(2-6)])
next
  case (modify db l po env auth po' db')
  show ?case by (rule ModifyPermission_ok(1) [OF modify.IH GetPermission_stored(1) [OF auth_okD(1) [OF modify.IH] modify.hyps(2)] modify.hyps(3)])
next
  case (remove db l po db')
  show ?case by (rule RemovePermission_ok(1) [OF remove.IH GetPermission_stored(1) [OF auth_okD(1) [OF remove.IH] remove.hyps(2)] remove.hyps(3)])
next
  case (used db l po env)
  show ?case by (rule UpdatePermissionUsage_ok(1) [OF used.IH GetPermission_stored(1) [OF auth_okD(1) [OF used.IH] used.hyps(2)]])
qed

section \<open>Authorization of actions\<close>

definition stands_above :: "AuthDb \<Rightarrow> PermissionObject \<Rightarrow> PermissionObject \<Rightarrow> bool" where
  "stands_above db p m \<longleftrightarrow> po_Owner p = po_Owner m \<and> (po_ID p = 0 \<or> above (permTable db) (po_ID p) m)"

text \<open>What an action asks of a declared level: the permission linked to it, or active, or nothing.\<close>

definition meets_minimum :: "AuthDb \<Rightarrow> Action \<Rightarrow> PermissionLevel \<Rightarrow> bool" where
  "meets_minimum db act a \<longleftrightarrow>
     (\<exists>n. LookupMinimumPermission (Actor a) (act_Account act) (act_Name act) db = Inr n \<and>
       (case n of None \<Rightarrow> True
        | Some name \<Rightarrow> \<exists>p m. GetPermission a db = Inr p \<and> GetPermission \<lparr>Actor = Actor a, Permission = name\<rparr> db = Inr m \<and> stands_above db p m))"

definition native_act :: "Action \<Rightarrow> bool" where
  "native_act act \<longleftrightarrow> act_Account act = name_of ''eosio'' \<and> act_Name act \<in> set native_auth_actions"

lemma check_satisfies_iff:
  assumes "tree_ok (permTable db)" "GetPermission l db = Inr m"
  shows "check_satisfies a m db = Inr () \<longleftrightarrow> (\<exists>p. GetPermission a db = Inr p \<and> stands_above db p m)"
  using Satisfies_spec [OF assms(1) GetPermission_stored(1) [OF assms]]
  by (auto simp: check_satisfies_def result_iffs stands_above_def returned_def)

lemma check_special_native:
  assumes "check_special env act db = Inr sp"
  shows "sp = native_act act" "sp \<Longrightarrow> length (Authorization act) = 1"
  using assms unfolding check_special_def native_act_def native_auth_actions_def
  by (auto simp: result_iffs CheckUpdateAuthAuthorization_def CheckDeleteAuthAuthorization_def CheckLinkAuthAuthorization_def
      CheckUnLinkAuthAuthorization_def CheckCancelDelayAuthorization_def split: if_splits)

lemma snd_update: "snd ` set (AList.update k v al) \<subseteq> insert v (snd ` set al)"
  by (induction al) auto

lemma check_declared_Inr:
  assumes "tree_ok (permTable db)" "check_declared act sp delay db a pts = Inr pts'" "snd ` set pts \<subseteq> {delay}"
  shows "\<not> sp \<Longrightarrow> meets_minimum db act a" "fst ` set pts' = insert a (fst ` set pts)" "snd ` set pts' \<subseteq> {delay}"
proof -
  have upd: "pts' = AList.update a delay pts"
  proof (cases "map_of pts a")
    case (Some d)
    then have "d = delay" using assms(3) map_of_SomeD [OF Some] by force
    then show ?thesis using assms(2) Some by (simp add: check_declared_def result_iffs)
  qed (use assms(2) in \<open>simp add: check_declared_def result_iffs\<close>)
  then show "fst ` set pts' = insert a (fst ` set pts)" by (simp add: dom_update)
  show "snd ` set pts' \<subseteq> {delay}" using upd snd_update [of a delay pts] assms(3) by blast
  show "meets_minimum db act a" if nsp: "\<not> sp"
  proof -
    obtain n where n: "LookupMinimumPermission (Actor a) (act_Account act) (act_Name act) db = Inr n"
      and c: "(case n of None \<Rightarrow> Inr () | Some name \<Rightarrow> rbind (GetPermission \<lparr>Actor = Actor a, Permission = name\<rparr> db)
        (\<lambda>m. check_satisfies a m db)) = Inr ()"
      using assms(2) unfolding check_declared_def if_not_P [OF nsp] rbind_Inr_iff by auto
    show ?thesis
    proof (cases n)
      case (Some name)
      then obtain m where "GetPermission \<lparr>Actor = Actor a, Permission = name\<rparr> db = Inr m" "check_satisfies a m db = Inr ()"
        using c by (auto simp: result_iffs)
      then show ?thesis using n Some check_satisfies_iff [OF assms(1)] by (auto simp: meets_minimum_def)
    qed (use n in \<open>auto simp: meets_minimum_def\<close>)
  qed
qed

lemma check_declared_all_Inr:
  assumes "tree_ok (permTable db)" "check_declared_all act sp delay db as pts = Inr pts'" "snd ` set pts \<subseteq> {delay}"
  shows "(\<forall>a\<in>set as. \<not> sp \<longrightarrow> meets_minimum db act a) \<and> fst ` set pts' = set as \<union> fst ` set pts \<and> snd ` set pts' \<subseteq> {delay}"
  using assms(2, 3)
proof (induction as arbitrary: pts)
  case (Cons a as)
  then obtain q where q: "check_declared act sp delay db a pts = Inr q" "check_declared_all act sp delay db as q = Inr pts'"
    by (auto simp: result_iffs)
  note D = check_declared_Inr [OF assms(1) q(1) Cons.prems(2)]
  from Cons.IH [OF q(2) D(3)] D(1, 2) show ?case by auto
qed simp

lemma check_actions_Inr:
  assumes "tree_ok (permTable db)" "check_actions env delay db acts pts = Inr pts'" "snd ` set pts \<subseteq> {delay}"
  shows "(\<forall>act\<in>set acts. if native_act act then length (Authorization act) = 1 else \<forall>a\<in>set (Authorization act). meets_minimum db act a) \<and>
    fst ` set pts' = (\<Union>act\<in>set acts. set (Authorization act)) \<union> fst ` set pts \<and> snd ` set pts' \<subseteq> {delay}"
  using assms(2, 3)
proof (induction acts arbitrary: pts)
  case (Cons act acts)
  then obtain sp q where q: "check_special env act db = Inr sp" "check_declared_all act sp delay db (Authorization act) pts = Inr q"
      "check_actions env delay db acts q = Inr pts'"
    by (auto simp: result_iffs)
  note D = check_declared_all_Inr [OF assms(1) q(2) Cons.prems(2)]
  from Cons.IH [OF q(3) D [THEN conjunct2, THEN conjunct2]] show ?case
    using D check_special_native [OF q(1)] by (simp add: Un_ac)
qed simp

lemma check_permissions_Inr:
  assumes "lookup_ok ac" "check_permissions ac pts used = Inr used'" "length used = length (ProvidedKeys ac)" "snd ` set pts \<subseteq> {ProvidedDelay ac}"
  shows "(\<forall>a\<in>fst ` set pts. granted ac a) \<and> keys_grow used used'"
  using assms(2-4)
proof (induction pts arbitrary: used)
  case (Cons x pts)
  obtain a where x: "x = (a, ProvidedDelay ac)" using Cons.prems(3) by (cases x) auto
  then obtain c u where u: "SatisfiedLc ac a None used = Inr (True, c, u)" "check_permissions ac pts u = Inr used'"
    using Cons.prems(1) by (auto simp: result_iffs SatisfiedLoc_def)
  then have g: "granted ac a" "keys_grow used u" using SatisfiedLc_sound [OF assms(1) Cons.prems(2), of a] by auto
  have "length u = length (ProvidedKeys ac)" using keys_grow_length [OF g(2)] Cons.prems(2) by simp
  from Cons.IH [OF u(2) this] Cons.prems(3) g keys_grow_trans [OF g(2)] x show ?case by auto
qed simp

lemma auth_len1: "length auths = 1 \<longleftrightarrow> (\<exists>a. auths = [a])"
  by (cases auths) auto

lemma check_delete_iff:
  assumes "tree_ok (permTable db)"
  shows "CheckDeleteAuthAuthorization del auths db = Inr () \<longleftrightarrow>
    (\<exists>a p m. auths = [a] \<and> Actor a = da_Account del \<and> GetPermission a db = Inr p \<and> stands_above db p m \<and>
      GetPermission \<lparr>Actor = da_Account del, Permission = da_Permission del\<rparr> db = Inr m)"
  unfolding CheckDeleteAuthAuthorization_def result_iffs auth_len1 Let_def using check_satisfies_iff [OF assms] by fastforce

lemma update_target:
  assumes "tree_ok (permTable db)" "Actor l \<noteq> 0"
  shows "rbind (FindPermission l db) (\<lambda>p. case p of Some m \<Rightarrow> Inr m | None \<Rightarrow> g) = Inr m \<longleftrightarrow>
    Permission l \<noteq> 0 \<and> (GetPermission l db = Inr m \<or> GetPermission l db = Inl PermissionQueryException \<and> g = Inr m)"
  using assms(2) by (auto simp: FindPermission_def GetPermission_def eos_assert_def split: option.splits)

lemma check_update_iff:
  assumes "tree_ok (permTable db)"
  shows "CheckUpdateAuthAuthorization upd auths db = Inr () \<longleftrightarrow>
    (\<exists>a p m. auths = [a] \<and> Actor a = ua_Account upd \<and> GetPermission a db = Inr p \<and> stands_above db p m \<and>
      ua_Permission upd \<noteq> 0 \<and>
      (GetPermission \<lparr>Actor = ua_Account upd, Permission = ua_Permission upd\<rparr> db = Inr m \<or>
       GetPermission \<lparr>Actor = ua_Account upd, Permission = ua_Permission upd\<rparr> db = Inl PermissionQueryException \<and>
       GetPermission \<lparr>Actor = ua_Account upd, Permission = ua_Parent upd\<rparr> db = Inr m))"
    (is "?l \<longleftrightarrow> ?r")
proof -
  let ?g = "GetPermission \<lparr>Actor = ua_Account upd, Permission = ua_Parent upd\<rparr> db" and ?p = "\<lparr>Actor = ua_Account upd, Permission = ua_Permission upd\<rparr>"
  let ?t = "rbind (FindPermission ?p db) (\<lambda>p. case p of Some m \<Rightarrow> Inr m | None \<Rightarrow> ?g)"
  have step: "?l \<longleftrightarrow> (\<exists>a m. auths = [a] \<and> Actor a = ua_Account upd \<and> ?t = Inr m \<and> check_satisfies a m db = Inr ())"
    unfolding CheckUpdateAuthAuthorization_def auth_len1 Let_def rbind_assoc [symmetric] result_iffs by fastforce
  have target: "?t = Inr m \<longleftrightarrow> ua_Permission upd \<noteq> 0 \<and> (GetPermission ?p db = Inr m \<or> GetPermission ?p db = Inl PermissionQueryException \<and> ?g = Inr m)"
    if "ua_Account upd \<noteq> 0" for m using update_target [OF assms, of ?p ?g m] that by simp
  have sat: "check_satisfies a m db = Inr () \<longleftrightarrow> (\<exists>p. GetPermission a db = Inr p \<and> stands_above db p m)"
    if "GetPermission ?p db = Inr m \<or> ?g = Inr m" for a m using check_satisfies_iff [OF assms] that by blast
  have ne: "ua_Account upd \<noteq> 0" if "Actor a = ua_Account upd" "GetPermission a db = Inr p" for a p
    using that by (auto simp: GetPermission_Inr level_ok_def)
  have ne': "ua_Account upd \<noteq> 0" if "?t = Inr m" for m using that by (auto simp: result_iffs FindPermission_def)
  show ?thesis unfolding step
  proof
    assume "\<exists>a m. auths = [a] \<and> Actor a = ua_Account upd \<and> ?t = Inr m \<and> check_satisfies a m db = Inr ()"
    then obtain a m where a: "auths = [a]" "Actor a = ua_Account upd" "?t = Inr m" "check_satisfies a m db = Inr ()" by blast
    have t: "ua_Permission upd \<noteq> 0" "GetPermission ?p db = Inr m \<or> GetPermission ?p db = Inl PermissionQueryException \<and> ?g = Inr m"
      using target [OF ne' [OF a(3)]] a(3) by blast+
    then obtain p where "GetPermission a db = Inr p" "stands_above db p m" using sat [of m a] a(4) by blast
    then show ?r using a(1, 2) t by blast
  next
    assume ?r
    then obtain a p m where a: "auths = [a]" "Actor a = ua_Account upd" "GetPermission a db = Inr p" "stands_above db p m" "ua_Permission upd \<noteq> 0"
      and m: "GetPermission ?p db = Inr m \<or> GetPermission ?p db = Inl PermissionQueryException \<and> ?g = Inr m" by blast
    have "?t = Inr m" using target [OF ne [OF a(2, 3)]] a(5) m by blast
    moreover have "check_satisfies a m db = Inr ()" using sat [of m a] m a(3, 4) by blast
    ultimately show "\<exists>a m. auths = [a] \<and> Actor a = ua_Account upd \<and> ?t = Inr m \<and> check_satisfies a m db = Inr ()" using a(1, 2) by blast
  qed
qed

section \<open>Example\<close>

text \<open>The packed names that the manager mentions, for evaluation.\<close>

lemma upt_13: "[0..<13] = [0, 1, 2, 3, 4, 5, 6, 7, 8, 9, 10, 11, 12]"
  by (simp add: upt_rec)

lemma name_literals [code_unfold]:
  "name_of ''eosio'' = 6138663577826885632"
  "name_of ''active'' = 3617214756542218240"
  "name_of ''eosio.any'' = 6138663581382606848"
  "name_of ''updateauth'' = 15371467950649982976"
  "name_of ''deleteauth'' = 5378050746259030016"
  "name_of ''linkauth'' = 10063015651234021376"
  "name_of ''unlinkauth'' = 15340080295291076608"
  "name_of ''canceldelay'' = 4730614990712192000"
  by (simp_all add: name_of_def N_def N_symbol_def bytes_of_def charToSymbol_def upt_13 push_bit_eq_mult)

text \<open>
  The system account, two more accounts, and a permission \<open>7\<close> below active of the first of them; the
  second is created last. Owner is \<open>3\<close>, and the long number is the name active.
\<close>

definition sample_env :: AuthEnv where
  "sample_env = \<lparr>PendingBlockTime = 1000, MaxTrxDelay = 3888000, MaxAuthorityDepth = 6, generatedTransactions = [],
     decodeUpdateAuth = (\<lambda>_. \<lparr>ua_Account = 10, ua_Permission = 7, ua_Parent = 0, ua_Auth = zeroAuthority\<rparr>),
     decodeDeleteAuth = (\<lambda>_. \<lparr>da_Account = 10, da_Permission = 7\<rparr>),
     decodeLinkAuth = (\<lambda>_. \<lparr>la_Account = 0, la_Code = 0, la_Type = 0, la_Requirement = 0\<rparr>),
     decodeUnLinkAuth = (\<lambda>_. \<lparr>ul_Account = 0, ul_Code = 0, ul_Type = 0\<rparr>),
     decodeCancelDelay = (\<lambda>_. \<lparr>CancelingAuth = \<lparr>Actor = 0, Permission = 0\<rparr>, cd_TrxId = undefined\<rparr>), decodeTransaction = (\<lambda>_. [])\<rparr>"

definition sample_entries :: "(eos_name \<times> eos_name \<times> u64) list" where
  "sample_entries = [(5, 3, 0), (5, 3617214756542218240, 0), (10, 3, 0), (10, 3617214756542218240, 2), (10, 7, 3), (12, 3, 0), (12, 3617214756542218240, 5)]"

definition sample_create :: "eos_name \<times> eos_name \<times> u64 \<Rightarrow> AuthDb \<Rightarrow> AuthDb" where
  "sample_create x db = snd (CreatePermission sample_env (fst x) (fst (snd x)) (snd (snd x)) (NewAuthority sample_key 0) 0 db)"

definition sample_db :: AuthDb where
  "sample_db = fold sample_create sample_entries \<lparr>permTable = emptyTable, permUsageTable = emptyTable, linkTable = emptyTable\<rparr>"

definition can_create :: "eos_name \<times> eos_name \<times> u64 \<Rightarrow> AuthDb \<Rightarrow> bool" where
  "can_create x db \<longleftrightarrow> (snd (snd x) = 0 \<or> find_id (snd (snd x)) (permTable db) \<noteq> None) \<and> find_key (0, fst x, fst (snd x)) (permTable db) = None \<and>
     tbl_nextId (permTable db) + 1 \<noteq> 0 \<and> tbl_nextId (permUsageTable db) + 1 \<noteq> 0"

fun all_created :: "(eos_name \<times> eos_name \<times> u64) list \<Rightarrow> AuthDb \<Rightarrow> bool" where
  "all_created [] db = True"
| "all_created (x # xs) db = (can_create x db \<and> all_created xs (sample_create x db))"

lemma all_created_reachable: "auth_reachable db \<Longrightarrow> all_created xs db \<Longrightarrow> auth_reachable (fold sample_create xs db)"
proof (induction xs arbitrary: db)
  case (Cons x xs)
  obtain p db' where c: "CreatePermission sample_env (fst x) (fst (snd x)) (snd (snd x)) (NewAuthority sample_key 0) 0 db = (p, db')" by fastforce
  have "auth_reachable db'"
    by (rule auth_reachable.create [OF Cons.prems(1) _ _ _ _ c]) (use Cons.prems(2) in \<open>simp_all add: can_create_def find_id_maps\<close>)
  then show ?case using Cons.IH [of db'] Cons.prems(2) c by (simp add: sample_create_def)
qed simp

lemma sample_db_reachable: "auth_reachable sample_db"
  unfolding sample_db_def by (rule all_created_reachable [OF auth_reachable.empty]) code_simp

lemma sample_tree: "tree_ok (permTable sample_db)"
  by (rule auth_okD(1) [OF auth_reachable_ok [OF sample_db_reachable]])

definition sample_act :: Action where
  "sample_act = \<lparr>act_Account = 12, act_Name = 99, Authorization = [\<lparr>Actor = 10, Permission = 3\<rparr>], act_Data = []\<rparr>"

section \<open>Properties\<close>

text \<open>
  C3. A transaction is authorized only if every level that its actions declare is granted by the
  provided keys, permissions and delay, in whatever order Go walks the map of levels, and, unless the action is one of
  the five with a check of their own, stands at or above the permission that is linked to the action for its actor, or
  active if none is linked. Those five actions declare a single level.
\<close>

theorem authorization_sound:
  assumes "tree_ok (permTable db)" "\<And>xs. set (order xs) = set xs"
    "CheckAuthorization env order actions keys perms delay allow db = Inr ()" "act \<in> set actions"
  shows "(\<forall>a\<in>set (Authorization act).
      granted (fst (MakeAuthChecker (permission_authority db) (MaxAuthorityDepth env) keys perms (effectiveDelay env delay))) a) \<and>
    (if native_act act then length (Authorization act) = 1 else \<forall>a\<in>set (Authorization act). meets_minimum db act a)"
proof -
  let ?d = "effectiveDelay env delay"
  let ?ac = "fst (MakeAuthChecker (permission_authority db) (MaxAuthorityDepth env) keys perms ?d)"
  obtain pts used where c: "check_actions env ?d db actions [] = Inr pts"
    "check_permissions ?ac (order pts) (replicate (length keys) False) = Inr used"
    using assms(3) by (auto simp: CheckAuthorization_def MakeAuthChecker_def Let_def result_iffs)
  have A: "if native_act act then length (Authorization act) = 1 else \<forall>a\<in>set (Authorization act). meets_minimum db act a"
    "set (Authorization act) \<subseteq> fst ` set pts" "snd ` set pts \<subseteq> {?d}"
    using check_actions_Inr [OF assms(1) c(1)] assms(4) by auto
  have "lookup_ok ?ac" by (rule manager_lookup_ok) simp
  from check_permissions_Inr [OF this c(2)] A(2, 3) assms(2) have "\<forall>a\<in>set (Authorization act). granted ?ac a" by auto
  then show ?thesis using A(1) by blast
qed

theorem authorization_sound_witness:
  "meets_minimum sample_db sample_act \<lparr>Actor = 10, Permission = 3\<rparr>"
proof -
  have "CheckAuthorization sample_env rev [sample_act] [sample_key] [] 0 False sample_db = Inr ()" by code_simp
  moreover have "\<not> native_act sample_act" by code_simp
  ultimately show ?thesis using authorization_sound [OF sample_tree, of rev sample_env "[sample_act]" "[sample_key]" "[]" 0 False sample_act]
    by (simp add: sample_act_def)
qed

text \<open>
  C21. In every database that the manager builds the permissions form a tree, and for two stored permissions
  \<open>Satisfies\<close> returns and tells whether the first belongs to the same account and is the second or one of its
  ancestors. The permission with id 0, the first that was created, counts as an ancestor of everything of its account, since 0 is also
  the mark of a missing parent.
\<close>

theorem permission_tree:
  assumes "auth_reachable db"
  shows "tree_ok (permTable db) \<and>
    (\<forall>i p j m. rowsOf (permTable db) i = Some p \<longrightarrow> rowsOf (permTable db) j = Some m \<longrightarrow>
      Satisfies p m (permTable db) = Some (po_Owner p = po_Owner m \<and> (po_ID p = 0 \<or> above (permTable db) (po_ID p) m)))"
  using auth_okD(1) [OF auth_reachable_ok [OF assms]] Satisfies_spec by blast

theorem permission_tree_witness:
  "\<exists>p m. rowsOf (permTable sample_db) 2 = Some p \<and> rowsOf (permTable sample_db) 4 = Some m \<and> Satisfies p m (permTable sample_db) = Some True"
proof -
  let ?r = "rowsOf (permTable sample_db)"
  have "(case (?r 2, ?r 3, ?r 4) of (Some p, Some q, Some m) \<Rightarrow> po_ID p = 2 \<and> po_Owner p = po_Owner m \<and> po_Parent q = 2 \<and> po_Parent m = 3 | _ \<Rightarrow> False)"
    by code_simp
  then obtain p q m where r: "?r 2 = Some p" "?r 3 = Some q" "?r 4 = Some m" "po_ID p = 2" "po_Owner p = po_Owner m" "po_Parent q = 2" "po_Parent m = 3"
    by (auto split: option.splits)
  have "above (permTable sample_db) 2 q" by (rule above.up [of q _ p]) (use r above.self [of _ p] in simp_all)
  then have "above (permTable sample_db) 2 m" by (rule above.up [rotated 2]) (use r in simp_all)
  then show ?thesis using permission_tree [OF sample_db_reachable] r by auto
qed

text \<open>
  C13. A stored permission is removed, with its usage record, exactly if no permission of any account has a parent with the same
  or a later id; otherwise the removal is refused as that of a permission with children. So a childless
  permission cannot be removed once a later account has a child permission.
\<close>

theorem remove_permission_exact:
  assumes "auth_ok db" "rowsOf (permTable db) (po_ID po) = Some po"
  shows "if \<exists>i v. rowsOf (permTable db) i = Some v \<and> po_ID po \<le> po_Parent v
    then RemovePermission po db = Inl ActionValidateException
    else \<exists>db'. RemovePermission po db = Inr db' \<and> auth_ok db' \<and> rowsOf (permTable db') = (rowsOf (permTable db))(po_ID po := None) \<and>
      rowsOf (permUsageTable db') = (rowsOf (permUsageTable db))(UsageId po := None)"
proof (cases "\<exists>i v. rowsOf (permTable db) i = Some v \<and> po_ID po \<le> po_Parent v")
  case True
  have "\<not> (case LowerBound_key (1, po_ID po, 0) (permTable db) of None \<Rightarrow> True | Some k \<Rightarrow> fst k \<noteq> 1)"
    using no_later_child [OF table_okD(1) [OF tree_table [OF auth_okD(1) [OF assms(1)]]]] True by blast
  then show ?thesis unfolding if_P [OF True] RemovePermission_def eos_assert_def by (rule if_not_P)
next
  case False
  have "case LowerBound_key (1, po_ID po, 0) (permTable db) of None \<Rightarrow> True | Some k \<Rightarrow> fst k \<noteq> 1"
    using no_later_child [OF table_okD(1) [OF tree_table [OF auth_okD(1) [OF assms(1)]]]] False by blast
  then have "\<exists>db'. RemovePermission po db = Inr db'" unfolding RemovePermission_def eos_assert_def Let_def by (simp only: if_True) blast
  then show ?thesis unfolding if_not_P [OF False] using RemovePermission_ok [OF assms] by blast
qed

theorem remove_permission_exact_witness:
  "\<exists>po. rowsOf (permTable sample_db) 4 = Some po \<and> (\<nexists>v. v \<in> snd ` set (tbl_rows (permTable sample_db)) \<and> po_Parent v = 4) \<and>
     RemovePermission po sample_db = Inl ActionValidateException"
proof -
  have "(case (rowsOf (permTable sample_db) 4, rowsOf (permTable sample_db) 6) of (Some p, Some v) \<Rightarrow> po_ID p = 4 \<and> 4 \<le> po_Parent v | _ \<Rightarrow> False)" by code_simp
  then obtain p v where p: "rowsOf (permTable sample_db) 4 = Some p" "po_ID p = 4" "rowsOf (permTable sample_db) 6 = Some v" "4 \<le> po_Parent v"
    by (auto split: option.splits)
  then have later: "\<exists>i v. rowsOf (permTable sample_db) i = Some v \<and> po_ID p \<le> po_Parent v" by auto
  have "RemovePermission p sample_db = Inl ActionValidateException"
    using remove_permission_exact [OF auth_reachable_ok [OF sample_db_reachable], of p] p unfolding if_P [OF later] by simp
  moreover have "list_all (\<lambda>x. po_Parent (snd x) \<noteq> 4) (tbl_rows (permTable sample_db))" by code_simp
  ultimately show ?thesis using p(1) by (auto simp: list_all_iff)
qed

text \<open>
  C37. Permissions change hands only from above: \<open>updateauth\<close> and \<open>deleteauth\<close> pass their check exactly if
  the action declares one level, of the account concerned, whose permission stands at or above the one that is replaced or
  deleted; for a new permission, at or above its parent.
\<close>

theorem auth_change_guarded:
  assumes "tree_ok (permTable db)"
  shows "(CheckUpdateAuthAuthorization upd auths db = Inr () \<longleftrightarrow>
      (\<exists>a p m. auths = [a] \<and> Actor a = ua_Account upd \<and> GetPermission a db = Inr p \<and> stands_above db p m \<and>
        ua_Permission upd \<noteq> 0 \<and>
        (GetPermission \<lparr>Actor = ua_Account upd, Permission = ua_Permission upd\<rparr> db = Inr m \<or>
         GetPermission \<lparr>Actor = ua_Account upd, Permission = ua_Permission upd\<rparr> db = Inl PermissionQueryException \<and>
         GetPermission \<lparr>Actor = ua_Account upd, Permission = ua_Parent upd\<rparr> db = Inr m))) \<and>
    (CheckDeleteAuthAuthorization del auths db = Inr () \<longleftrightarrow>
      (\<exists>a p m. auths = [a] \<and> Actor a = da_Account del \<and> GetPermission a db = Inr p \<and> stands_above db p m \<and>
        GetPermission \<lparr>Actor = da_Account del, Permission = da_Permission del\<rparr> db = Inr m))"
  using check_update_iff [OF assms] check_delete_iff [OF assms] by blast

theorem auth_change_guarded_witness:
  "CheckUpdateAuthAuthorization (decodeUpdateAuth sample_env []) [\<lparr>Actor = 10, Permission = 3617214756542218240\<rparr>] sample_db = Inr () \<and>
   CheckDeleteAuthAuthorization (decodeDeleteAuth sample_env []) [\<lparr>Actor = 12, Permission = 3\<rparr>] sample_db \<noteq> Inr ()"
proof -
  have "Actor a \<noteq> da_Account (decodeDeleteAuth sample_env [])" if "[\<lparr>Actor = 12, Permission = 3\<rparr>] = [a]" for a
    using that by (auto simp: sample_env_def)
  then have "CheckDeleteAuthAuthorization (decodeDeleteAuth sample_env []) [\<lparr>Actor = 12, Permission = 3\<rparr>] sample_db \<noteq> Inr ()"
    using auth_change_guarded [OF sample_tree, of _ _ "decodeDeleteAuth sample_env []"] by blast
  moreover have "CheckUpdateAuthAuthorization (decodeUpdateAuth sample_env []) [\<lparr>Actor = 10, Permission = 3617214756542218240\<rparr>] sample_db = Inr ()" by code_simp
  ultimately show ?thesis by blast
qed

end
