(* ===== verification/Spec2Isabelle.thy ===== *)
theory Spec2Isabelle
  imports Eos_ForkRuns Eos_CodecLaws Eos_ResourceLaws Eos_Sessions Eos_AuthorizationLaws
begin

text \<open>
  Verification of the eos-go node, a Go implementation of the EOSIO blockchain.

  \<^bold>\<open>The program and its parts.\<close> A node receives blocks, keeps the unconfirmed ones in a fork
  database, follows the best branch and applies its transactions to an object database. A block
  header carries the producer, its confirmations and a Merkle root; a transaction is checked
  against the permissions of the accounts it names and billed to their resource limits.
  Everything is stored and sent with two binary codecs.

  \<^bold>\<open>Conventions.\<close> \<open>Eos_Prelude\<close> has the shared vocabulary. A Go integer is a word of its width,
  so that wrap-around is that of the source; a struct is a record, an enumeration or interface a
  datatype. An exception, a Go panic and a call that never returns are \<open>Inl\<close> values of
  \<open>result\<close>; a returned Go error is a constructor whose name starts with Err. State that the code
  reaches through a pointer is passed and returned. Hashing, signature recovery, the decoding
  of payloads and the order in which Go walks a map are parameters, and the results hold for all of
  them or under the laws that a statement names.

  \<^bold>\<open>Numbers, names, times.\<close> \<open>Eos_LongDivision\<close> proves binary long division once, as a locale;
  \<open>Eos_Uint128\<close> (src/common/eos_math/uint128.go) interprets it and shows that the pair of 64-bit
  halves refines \<open>128 word\<close>. \<open>Eos_Name\<close> (src/common/name.go) shows the two round trips of names
  and the mask arithmetic of suffixes. \<open>Eos_Time\<close> has src/common/time.go and
  src/chain/types/block_timestamp.go.

  \<^bold>\<open>Containers.\<close> \<open>Eos_RBTree\<close> (src/libraries/container/redblacktree) models pointers as
  locations in the tree and shows that no operation panics, that the colours stay balanced,
  and that the operations are those of a sorted list, inside the locales \<open>ordering\<close> and
  \<open>key_ordering\<close>; \<open>Eos_Containers\<close> interprets them on the comparators of the node.
  \<open>Eos_Crypto\<close> and \<open>Eos_Merkle\<close> (src/crypto/sha256.go,
  src/chain/types/incremental_merkle.go) show that the incremental Merkle tree has the root of the
  batch routine.

  \<^bold>\<open>Consensus.\<close> \<open>Eos_Header\<close> (src/chain/types/block_header.go, producer_schedule.go,
  block_header_state.go) is the state machine of delegated proof of stake: which headers the next
  state accepts and rejects, the invariant of header chains, and that irreversibility only
  advances. \<open>Eos_ForkIndex\<close>, \<open>Eos_ForkDb\<close> and \<open>Eos_ForkRuns\<close> (src/chain/types/block_state.go,
  the generated multi index, src/chain/fork_database.go) have an explicit heap of block states;
  every run keeps the indices consistent, the head is the best block, and branches meet in a common
  parent.

  \<^bold>\<open>Codecs.\<close> \<open>Eos_Bytes\<close>, \<open>Eos_Codec\<close> and \<open>Eos_CodecLaws\<close> (src/crypto/rlp,
  src/database/pack.go and unpack.go) treat both codecs as one definition over a universe of Go
  types: the round trip, the type of decoded values, the order of encoded keys, and bad input.

  \<^bold>\<open>Object database.\<close> \<open>Eos_Table\<close> (src/database) has tables with indices and an undo stack. Its
  locales \<open>identified_schema\<close> and \<open>object_schema\<close> are what a stored type promises; every stored
  type of the later theories is an interpretation. \<open>Eos_Sessions\<close> shows what undoing gives back
  and which sessions it does not.

  \<^bold>\<open>Resource limits.\<close> \<open>Eos_Resource\<close> and \<open>Eos_ResourceLaws\<close> (src/chain/resource_limits.go,
  src/chain/types/resource_limits_private.go, the resource objects of src/entity): totals are sums
  over accounts in every reachable state, memory accounting is exact, and which transactions are
  billed.

  \<^bold>\<open>Authorization.\<close> \<open>Eos_Authority\<close> and \<open>Eos_AuthorityLaws\<close> (src/chain/types/authority.go,
  authority_checker.go): the recursive checker ends and grants only what is carried, given a
  look-up that behaves as \<open>lookup_ok\<close> says. \<open>Eos_Authorization\<close> and \<open>Eos_AuthorizationLaws\<close>
  (src/chain/authorization_manager.go, the permission objects of src/entity) show that the look-up
  of the manager does, that permissions form a tree in every database that the manager builds, that
  \<open>Satisfies\<close> decides the ancestor relation of that tree, and that an authorized transaction has
  every declared level granted and high enough. Permission 0 is the first one created, the owner of
  the system account, and 0 also marks a missing parent; the statements say what follows.

  \<^bold>\<open>Bounds and fuel.\<close> Loops are structural recursion, folds over the range of the loop, or
  functions with a termination proof; the recursion of the checker ends by the depth limit. Loops
  whose end is not plain from the code (the fork database, the square root, the pending limits, the
  walk of \<open>Satisfies\<close> to the parents) are partial functions into \<open>option\<close>, and that they return is
  proved where it holds. No fuel is used. Statements about counters assume that a 64-bit id does not
  wrap, and say so.

  \<^bold>\<open>Not modelled.\<close> The controller, the transaction context and the handlers of native actions
  (src/chain/controller.go, transaction_context.go, eosio_contract.go) join the parts above with
  files, clocks and the virtual machine; the apply context and contract tables share the memory of a
  contract. The virtual machine (src/wasmgo), the plugins, the block log, the ABI serializer,
  elliptic curves, soft floats and logging are input and output, third-party algorithms or
  interpreters. Deadlines are left out of the checks. Errors of the storage engine, which the code
  only logs, do not occur in the model, and third-party packages are represented by what the code
  relies on.
\<close>

end
